(* ===== verification/Prelude.thy ===== *)
theory Prelude
  imports Complex_Main "HOL-Library.Word" "HOL-Library.AList" "HOL-Library.Multiset"
    "HOL-Library.Sublist"
begin

text \<open>
  The shared prelude of the development: the types that stand for Go's built-in types, the
  result type of fallible Go functions, Go maps, the collections of simplification rules, and
  generic lemmas on lists and results.

  \<^item> A Go \<open>string\<close> and a Go \<open>[]byte\<close> are both byte sequences; both are HOL's
    \<open>string\<close> (a list of 8-bit \<open>char\<close>s), so the conversions \<open>string(b)\<close> and
    \<open>[]byte(s)\<close> are the identity.
  \<^item> A Go \<open>int64\<close> that the code does arithmetic on is a \<open>64 word\<close> (wrapping).
  \<^item> A Go map is an association list with pairwise different keys; its order is the order in
    which one \<open>range\<close> loop visits it. Go leaves that order open, and the definitions
    are stated for every list.
  \<^item> A function returning \<open>(T, error)\<close> returns \<open>error + 'a\<close>: \<open>Err e\<close> or
    \<open>Ok v\<close>.
\<close>

type_synonym gostring = string
type_synonym bytes = string
type_synonym rune = nat
type_synonym int64 = "64 word"
type_synonym ('k, 'v) gomap = "('k \<times> 'v) list"

abbreviation Ok :: "'a \<Rightarrow> 'e + 'a" where
  "Ok \<equiv> Inr"

abbreviation Err :: "'e \<Rightarrow> 'e + 'a" where
  "Err \<equiv> Inl"

named_theorems header_simps "unfolding of the HTTP header tables and lookups"
named_theorems queue_simps "unfolding of the queue operations"

subsection \<open>Results\<close>

text \<open>\<open>andThen\<close> is the Go idiom \<open>x, err := f(); if err != nil { return nil, err }\<close>.\<close>

definition andThen :: "'e + 'a \<Rightarrow> ('a \<Rightarrow> 'e + 'b) \<Rightarrow> 'e + 'b" where
  "andThen m f = (case m of Err e \<Rightarrow> Err e | Ok x \<Rightarrow> f x)"

lemma andThen_simps [simp]:
  "andThen (Err e) f = Err e"
  "andThen (Ok x) f = f x"
  by (simp_all add: andThen_def)

lemma andThen_Ok_iff: "andThen m f = Ok y \<longleftrightarrow> (\<exists>x. m = Ok x \<and> f x = Ok y)"
  by (cases m) auto

lemma andThen_Err_iff:
  "andThen m f = Err e \<longleftrightarrow> m = Err e \<or> (\<exists>x. m = Ok x \<and> f x = Err e)"
  by (cases m) auto

lemma andThen_Ok_E [elim!]:
  assumes "andThen m f = Ok y"
  obtains x where "m = Ok x" "f x = Ok y"
  using assms by (auto simp: andThen_Ok_iff)

subsection \<open>Go maps as association lists\<close>

definition gomap_wf :: "('k, 'v) gomap \<Rightarrow> bool" where
  "gomap_wf m \<longleftrightarrow> distinct (map fst m)"

lemma gomap_wf_Nil [simp]: "gomap_wf []"
  by (simp add: gomap_wf_def)

lemma gomap_wf_Cons [simp]:
  "gomap_wf ((k, v) # m) \<longleftrightarrow> k \<notin> fst ` set m \<and> gomap_wf m"
  by (simp add: gomap_wf_def)

lemma gomap_wf_update [simp]: "gomap_wf m \<Longrightarrow> gomap_wf (AList.update k v m)"
  by (simp add: gomap_wf_def distinct_update)

lemma gomap_wf_filter: "gomap_wf m \<Longrightarrow> gomap_wf (filter P m)"
  by (simp add: gomap_wf_def distinct_map_filter)

lemma map_of_filter_key:
  "map_of (filter (\<lambda>(k, v). P k) m) k = (if P k then map_of m k else None)"
  by (induction m) auto

subsection \<open>Lists updated by index\<close>

lemma sum_list_map_update:
  fixes f :: "'a \<Rightarrow> nat"
  assumes "i < length xs"
  shows "sum_list (map f (xs[i := y])) + f (xs ! i) = sum_list (map f xs) + f y"
  using assms
proof (induction xs arbitrary: i)
  case Nil
  then show ?case by simp
next
  case (Cons x xs)
  then show ?case by (cases i) auto
qed

lemma sum_list_map_nth_le:
  fixes f :: "'a \<Rightarrow> nat"
  assumes "i < length xs"
  shows "f (xs ! i) \<le> sum_list (map f xs)"
  using assms member_le_sum_list [of "f (xs ! i)" "map f xs"] by simp

lemma length_filter_le_sum_list:
  fixes f :: "'a \<Rightarrow> nat"
  assumes "\<And>x. P x \<Longrightarrow> 1 \<le> f x"
  shows "length (filter P xs) \<le> sum_list (map f xs)"
proof (induction xs)
  case Nil
  then show ?case by simp
next
  case (Cons x xs)
  then show ?case using assms [of x] by auto
qed

lemma in_set_update_keep:
  assumes "y \<in> set xs" "y \<noteq> xs ! i"
  shows "y \<in> set (xs[i := x])"
proof -
  from assms obtain j where "j < length xs" "xs ! j = y" "j \<noteq> i" by (metis in_set_conv_nth)
  then have "(xs[i := x]) ! j = y" "j < length (xs[i := x])" by simp_all
  then show ?thesis by (metis nth_mem)
qed

lemma in_set_update_new: "i < length xs \<Longrightarrow> x \<in> set (xs[i := x])"
  by (metis length_list_update nth_list_update_eq nth_mem)

lemma in_set_update_cases:
  assumes "y \<in> set (xs[i := x])"
  shows "y = x \<or> y \<in> set xs"
  using assms set_update_subset_insert [of xs i x] by blast

lemma in_set_update_iff:
  assumes "i < length xs" "y \<noteq> xs ! i" "y \<noteq> x"
  shows "y \<in> set (xs[i := x]) \<longleftrightarrow> y \<in> set xs"
  using assms in_set_update_keep in_set_update_cases by metis

end
