(* ===== verification/GoStrings.thy ===== *)
theory GoStrings
  imports Prelude
begin

text \<open>
  The functions of Go's standard library that the proxy uses on strings: UTF-8 decoding and
  validation (\<open>unicode/utf8\<close>), the functions of package \<open>strings\<close>, decimal printing of
  \<open>int64\<close> (\<open>fmt.Sprint\<close>) and the canonical form of header names
  (\<open>net/textproto\<close>). The case tables of Unicode above ASCII are data this repository does
  not contain; they are the parameter \<open>unicode\<close> of the functions that consult them.
\<close>

subsection \<open>UTF-8\<close>

definition byte :: "char \<Rightarrow> nat" where
  "byte c = of_char c"

lemma byte_less_256: "byte c < 256"
  by (simp add: byte_def)

definition cont_byte :: "char \<Rightarrow> bool" where
  "cont_byte c \<longleftrightarrow> 0x80 \<le> byte c \<and> byte c \<le> 0xBF"

text \<open>
  The tables \<open>first\<close> and \<open>acceptRanges\<close> of \<open>unicode/utf8\<close>: how many bytes the rune that
  starts with a byte has (0 for a byte that starts none), and the range of its second byte.
\<close>

definition rune_size :: "nat \<Rightarrow> nat" where
  "rune_size b =
     (if b < 0x80 then 1 else if b < 0xC2 then 0 else if b < 0xE0 then 2
      else if b < 0xF0 then 3 else if b < 0xF5 then 4 else 0)"

definition accept_lo :: "nat \<Rightarrow> nat" where
  "accept_lo b = (if b = 0xE0 then 0xA0 else if b = 0xF0 then 0x90 else 0x80)"

definition accept_hi :: "nat \<Rightarrow> nat" where
  "accept_hi b = (if b = 0xED then 0x9F else if b = 0xF4 then 0x8F else 0xBF)"

text \<open>\<open>utf8.DecodeRune\<close>: the first rune and its width; \<open>None\<close> is \<open>RuneError\<close>.\<close>

definition decode_rune :: "bytes \<Rightarrow> (rune \<times> nat) option" where
  "decode_rune s =
     (case s of
        [] \<Rightarrow> None
      | c # cs \<Rightarrow>
          (let b = byte c; n = rune_size b in
           if n = 1 then Some (b, 1)
           else if n = 0 \<or> length s < n then None
           else if byte (s ! 1) < accept_lo b \<or> accept_hi b < byte (s ! 1) then None
           else if \<not> list_all cont_byte (take (n - 2) (drop 2 s)) then None
           else Some (foldl (\<lambda>a c. a * 64 + byte c mod 64) (b mod 2 ^ (7 - n)) (take (n - 1) cs), n)))"

lemma rune_size_bounds: "rune_size b \<le> 4"
  by (simp add: rune_size_def)

lemma decode_rune_size:
  assumes "decode_rune s = Some (r, n)"
  shows "n = rune_size (byte (hd s))" "0 < n" "n \<le> 4" "n \<le> length s"
  using assms
  by (auto simp: decode_rune_def Let_def rune_size_def not_less Suc_le_eq
      split: list.splits if_splits)

text \<open>The rest of a decoded rune is made of continuation bytes.\<close>

lemma decode_rune_cont:
  assumes "decode_rune s = Some (r, n)"
  shows "list_all cont_byte (drop 1 (take n s))"
proof (cases "n = 1")
  case True
  then show ?thesis by (cases s) auto
next
  case False
  from decode_rune_size [OF assms] False have n: "2 \<le> n" "n \<le> length s" by auto
  have "cont_byte (s ! 1)" "list_all cont_byte (take (n - 2) (drop 2 s))"
    using assms False
    by (auto simp: decode_rune_def Let_def cont_byte_def accept_lo_def accept_hi_def
        split: list.splits if_splits)
  moreover have "drop 1 (take n s) = s ! 1 # take (n - 2) (drop 2 s)"
    using n by (cases s; cases "tl s") (auto simp: take_Cons' drop_Cons' numeral_2_eq_2)
  ultimately show ?thesis by simp
qed

text \<open>Decoding looks at the bytes of the first rune only.\<close>

lemma decode_rune_append:
  assumes "decode_rune s = Some (r, n)"
  shows "decode_rune (take n s @ t) = Some (r, n)"
proof -
  note sz = decode_rune_size [OF assms]
  obtain c cs where s: "s = c # cs" using sz by (cases s) auto
  have hd: "take n s @ t = c # (take (n - 1) cs @ t)"
    using sz s by (simp add: take_Cons')
  show ?thesis
  proof (cases "n = 1")
    case True
    with assms s hd show ?thesis by (auto simp: decode_rune_def Let_def split: if_splits)
  next
    case False
    with sz have n2: "2 \<le> n" by auto
    have nth: "(take n s @ t) ! 1 = s ! 1" using sz n2 by (simp add: nth_append)
    have dr: "take (n - 2) (drop 2 (take n s @ t)) = take (n - 2) (drop 2 s)"
      using sz n2 by (simp add: drop_take)
    have tk: "take (n - 1) (take (n - 1) cs @ t) = take (n - 1) cs"
      using sz s by simp
    have len: "\<not> length (take n s @ t) < n" using sz by simp
    show ?thesis
      using assms s False sz nth dr tk len hd
      by (simp add: decode_rune_def Let_def split: if_splits)
  qed
qed

lemma decode_rune_short: "length s < rune_size (byte (hd s)) \<Longrightarrow> decode_rune s = None"
  by (auto simp: decode_rune_def Let_def split: list.splits)

lemma foldl_runes_le: "a * 64 ^ length cs \<le> foldl (\<lambda>a c. a * 64 + byte c mod 64) a cs"
proof (induction cs arbitrary: a)
  case (Cons c cs)
  have "a * 64 ^ length (c # cs) \<le> (a * 64 + byte c mod 64) * 64 ^ length cs"
    by (simp add: algebra_simps)
  also have "\<dots> \<le> foldl (\<lambda>a c. a * 64 + byte c mod 64) a (c # cs)"
    using Cons by simp
  finally show ?case .
qed simp

lemma mod_window:
  fixes x :: nat
  assumes "m dvd a" "a + l \<le> x" "x < a + m"
  shows "l \<le> x mod m"
proof -
  obtain k where k: "x = a + k" using assms(2) by (metis add_leD1 le_Suc_ex)
  then have "k < m" using assms(3) by simp
  then have "x mod m = k" using k assms(1) by (metis add.commute dvd_imp_mod_0 mod_add_right_eq mod_less add_0_right)
  then show ?thesis using assms(2) k by simp
qed

lemma decode_rune_multibyte:
  assumes "decode_rune (c # cs) = Some (r, n)" "0x80 \<le> byte c"
  shows "0x80 \<le> r"
proof -
  let ?b = "byte c"
  define m where "m = (if n = 2 then ?b mod 32 else if n = 3 then ?b mod 16 else ?b mod 8)"
  have n: "2 \<le> n" "n \<le> 4" "\<not> ?b < 0xC2"
    and r: "r = foldl (\<lambda>a c. a * 64 + byte c mod 64) m (take (n - 1) cs)"
    and lo: "accept_lo ?b \<le> byte (cs ! 0)" "byte (cs ! 0) \<le> 0xBF"
    and size: "n = rune_size ?b"
    using assms by (auto simp: decode_rune_def Let_def m_def rune_size_def accept_hi_def split: if_splits)
  have len: "n \<le> length (c # cs)" using decode_rune_size(4) [OF assms(1)] .
  then obtain d ds where cs: "cs = d # ds" using n(1) by (cases cs) auto
  have "take (n - 1) cs = d # take (n - 2) ds"
    using n(1) by (cases n; cases "n - 1") (auto simp: cs numeral_2_eq_2)
  then have "(m * 64 + byte d mod 64) * 64 ^ length (take (n - 2) ds) \<le> r"
    using foldl_runes_le [of "m * 64 + byte d mod 64" "take (n - 2) ds"] r by simp
  moreover have "length (take (n - 2) ds) = n - 2" using len cs by simp
  ultimately have r: "(m * 64 + byte d mod 64) * 64 ^ (n - 2) \<le> r" by simp
  consider "n = 2" | "n = 3" | "n = 4" using n by linarith
  then show ?thesis
  proof cases
    case 1
    then have "?b < 0xE0" using size by (auto simp: rune_size_def split: if_splits)
    then have "2 \<le> m" using n(3) 1 mod_window [of 32 192 2 ?b] unfolding m_def by simp
    then show ?thesis using r 1 by simp
  next
    case 2
    then have b: "0xE0 \<le> ?b" "?b < 0xF0" using size by (auto simp: rune_size_def split: if_splits)
    show ?thesis
    proof (cases "?b = 0xE0")
      case True
      then have "0xA0 \<le> byte d" "byte d \<le> 0xBF" using lo cs by (auto simp: accept_lo_def)
      then have "32 \<le> byte d mod 64" by (intro mod_window [of 64 128]) simp_all
      then show ?thesis using r 2 by simp
    next
      case False
      then have "1 \<le> m" using b 2 mod_window [of 16 224 1 ?b] unfolding m_def by simp
      then show ?thesis using r 2 by simp
    qed
  next
    case 3
    then have b: "0xF0 \<le> ?b" "?b < 0xF5" using size by (auto simp: rune_size_def split: if_splits)
    show ?thesis
    proof (cases "?b = 0xF0")
      case True
      then have "0x90 \<le> byte d" "byte d \<le> 0xBF" using lo cs by (auto simp: accept_lo_def)
      then have "16 \<le> byte d mod 64" by (intro mod_window [of 64 128]) simp_all
      then show ?thesis using r 3 by simp
    next
      case False
      then have "1 \<le> m" using b 3 mod_window [of 8 240 1 ?b] unfolding m_def by simp
      then show ?thesis using r 3 by simp
    qed
  qed
qed

lemma decode_rune_cont_byte: "cont_byte c \<Longrightarrow> decode_rune (c # cs) = None"
  by (simp add: decode_rune_def cont_byte_def rune_size_def Let_def)

subsection \<open>Walking over a string rune by rune\<close>

text \<open>
  One pass of a \<open>range\<close> loop over a string: the valid encodings with their runes, and the bytes
  that start no valid encoding, one by one.
\<close>

function runes_of :: "bytes \<Rightarrow> (rune option \<times> bytes) list" where
  "runes_of s =
     (case s of
        [] \<Rightarrow> []
      | c # cs \<Rightarrow>
          (case decode_rune s of
             Some (r, n) \<Rightarrow> (Some r, take n s) # runes_of (drop n s)
           | None \<Rightarrow> (None, [c]) # runes_of cs))"
  by pat_completeness auto
termination
proof (relation "measure length")
  fix s :: bytes and c cs x r n
  assume "s = c # cs" "decode_rune s = Some x" "(r, n) = x"
  then show "(drop n s, s) \<in> measure length"
    using decode_rune_size [of s r n] by auto
qed auto

declare runes_of.simps [simp del]

lemma runes_of_Nil [simp]: "runes_of [] = []"
  by (subst runes_of.simps) simp

lemma runes_of_Some:
  "decode_rune s = Some (r, n) \<Longrightarrow> runes_of s = (Some r, take n s) # runes_of (drop n s)"
  by (subst runes_of.simps) (auto simp: decode_rune_def split: list.splits)

lemma runes_of_None:
  "decode_rune (c # cs) = None \<Longrightarrow> runes_of (c # cs) = (None, [c]) # runes_of cs"
  by (subst runes_of.simps) simp

text \<open>Induction along the walk.\<close>

lemma runes_of_induct [case_names Nil Some None]:
  assumes "P []"
    and "\<And>s r n. decode_rune s = Some (r, n) \<Longrightarrow> P (drop n s) \<Longrightarrow> P s"
    and "\<And>c cs. decode_rune (c # cs) = None \<Longrightarrow> P cs \<Longrightarrow> P (c # cs)"
  shows "P s"
proof (induction s rule: length_induct)
  case (1 s)
  show ?case
  proof (cases s)
    case Nil
    with assms(1) show ?thesis by simp
  next
    case (Cons c cs)
    show ?thesis
    proof (cases "decode_rune s")
      case None
      with 1 Cons assms(3) show ?thesis by simp
    next
      case (Some x)
      obtain r n where x: "x = (r, n)" by (cases x)
      have "length (drop n s) < length s"
        using decode_rune_size [of s r n] Some x by simp
      with 1 Some x assms(2) show ?thesis by blast
    qed
  qed
qed

text \<open>The pieces of the walk make up the string.\<close>

lemma concat_runes_of [simp]: "concat (map snd (runes_of s)) = s"
  by (induction s rule: runes_of_induct) (simp_all add: runes_of_Some runes_of_None)

lemma runes_of_conts: "list_all cont_byte s \<Longrightarrow> runes_of s = map (\<lambda>c. (None, [c])) s"
  by (induction s) (simp_all add: runes_of_None decode_rune_cont_byte)

text \<open>\<open>utf8.Valid\<close>, the \<open>range\<close> loop's runes, and \<open>strings.ToValidUTF8 s ""\<close>.\<close>

definition utf8_valid :: "bytes \<Rightarrow> bool" where
  "utf8_valid s \<longleftrightarrow> list_all (\<lambda>(r, b). r \<noteq> None) (runes_of s)"

definition rune_error :: rune where
  "rune_error = 0xFFFD"

definition range_runes :: "gostring \<Rightarrow> rune list" where
  "range_runes s = map (\<lambda>(r, b). case r of Some x \<Rightarrow> x | None \<Rightarrow> rune_error) (runes_of s)"

definition ToValidUTF8_drop :: "gostring \<Rightarrow> gostring" where
  "ToValidUTF8_drop s = concat (map snd (filter (\<lambda>(r, b). r \<noteq> None) (runes_of s)))"

lemma utf8_valid_Nil [simp]: "utf8_valid []"
  by (simp add: utf8_valid_def)

lemma utf8_valid_Some:
  "decode_rune s = Some (r, n) \<Longrightarrow> utf8_valid s \<longleftrightarrow> utf8_valid (drop n s)"
  by (simp add: utf8_valid_def runes_of_Some)

lemma utf8_valid_None: "decode_rune (c # cs) = None \<Longrightarrow> \<not> utf8_valid (c # cs)"
  by (simp add: utf8_valid_def runes_of_None)

lemma ToValidUTF8_Some:
  "decode_rune s = Some (r, n) \<Longrightarrow> ToValidUTF8_drop s = take n s @ ToValidUTF8_drop (drop n s)"
  by (simp add: ToValidUTF8_drop_def runes_of_Some)

lemma ToValidUTF8_conts: "list_all cont_byte s \<Longrightarrow> ToValidUTF8_drop s = []"
  by (simp add: ToValidUTF8_drop_def runes_of_conts filter_map comp_def)

text \<open>What \<open>ToValidUTF8\<close> keeps is valid, and it keeps a valid string whole.\<close>

lemma decode_rune_take_append:
  "decode_rune s = Some (r, n) \<Longrightarrow> runes_of (take n s @ t) = (Some r, take n s) # runes_of t"
  using runes_of_Some [of "take n s @ t" r n] decode_rune_append [of s r n t]
    decode_rune_size(4) [of s r n]
  by simp

lemma runes_of_ToValidUTF8:
  "runes_of (ToValidUTF8_drop s) = filter (\<lambda>(r, b). r \<noteq> None) (runes_of s)"
proof (induction s rule: runes_of_induct)
  case Nil
  then show ?case by (simp add: ToValidUTF8_drop_def)
next
  case (Some s r n)
  then show ?case
    by (simp add: ToValidUTF8_Some decode_rune_take_append runes_of_Some [of s])
next
  case (None c cs)
  then show ?case by (simp add: ToValidUTF8_drop_def runes_of_None)
qed

lemma ToValidUTF8_valid: "utf8_valid (ToValidUTF8_drop s)"
  by (simp add: utf8_valid_def runes_of_ToValidUTF8 list_all_iff)

lemma ToValidUTF8_id: "utf8_valid s \<Longrightarrow> ToValidUTF8_drop s = s"
  by (induction s rule: runes_of_induct)
    (simp_all add: ToValidUTF8_Some utf8_valid_Some utf8_valid_None, simp add: ToValidUTF8_drop_def)

text \<open>
  Cutting a valid string anywhere and dropping the broken bytes cuts it at the last rune
  boundary: a prefix is left that is at most three bytes shorter than the cut.
\<close>

lemma ToValidUTF8_take:
  assumes "utf8_valid s"
  shows "\<exists>k \<le> n. n \<le> k + 3 \<and> ToValidUTF8_drop (take n s) = take k s \<and> utf8_valid (take k s)"
  using assms
proof (induction s arbitrary: n rule: runes_of_induct)
  case Nil
  then show ?case by (intro exI [of _ n]) (simp add: ToValidUTF8_drop_def)
next
  case (Some s r m)
  note sz = decode_rune_size [OF Some.hyps]
  show ?case
  proof (cases "m \<le> n")
    case True
    from Some.IH [of "n - m"] Some.prems Some.hyps obtain k where k: "k \<le> n - m" "n - m \<le> k + 3"
      "ToValidUTF8_drop (take (n - m) (drop m s)) = take k (drop m s)"
      "utf8_valid (take k (drop m s))"
      by (auto simp: utf8_valid_Some)
    have split: "take (m + j) s = take m s @ take j (drop m s)" for j
      by (simp add: take_add)
    have dec: "decode_rune (take (m + j) s) = Some (r, m)" for j
      using decode_rune_append [OF Some.hyps, of "take j (drop m s)"] by (simp add: split)
    have cut: "ToValidUTF8_drop (take (m + j) s) = take m s @ ToValidUTF8_drop (take j (drop m s))"
      "utf8_valid (take (m + j) s) = utf8_valid (take j (drop m s))" for j
      using ToValidUTF8_Some [OF dec [of j]] utf8_valid_Some [OF dec [of j]]
      by (simp_all add: drop_take)
    from cut(1) [of "n - m"] True k have "ToValidUTF8_drop (take n s) = take (m + k) s"
      by (simp add: split)
    moreover from cut(2) [of k] k have "utf8_valid (take (m + k) s)" by simp
    ultimately show ?thesis using k True by (intro exI [of _ "m + k"]) auto
  next
    case False
    have "ToValidUTF8_drop (take n s) = []"
    proof (cases "n = 0")
      case True
      then show ?thesis by (simp add: ToValidUTF8_drop_def)
    next
      case n: False
      then obtain c cs where ts: "take n s = c # cs" and c: "c = hd s"
        using sz by (cases s; cases n) auto
      have "decode_rune (take n s) = None"
      proof (rule decode_rune_short)
        have "length (take n s) < m" using False by simp
        moreover have "hd (take n s) = hd s" using ts c by simp
        ultimately show "length (take n s) < rune_size (byte (hd (take n s)))"
          using sz(1) by simp
      qed
      moreover have "list_all cont_byte cs"
      proof -
        have "cs = take (n - 1) (drop 1 (take m s))"
          using ts False n by (cases s; cases n) (auto simp: take_Cons' min_def)
        then show ?thesis
          using decode_rune_cont [OF Some.hyps] by (auto simp: list_all_iff dest: in_set_takeD)
      qed
      ultimately show ?thesis
        using ts ToValidUTF8_conts [of cs] by (simp add: ToValidUTF8_drop_def runes_of_None)
    qed
    then show ?thesis using False sz by (intro exI [of _ 0]) auto
  qed
next
  case (None c cs)
  then show ?case by (simp add: utf8_valid_None)
qed

subsection \<open>Encoding a rune\<close>

text \<open>\<open>utf8.AppendRune\<close>; surrogates and values above the last rune are written as \<open>RuneError\<close>.\<close>

definition scalar_rune :: "rune \<Rightarrow> bool" where
  "scalar_rune r \<longleftrightarrow> r < 0xD800 \<or> (0xE000 \<le> r \<and> r < 0x110000)"

definition encode_rune :: "rune \<Rightarrow> bytes" where
  "encode_rune r0 =
     (let r = (if scalar_rune r0 then r0 else rune_error) in
      if r < 0x80 then [char_of r]
      else if r < 0x800 then [char_of (0xC0 + r div 64), char_of (0x80 + r mod 64)]
      else if r < 0x10000 then
        [char_of (0xE0 + r div 4096), char_of (0x80 + r div 64 mod 64), char_of (0x80 + r mod 64)]
      else
        [char_of (0xF0 + r div 262144), char_of (0x80 + r div 4096 mod 64),
         char_of (0x80 + r div 64 mod 64), char_of (0x80 + r mod 64)])"

text \<open>The bytes of a string literal, from its code points.\<close>

definition utf8 :: "rune list \<Rightarrow> bytes" where
  "utf8 rs = concat (map encode_rune rs)"

lemma byte_char_of: "n < 256 \<Longrightarrow> byte (char_of n) = n"
  by (simp add: byte_def)

lemma mod_drop: "a < (m::nat) \<Longrightarrow> m dvd k \<Longrightarrow> (k + a) mod m = a"
  by (metis add.commute dvd_imp_mod_0 mod_add_right_eq mod_less add_0_right)

lemma base64_digits:
  fixes r :: nat
  obtains q b where "r = q * 64 + b" "b < 64" "r div 64 = q" "r mod 64 = b"
  by (metis div_mult_mod_eq mod_less_divisor zero_less_numeral)

lemma base64_div:
  fixes x :: nat
  assumes "c < 64"
  shows "(x * 64 + c) div 64 = x" "(x * 64 + c) mod 64 = c"
  using assms by simp_all

lemma div_4096: "(r::nat) div 4096 = r div 64 div 64"
  by (simp add: div_mult2_eq [symmetric])

lemma div_262144: "(r::nat) div 262144 = r div 64 div 64 div 64"
  by (simp add: div_mult2_eq [symmetric])

text \<open>Two, three and four byte encodings, by the base-64 digits of the rune.\<close>

lemma encode_rune_digits:
  "0x80 \<le> q * 64 + b \<Longrightarrow> q * 64 + b < 0x800 \<Longrightarrow> b < 64 \<Longrightarrow>
     encode_rune (q * 64 + b) = [char_of (0xC0 + q), char_of (0x80 + b)]"
  "scalar_rune ((a * 64 + b) * 64 + c) \<Longrightarrow> 0x800 \<le> (a * 64 + b) * 64 + c \<Longrightarrow>
     (a * 64 + b) * 64 + c < 0x10000 \<Longrightarrow> b < 64 \<Longrightarrow> c < 64 \<Longrightarrow>
     encode_rune ((a * 64 + b) * 64 + c) =
       [char_of (0xE0 + a), char_of (0x80 + b), char_of (0x80 + c)]"
  "0x10000 \<le> ((a * 64 + b) * 64 + c) * 64 + d \<Longrightarrow>
     ((a * 64 + b) * 64 + c) * 64 + d < 0x110000 \<Longrightarrow> b < 64 \<Longrightarrow> c < 64 \<Longrightarrow> d < 64 \<Longrightarrow>
     encode_rune (((a * 64 + b) * 64 + c) * 64 + d) =
       [char_of (0xF0 + a), char_of (0x80 + b), char_of (0x80 + c), char_of (0x80 + d)]"
  by (simp_all add: encode_rune_def scalar_rune_def Let_def div_4096 div_262144 base64_div
      del: distrib_right_numeral)

lemma decode_encode_rune:
  assumes "scalar_rune r"
  shows "decode_rune (encode_rune r @ t) = Some (r, length (encode_rune r))"
proof -
  consider "r < 0x80" | "0x80 \<le> r" "r < 0x800" | "0x800 \<le> r" "r < 0x10000"
    | "0x10000 \<le> r" "r < 0x110000"
    using assms by (force simp: scalar_rune_def)
  then show ?thesis
  proof cases
    case 1
    with assms show ?thesis
      by (simp add: encode_rune_def decode_rune_def rune_size_def byte_char_of)
  next
    case 2
    obtain q b where r: "r = q * 64 + b" "b < 64" by (rule base64_digits)
    have bnd: "2 \<le> q" "q < 32" using r 2 by linarith+
    have "encode_rune r = [char_of (0xC0 + q), char_of (0x80 + b)]"
      unfolding r(1) by (rule encode_rune_digits) (use r 2 in auto)
    then show ?thesis using r bnd
      by (simp add: decode_rune_def rune_size_def byte_char_of mod_drop accept_lo_def
          accept_hi_def Let_def)
  next
    case 3
    obtain q c where q: "r = q * 64 + c" "c < 64" by (rule base64_digits)
    obtain a b where a: "q = a * 64 + b" "b < 64" by (rule base64_digits)
    have bnd: "a < 16" "a = 0 \<longrightarrow> 32 \<le> b" "a = 13 \<longrightarrow> b < 32"
      using q a 3 assms unfolding scalar_rune_def by linarith+
    have r: "r = (a * 64 + b) * 64 + c" using q a by simp
    have "encode_rune r = [char_of (0xE0 + a), char_of (0x80 + b), char_of (0x80 + c)]"
      unfolding r by (rule encode_rune_digits) (use r q a 3 assms in \<open>simp_all only:\<close>)
    then show ?thesis using r q a bnd
      by (auto simp: decode_rune_def rune_size_def byte_char_of mod_drop
          cont_byte_def accept_lo_def accept_hi_def Let_def)
  next
    case 4
    obtain q d where q: "r = q * 64 + d" "d < 64" by (rule base64_digits)
    obtain p c where p: "q = p * 64 + c" "c < 64" by (rule base64_digits)
    obtain a b where a: "p = a * 64 + b" "b < 64" by (rule base64_digits)
    have bnd: "a < 5" "a = 0 \<longrightarrow> 16 \<le> b" "a = 4 \<longrightarrow> b < 16"
      using q p a 4 by linarith+
    have r: "r = ((a * 64 + b) * 64 + c) * 64 + d" using q p a by simp
    have "encode_rune r =
      [char_of (0xF0 + a), char_of (0x80 + b), char_of (0x80 + c), char_of (0x80 + d)]"
      unfolding r by (rule encode_rune_digits) (use r q p a 4 in \<open>simp_all only:\<close>)
    then show ?thesis using r q p a bnd
      by (auto simp: decode_rune_def rune_size_def byte_char_of mod_drop
          cont_byte_def accept_lo_def accept_hi_def Let_def)
  qed
qed

lemma runes_of_encode_append:
  "scalar_rune r \<Longrightarrow> runes_of (encode_rune r @ t) = (Some r, encode_rune r) # runes_of t"
  using runes_of_Some [OF decode_encode_rune, of r t] by simp

lemma range_runes_encode:
  "list_all scalar_rune rs \<Longrightarrow> range_runes (concat (map encode_rune rs)) = rs"
proof (induction rs)
  case Nil
  then show ?case by (simp add: range_runes_def)
next
  case (Cons r rs)
  then show ?case by (simp add: range_runes_def runes_of_encode_append)
qed

subsection \<open>ASCII, case and white space\<close>

definition is_ascii :: "char \<Rightarrow> bool" where
  "is_ascii c \<longleftrightarrow> byte c < 0x80"

definition lower_byte :: "char \<Rightarrow> char" where
  "lower_byte c = (if 0x41 \<le> byte c \<and> byte c \<le> 0x5A then char_of (byte c + 32) else c)"

definition upper_byte :: "char \<Rightarrow> char" where
  "upper_byte c = (if 0x61 \<le> byte c \<and> byte c \<le> 0x7A then char_of (byte c - 32) else c)"

text \<open>
  The Unicode tables of the standard library above ASCII: the lower-case mapping of
  \<open>unicode.ToLower\<close> and \<open>being in one orbit\<close> of \<open>unicode.SimpleFold\<close>.
\<close>

record unicode_tables =
  u_lower :: "rune \<Rightarrow> rune"
  u_fold :: "rune \<Rightarrow> rune \<Rightarrow> bool"

text \<open>The tables of a language whose only letters with two cases are the ASCII ones.\<close>

definition ascii_tables :: unicode_tables where
  "ascii_tables = \<lparr>u_lower = (\<lambda>r. r), u_fold = (\<lambda>a b. a = b)\<rparr>"

definition lower_rune :: "unicode_tables \<Rightarrow> rune \<Rightarrow> rune" where
  "lower_rune U r =
     (if r < 0x80 then (if 0x41 \<le> r \<and> r \<le> 0x5A then r + 32 else r) else u_lower U r)"

definition ToLower :: "unicode_tables \<Rightarrow> gostring \<Rightarrow> gostring" where
  "ToLower U s =
     (if list_all is_ascii s then map lower_byte s
      else concat (map (\<lambda>r. encode_rune (lower_rune U r)) (range_runes s)))"

text \<open>\<open>unicode.IsSpace\<close>: the white-space characters of Latin-1 and of Unicode.\<close>

definition IsSpace :: "rune \<Rightarrow> bool" where
  "IsSpace r \<longleftrightarrow>
     (9 \<le> r \<and> r \<le> 13) \<or> r = 32 \<or> r = 0x85 \<or> r = 0xA0 \<or> r = 0x1680
     \<or> (0x2000 \<le> r \<and> r \<le> 0x200A) \<or> r = 0x2028 \<or> r = 0x2029 \<or> r = 0x202F
     \<or> r = 0x205F \<or> r = 0x3000"

definition space_piece :: "rune option \<times> bytes \<Rightarrow> bool" where
  "space_piece p = (case fst p of Some r \<Rightarrow> IsSpace r | None \<Rightarrow> False)"

text \<open>
  \<open>strings.TrimSpace\<close>. Go trims the end by decoding backwards; an encoded rune that ends a string
  is always the last piece of the forward walk, so both ends are read off one walk.
\<close>

definition TrimSpace :: "gostring \<Rightarrow> gostring" where
  "TrimSpace s =
     concat (map snd (rev (dropWhile space_piece (rev (dropWhile space_piece (runes_of s))))))"

text \<open>\<open>strings.EqualFold\<close>: equal rune by rune under simple case folding.\<close>

definition rune_fold_eq :: "unicode_tables \<Rightarrow> rune \<Rightarrow> rune \<Rightarrow> bool" where
  "rune_fold_eq U a b \<longleftrightarrow>
     a = b \<or> (if a < 0x80 \<and> b < 0x80 then lower_rune U a = lower_rune U b else u_fold U a b)"

definition EqualFold :: "unicode_tables \<Rightarrow> gostring \<Rightarrow> gostring \<Rightarrow> bool" where
  "EqualFold U s t \<longleftrightarrow> list_all2 (rune_fold_eq U) (range_runes s) (range_runes t)"

subsection \<open>Prefixes, suffixes, substrings\<close>

definition HasPrefix :: "gostring \<Rightarrow> gostring \<Rightarrow> bool" where
  "HasPrefix s p \<longleftrightarrow> take (length p) s = p"

definition HasSuffix :: "gostring \<Rightarrow> gostring \<Rightarrow> bool" where
  "HasSuffix s p \<longleftrightarrow> length p \<le> length s \<and> drop (length s - length p) s = p"

fun Contains :: "gostring \<Rightarrow> gostring \<Rightarrow> bool" where
  "Contains [] p = (p = [])"
| "Contains (c # cs) p = (HasPrefix (c # cs) p \<or> Contains cs p)"

text \<open>\<open>TrimRight s "/"\<close> and \<open>TrimLeft s "/"\<close>, and \<open>SplitN s sep 2\<close>'s first part.\<close>

definition TrimRightByte :: "gostring \<Rightarrow> char \<Rightarrow> gostring" where
  "TrimRightByte s c = rev (dropWhile (\<lambda>x. x = c) (rev s))"

definition TrimLeftByte :: "gostring \<Rightarrow> char \<Rightarrow> gostring" where
  "TrimLeftByte s c = dropWhile (\<lambda>x. x = c) s"

definition SplitFirst :: "gostring \<Rightarrow> char \<Rightarrow> gostring" where
  "SplitFirst s c = takeWhile (\<lambda>x. x \<noteq> c) s"

lemma HasPrefix_iff: "HasPrefix s p \<longleftrightarrow> (\<exists>t. s = p @ t)"
  by (metis HasPrefix_def append_eq_conv_conj append_take_drop_id)

lemma HasPrefix_append [simp]: "HasPrefix (p @ t) p"
  by (simp add: HasPrefix_iff)

lemma HasSuffix_iff: "HasSuffix s p \<longleftrightarrow> (\<exists>t. s = t @ p)"
  by (auto simp: HasSuffix_def) (metis append_take_drop_id)

lemma Contains_iff: "Contains s p \<longleftrightarrow> (\<exists>a b. s = a @ p @ b)"
proof (induction s)
  case Nil
  then show ?case by auto
next
  case (Cons c s)
  note IH = Cons.IH
  show ?case
  proof
    assume "Contains (c # s) p"
    then show "\<exists>a b. c # s = a @ p @ b"
      using IH by (auto simp: HasPrefix_iff intro: exI [of _ "[]"]) (metis append_Cons)
  next
    assume "\<exists>a b. c # s = a @ p @ b"
    then obtain a b where "c # s = a @ p @ b" by blast
    then show "Contains (c # s) p"
    proof (cases a)
      case Nil
      with \<open>c # s = a @ p @ b\<close> have "HasPrefix (c # s) p" by (simp add: HasPrefix_def)
      then show ?thesis by simp
    next
      case (Cons x a')
      with \<open>c # s = a @ p @ b\<close> have "s = a' @ p @ b" by simp
      then show ?thesis using IH by auto
    qed
  qed
qed

subsection \<open>ASCII strings\<close>

lemma decode_rune_ascii: "is_ascii c \<Longrightarrow> decode_rune (c # cs) = Some (byte c, 1)"
  by (simp add: decode_rune_def is_ascii_def rune_size_def Let_def)

lemma runes_of_ascii:
  "is_ascii c \<Longrightarrow> runes_of (c # cs) = (Some (byte c), [c]) # runes_of cs"
  using runes_of_Some [OF decode_rune_ascii, of c cs] by simp

lemma range_runes_ascii: "list_all is_ascii s \<Longrightarrow> range_runes s = map byte s"
  by (induction s) (simp_all add: range_runes_def runes_of_ascii)

lemma utf8_valid_ascii: "list_all is_ascii s \<Longrightarrow> utf8_valid s"
  by (induction s) (simp_all add: utf8_valid_def runes_of_ascii)

lemma lower_byte_ascii: "is_ascii c \<Longrightarrow> is_ascii (lower_byte c)"
  by (auto simp: lower_byte_def is_ascii_def byte_char_of)

lemma lower_byte_idem: "lower_byte (lower_byte c) = lower_byte c"
  by (auto simp: lower_byte_def byte_char_of)

lemma byte_inject: "byte a = byte b \<longleftrightarrow> a = b"
  by (simp add: byte_def)

lemma lower_rune_byte: "is_ascii c \<Longrightarrow> lower_rune U (byte c) = byte (lower_byte c)"
  by (auto simp: lower_rune_def lower_byte_def is_ascii_def byte_char_of)

lemma ToLower_ascii: "list_all is_ascii s \<Longrightarrow> ToLower U s = map lower_byte s"
  by (simp add: ToLower_def)

lemma ToLower_ascii_idem: "list_all is_ascii s \<Longrightarrow> ToLower U (ToLower U s) = ToLower U s"
  by (simp add: ToLower_def list_all_iff lower_byte_ascii lower_byte_idem)

text \<open>On ASCII strings \<open>EqualFold\<close> is equality of the lower-case forms.\<close>

lemma EqualFold_ascii:
  assumes "list_all is_ascii s" "list_all is_ascii t"
  shows "EqualFold U s t \<longleftrightarrow> ToLower U s = ToLower U t"
proof -
  have "list_all2 (rune_fold_eq U) (map byte s) (map byte t) \<longleftrightarrow> map lower_byte s = map lower_byte t"
    using assms
  proof (induction s arbitrary: t)
    case Nil
    then show ?case by auto
  next
    case (Cons c s)
    show ?case
    proof (cases t)
      case Nil
      then show ?thesis by simp
    next
      case t: (Cons d t')
      have "rune_fold_eq U (byte c) (byte d) \<longleftrightarrow> lower_byte c = lower_byte d"
        using Cons.prems t
        by (auto simp: rune_fold_eq_def lower_rune_byte byte_inject is_ascii_def)
      with Cons t show ?thesis by simp
    qed
  qed
  with assms show ?thesis by (simp add: EqualFold_def range_runes_ascii ToLower_ascii)
qed

subsection \<open>Decimal numbers\<close>

text \<open>\<open>fmt.Sprint\<close> and the verb \<open>%d\<close> on an \<open>int64\<close>, and the number a decimal string denotes.\<close>

fun show_nat :: "nat \<Rightarrow> gostring" where
  "show_nat n =
     (if n < 10 then [char_of (48 + n)] else show_nat (n div 10) @ [char_of (48 + n mod 10)])"

declare show_nat.simps [simp del]

definition show_int :: "int \<Rightarrow> gostring" where
  "show_int i = (if i < 0 then ''-'' @ show_nat (nat (- i)) else show_nat (nat i))"

definition read_nat :: "gostring \<Rightarrow> nat" where
  "read_nat s = foldl (\<lambda>a c. a * 10 + (byte c - 48)) 0 s"

definition is_digit :: "char \<Rightarrow> bool" where
  "is_digit c \<longleftrightarrow> 48 \<le> byte c \<and> byte c \<le> 57"

lemma read_show_nat [simp]: "read_nat (show_nat n) = n"
proof (induction n rule: show_nat.induct)
  case (1 n)
  then show ?case
    by (subst show_nat.simps) (auto simp: read_nat_def byte_char_of)
qed

lemma is_digit_char_of: "d < (10::nat) \<Longrightarrow> is_digit (char_of (48 + d))"
  by (simp add: is_digit_def byte_char_of)

lemma show_nat_digits: "list_all is_digit (show_nat n)"
proof (induction n rule: show_nat.induct)
  case (1 n)
  then show ?case
    by (subst show_nat.simps) (auto simp: is_digit_char_of)
qed

lemma show_nat_nonempty [simp]: "show_nat n \<noteq> []"
  by (subst show_nat.simps) simp

lemma show_nat_inject [simp]: "show_nat m = show_nat n \<longleftrightarrow> m = n"
  by (metis read_show_nat)

lemma show_nat_no_minus: "show_nat n \<noteq> CHR ''-'' # s"
proof
  assume "show_nat n = CHR ''-'' # s"
  with show_nat_digits [of n] have "is_digit CHR ''-''" by simp
  then show False by (simp add: is_digit_def byte_def)
qed

lemma show_int_inject [simp]: "show_int i = show_int j \<longleftrightarrow> i = j"
  using show_nat_no_minus by (auto simp: show_int_def dest: sym)

lemma show_int_no_colon: "CHR '':'' \<notin> set (show_int i)"
proof -
  have "CHR '':'' \<notin> set (show_nat n)" for n
    using show_nat_digits [of n] by (auto simp: list_all_iff is_digit_def byte_def)
  then show ?thesis by (simp add: show_int_def)
qed

subsection \<open>Header names\<close>

text \<open>
  \<open>textproto.CanonicalMIMEHeaderKey\<close>: a name made of token characters gets capital letters at its
  start and after each dash and small ones elsewhere; any other name is left as it is.
\<close>

definition header_byte :: "char \<Rightarrow> bool" where
  "header_byte c \<longleftrightarrow>
     is_digit c \<or> (0x41 \<le> byte c \<and> byte c \<le> 0x5A) \<or> (0x61 \<le> byte c \<and> byte c \<le> 0x7A)
     \<or> c \<in> set ''!#$%&*+-.^_|~'' \<or> byte c = 0x27 \<or> byte c = 0x60"

fun canonical_bytes :: "bool \<Rightarrow> gostring \<Rightarrow> gostring" where
  "canonical_bytes upper [] = []"
| "canonical_bytes upper (c # cs) =
     (if upper then upper_byte c else lower_byte c) # canonical_bytes (c = CHR ''-'') cs"

definition CanonicalHeaderKey :: "gostring \<Rightarrow> gostring" where
  "CanonicalHeaderKey s = (if list_all header_byte s then canonical_bytes True s else s)"

end
