(* ===== verification/AppErrors.thy ===== *)
theory AppErrors
  imports GoStrings
begin

text \<open>
  \<open>internal/apperrors\<close>: the proxy's error values. A Go \<open>error\<close> is a value of
  \<open>go_error\<close>: a pointer to one of the two error structs, one of the sentinels of the
  libraries the code compares with (\<open>gorm.ErrRecordNotFound\<close>, \<open>redis.Nil\<close>), any other
  error (its dynamic type's name and its text), or an error that wraps another one. The Korean
  messages are written by their code points.
\<close>

record proxy_error =
  pe_Code :: gostring
  pe_StatusCode :: int
  pe_Message :: gostring

record external_api_error =
  ee_ProxyError :: proxy_error
  ee_UpstreamStatusCode :: int
  ee_UpstreamBody :: gostring

datatype go_error =
    ProxyErr proxy_error
  | ExternalErr external_api_error
  | RecordNotFound
  | RedisNil
  | OpaqueErr (err_type: gostring) (err_text: gostring)
  | WrapErr (err_type: gostring) (err_text: gostring) (unwrap: go_error)

type_synonym 'a result = "go_error + 'a"

subsection \<open>The error values\<close>

text \<open>\<open>(*ProxyError).Error\<close>; \<open>ExternalAPIError\<close> gets the method by embedding.\<close>

definition ProxyError_Error :: "proxy_error \<Rightarrow> gostring" where
  "ProxyError_Error e = ''['' @ pe_Code e @ ''] '' @ pe_Message e"

definition NewExternalAPIError :: "int \<Rightarrow> gostring \<Rightarrow> external_api_error" where
  "NewExternalAPIError upstreamStatus upstreamBody =
     \<lparr>ee_ProxyError =
        \<lparr>pe_Code = ''EXTERNAL_API_ERROR'', pe_StatusCode = 502,
         pe_Message = ''API '' @ utf8 [0xD638, 0xCD9C] @ '' '' @ utf8 [0xC911] @ '' '' @ utf8 [0xC624,
        0xB958, 0xAC00] @ '' '' @ utf8 [0xBC1C, 0xC0DD, 0xD588, 0xC2B5, 0xB2C8, 0xB2E4] @
        ''.''\<rparr>,
      ee_UpstreamStatusCode = upstreamStatus,
      ee_UpstreamBody = upstreamBody\<rparr>"

text \<open>The sentinel errors.\<close>

definition ErrApiTokenNotFound :: proxy_error where
  "ErrApiTokenNotFound = \<lparr>pe_Code = ''API_TOKEN_NOT_FOUND'', pe_StatusCode = 404,
     pe_Message = ''API '' @ utf8 [0xD1A0, 0xD070, 0xC744] @ '' '' @ utf8 [0xCC3E, 0xC744] @ '' '' @
        utf8 [0xC218] @ '' '' @ utf8 [0xC5C6, 0xC2B5, 0xB2C8, 0xB2E4] @ ''.''\<rparr>"

definition ErrApiTokenBlocked :: proxy_error where
  "ErrApiTokenBlocked = \<lparr>pe_Code = ''API_TOKEN_BLOCKED'', pe_StatusCode = 403,
     pe_Message = utf8 [0xC694, 0xCCAD] @ '' '' @ utf8 [0xC81C, 0xD55C] @ '' '' @ utf8 [0xC815, 0xCC45]
        @ '' '' @ utf8 [0xC704, 0xBC18, 0xC73C, 0xB85C] @ '' API '' @ utf8 [0xD1A0, 0xD070,
        0xC774] @ '' '' @ utf8 [0xCC28, 0xB2E8, 0xB418, 0xC5C8, 0xC2B5, 0xB2C8, 0xB2E4] @
        ''. '' @ utf8 [0xCC28, 0xB2E8] @ '' '' @ utf8 [0xD574, 0xC81C, 0xB294] @
        '' BSSM Developers '' @ utf8 [0xACF5, 0xC2DD] @ '' '' @ utf8 [0xD648, 0xD398, 0xC774,
        0xC9C0, 0xB97C] @ '' '' @ utf8 [0xD1B5, 0xD574] @ '' '' @ utf8 [0xC694, 0xCCAD,
        0xD560] @ '' '' @ utf8 [0xC218] @ '' '' @ utf8 [0xC788, 0xC2B5, 0xB2C8, 0xB2E4] @
        ''.''\<rparr>"

definition ErrInvalidSecretKey :: proxy_error where
  "ErrInvalidSecretKey = \<lparr>pe_Code = ''INVALID_SECRET_KEY'', pe_StatusCode = 401,
     pe_Message = utf8 [0xC720, 0xD6A8, 0xD558, 0xC9C0] @ '' '' @ utf8 [0xC54A, 0xC740] @ '' '' @ utf8
        [0xC2DC, 0xD06C, 0xB9BF] @ '' '' @ utf8 [0xD0A4, 0xC785, 0xB2C8, 0xB2E4] @ ''.''\<rparr>"

definition ErrUnauthorizedDomain :: proxy_error where
  "ErrUnauthorizedDomain = \<lparr>pe_Code = ''UNAUTHORIZED_DOMAIN'', pe_StatusCode = 403,
     pe_Message = utf8 [0xD5C8, 0xC6A9, 0xB418, 0xC9C0] @ '' '' @ utf8 [0xC54A, 0xC740] @ '' '' @ utf8
        [0xB3C4, 0xBA54, 0xC778, 0xC5D0, 0xC11C, 0xC758] @ '' '' @ utf8 [0xC694, 0xCCAD,
        0xC785, 0xB2C8, 0xB2E4] @ ''.''\<rparr>"

definition ErrApiUsageNotFound :: proxy_error where
  "ErrApiUsageNotFound = \<lparr>pe_Code = ''API_USAGE_NOT_FOUND'', pe_StatusCode = 404,
     pe_Message = ''API '' @ utf8 [0xC0AC, 0xC6A9, 0xC744] @ '' '' @ utf8 [0xCC3E, 0xC744] @ '' '' @
        utf8 [0xC218] @ '' '' @ utf8 [0xC5C6, 0xC2B5, 0xB2C8, 0xB2E4] @ ''.''\<rparr>"

definition ErrTooManyRequests :: proxy_error where
  "ErrTooManyRequests = \<lparr>pe_Code = ''TOO_MANY_REQUESTS'', pe_StatusCode = 429,
     pe_Message = utf8 [0xC694, 0xCCAD, 0xC774] @ '' '' @ utf8 [0xB108, 0xBB34] @ '' '' @ utf8 [0xB9CE,
        0xC2B5, 0xB2C8, 0xB2E4] @ ''. '' @ utf8 [0xC7A0, 0xC2DC] @ '' '' @ utf8 [0xD6C4] @
        '' '' @ utf8 [0xB2E4, 0xC2DC] @ '' '' @ utf8 [0xC2DC, 0xB3C4, 0xD574, 0xC8FC, 0xC138,
        0xC694] @ ''.''\<rparr>"

definition ErrInvalidDomainURL :: proxy_error where
  "ErrInvalidDomainURL = \<lparr>pe_Code = ''INVALID_DOMAIN_URL'', pe_StatusCode = 400,
     pe_Message = utf8 [0xC720, 0xD6A8, 0xD558, 0xC9C0] @ '' '' @ utf8 [0xC54A, 0xC740] @ '' '' @ utf8
        [0xB3C4, 0xBA54, 0xC778] @ '' URL'' @ utf8 [0xC785, 0xB2C8, 0xB2E4] @ ''. https:// ''
        @ utf8 [0xB85C] @ '' '' @ utf8 [0xC2DC, 0xC791, 0xD558, 0xB294] @ '' '' @ utf8
        [0xACF5, 0xAC1C] @ '' '' @ utf8 [0xB3C4, 0xBA54, 0xC778, 0xB9CC] @ '' '' @ utf8
        [0xD5C8, 0xC6A9, 0xB429, 0xB2C8, 0xB2E4] @ ''.''\<rparr>"

definition ErrBlockedInternalDomain :: proxy_error where
  "ErrBlockedInternalDomain = \<lparr>pe_Code = ''BLOCKED_INTERNAL_DOMAIN'', pe_StatusCode = 400,
     pe_Message = utf8 [0xB0B4, 0xBD80] @ '' '' @ utf8 [0xB124, 0xD2B8, 0xC6CC, 0xD06C] @ '' '' @ utf8
        [0xC8FC, 0xC18C, 0xB85C, 0xC758] @ '' '' @ utf8 [0xC694, 0xCCAD, 0xC740] @ '' '' @
        utf8 [0xD5C8, 0xC6A9, 0xB418, 0xC9C0] @ '' '' @ utf8 [0xC54A, 0xC2B5, 0xB2C8, 0xB2E4]
        @ ''.''\<rparr>"

definition ErrBlockedContentType :: proxy_error where
  "ErrBlockedContentType = \<lparr>pe_Code = ''BLOCKED_CONTENT_TYPE'', pe_StatusCode = 502,
     pe_Message = utf8 [0xD5C8, 0xC6A9, 0xB418, 0xC9C0] @ '' '' @ utf8 [0xC54A, 0xB294] @
        '' Content-Type'' @ utf8 [0xC758] @ '' '' @ utf8 [0xC751, 0xB2F5, 0xC785, 0xB2C8,
        0xB2E4] @ ''.''\<rparr>"

definition ErrUnsupportedBasePath :: proxy_error where
  "ErrUnsupportedBasePath = \<lparr>pe_Code = ''UNSUPPORTED_PROXY_BASE_PATH'', pe_StatusCode = 400,
     pe_Message = utf8 [0xC9C0, 0xC6D0, 0xD558, 0xC9C0] @ '' '' @ utf8 [0xC54A, 0xB294] @ '' '' @ utf8
        [0xD504, 0xB85D, 0xC2DC] @ '' '' @ utf8 [0xACBD, 0xB85C, 0xC785, 0xB2C8, 0xB2E4] @
        ''.''\<rparr>"

definition sentinel_errors :: "proxy_error list" where
  "sentinel_errors =
     [ErrApiTokenNotFound, ErrApiTokenBlocked, ErrInvalidSecretKey, ErrUnauthorizedDomain,
      ErrApiUsageNotFound, ErrTooManyRequests, ErrInvalidDomainURL, ErrBlockedInternalDomain,
      ErrBlockedContentType, ErrUnsupportedBasePath]"

lemmas sentinel_defs =
  ErrApiTokenNotFound_def ErrApiTokenBlocked_def ErrInvalidSecretKey_def ErrUnauthorizedDomain_def
  ErrApiUsageNotFound_def ErrTooManyRequests_def ErrInvalidDomainURL_def
  ErrBlockedInternalDomain_def ErrBlockedContentType_def ErrUnsupportedBasePath_def

subsection \<open>Inspecting an error\<close>

text \<open>
  The \<open>Error\<close> method of every kind of error, the name \<open>%T\<close> prints for its dynamic type, and
  \<open>errors.As\<close> and \<open>errors.Is\<close>, which walk along \<open>Unwrap\<close>. \<open>errors.As\<close> asks for the
  exact pointer type: an \<open>*ExternalAPIError\<close> embeds a \<open>ProxyError\<close> but is none, and the
  struct has no \<open>Unwrap\<close> method.
\<close>

fun error_text :: "go_error \<Rightarrow> gostring" where
  "error_text (ProxyErr e) = ProxyError_Error e"
| "error_text (ExternalErr e) = ProxyError_Error (ee_ProxyError e)"
| "error_text RecordNotFound = ''record not found''"
| "error_text RedisNil = ''redis: nil''"
| "error_text (OpaqueErr ty msg) = msg"
| "error_text (WrapErr ty msg e) = msg"

fun error_type_name :: "go_error \<Rightarrow> gostring" where
  "error_type_name (ProxyErr e) = ''*apperrors.ProxyError''"
| "error_type_name (ExternalErr e) = ''*apperrors.ExternalAPIError''"
| "error_type_name RecordNotFound = ''*errors.errorString''"
| "error_type_name RedisNil = ''proto.RedisError''"
| "error_type_name (OpaqueErr ty msg) = ty"
| "error_type_name (WrapErr ty msg e) = ty"

fun as_ProxyError :: "go_error \<Rightarrow> proxy_error option" where
  "as_ProxyError (ProxyErr e) = Some e"
| "as_ProxyError (WrapErr ty msg e) = as_ProxyError e"
| "as_ProxyError e = None"

fun as_ExternalAPIError :: "go_error \<Rightarrow> external_api_error option" where
  "as_ExternalAPIError (ExternalErr e) = Some e"
| "as_ExternalAPIError (WrapErr ty msg e) = as_ExternalAPIError e"
| "as_ExternalAPIError e = None"

fun is_RecordNotFound :: "go_error \<Rightarrow> bool" where
  "is_RecordNotFound RecordNotFound = True"
| "is_RecordNotFound (WrapErr ty msg e) = is_RecordNotFound e"
| "is_RecordNotFound e = False"

lemma as_ProxyError_External [simp]: "as_ProxyError (ExternalErr e) = None"
  by simp

text \<open>The codes of the sentinels are pairwise different, so a code identifies its error.\<close>

lemma sentinel_codes_distinct: "distinct (map pe_Code sentinel_errors)"
  by (simp add: sentinel_errors_def sentinel_defs)

lemma sentinel_status_range:
  "e \<in> set sentinel_errors \<Longrightarrow> 400 \<le> pe_StatusCode e \<and> pe_StatusCode e < 600"
  by (auto simp: sentinel_errors_def sentinel_defs)

lemma sentinel_status [simp]:
  "pe_StatusCode ErrApiTokenNotFound = 404"
  "pe_StatusCode ErrApiTokenBlocked = 403"
  "pe_StatusCode ErrInvalidSecretKey = 401"
  "pe_StatusCode ErrUnauthorizedDomain = 403"
  "pe_StatusCode ErrApiUsageNotFound = 404"
  "pe_StatusCode ErrTooManyRequests = 429"
  "pe_StatusCode ErrInvalidDomainURL = 400"
  "pe_StatusCode ErrBlockedInternalDomain = 400"
  "pe_StatusCode ErrBlockedContentType = 502"
  "pe_StatusCode ErrUnsupportedBasePath = 400"
  by (simp_all add: sentinel_defs)

lemma external_status [simp]:
  "pe_StatusCode (ee_ProxyError (NewExternalAPIError s b)) = 502"
  "ee_UpstreamStatusCode (NewExternalAPIError s b) = s"
  "ee_UpstreamBody (NewExternalAPIError s b) = b"
  by (simp_all add: NewExternalAPIError_def)

text \<open>Two different sentinels have different codes, hence are different errors.\<close>

lemma sentinel_neq [simp]:
  "ErrInvalidDomainURL \<noteq> ErrBlockedInternalDomain"
  "ErrBlockedInternalDomain \<noteq> ErrInvalidDomainURL"
  "ErrApiTokenNotFound \<noteq> ErrApiTokenBlocked"
  "ErrApiTokenBlocked \<noteq> ErrApiTokenNotFound"
  by (simp_all add: sentinel_defs)

end
