(* ===== verification/ApiToken.thy ===== *)
theory ApiToken
  imports AppErrors
begin

text \<open>
  \<open>internal/domain/api/model\<close>: the API token and the domains registered for it, with the access
  checks the token carries and its state machine NORMAL, WARNING, BLOCKED. The state is a Go
  string type, so a token read from the database may hold any string; the three constants and the
  empty string are the ones the code knows. \<open>bcrypt.CompareHashAndPassword\<close> (package
  \<open>golang.org/x/crypto\<close>) is the parameter \<open>bcrypt\<close>, true when the comparison returns no error.
\<close>

type_synonym ApiTokenState = gostring

definition StateNormal :: ApiTokenState where
  "StateNormal = ''NORMAL''"

definition StateWarning :: ApiTokenState where
  "StateWarning = ''WARNING''"

definition StateBlocked :: ApiTokenState where
  "StateBlocked = ''BLOCKED''"

record api_token =
  ApiTokenID :: int
  UserID :: int
  ApiTokenName :: gostring
  ApiTokenUUID :: gostring
  SecretKey :: gostring
  State :: ApiTokenState

record token_domain =
  TokenDomainID :: int
  td_ApiTokenID :: int
  Origin :: gostring

record api_usage =
  au_ApiTokenID :: int
  ApiID :: gostring
  ApiUseReasonID :: gostring
  Name :: gostring
  Endpoint :: gostring
  Domain :: gostring
  Method :: gostring

type_synonym bcrypt_compare = "bytes \<Rightarrow> bytes \<Rightarrow> bool"

subsection \<open>Origins\<close>

definition normalize :: "unicode_tables \<Rightarrow> gostring \<Rightarrow> gostring" where
  "normalize U origin = TrimRightByte (ToLower U (TrimSpace origin)) CHR ''/''"

definition MatchesOrigin :: "unicode_tables \<Rightarrow> token_domain \<Rightarrow> gostring \<Rightarrow> bool" where
  "MatchesOrigin U d requestOrigin \<longleftrightarrow> normalize U (Origin d) = normalize U requestOrigin"

subsection \<open>Access checks\<close>

definition ValidateNotBlocked :: "api_token \<Rightarrow> unit result" where
  "ValidateNotBlocked t =
     (if State t = StateBlocked then Err (ProxyErr ErrApiTokenBlocked) else Ok ())"

definition ValidateServerAccess :: "bcrypt_compare \<Rightarrow> api_token \<Rightarrow> gostring \<Rightarrow> unit result" where
  "ValidateServerAccess bcrypt t plainSecretKey =
     (if plainSecretKey = [] then Err (ProxyErr ErrInvalidSecretKey)
      else if \<not> bcrypt (SecretKey t) plainSecretKey then Err (ProxyErr ErrInvalidSecretKey)
      else Ok ())"

fun match_any_domain :: "unicode_tables \<Rightarrow> gostring \<Rightarrow> token_domain list \<Rightarrow> unit result" where
  "match_any_domain U requestOrigin [] = Err (ProxyErr ErrUnauthorizedDomain)"
| "match_any_domain U requestOrigin (d # ds) =
     (if MatchesOrigin U d requestOrigin then Ok () else match_any_domain U requestOrigin ds)"

definition ValidateBrowserAccess ::
  "unicode_tables \<Rightarrow> api_token \<Rightarrow> gostring \<Rightarrow> token_domain list \<Rightarrow> unit result" where
  "ValidateBrowserAccess U t requestOrigin domains =
     (if domains = [] \<or> requestOrigin = [] then Err (ProxyErr ErrUnauthorizedDomain)
      else match_any_domain U requestOrigin domains)"

subsection \<open>The state machine\<close>

text \<open>The method updates its receiver: the new token is returned with the new state.\<close>

definition TransitionToNextState :: "api_token \<Rightarrow> api_token \<times> ApiTokenState" where
  "TransitionToNextState t =
     (if State t = StateNormal \<or> State t = [] then (t\<lparr>State := StateWarning\<rparr>, StateWarning)
      else if State t = StateWarning then (t\<lparr>State := StateBlocked\<rparr>, StateBlocked)
      else (t, []))"

lemmas state_defs = StateNormal_def StateWarning_def StateBlocked_def

lemma state_neq [simp]:
  "StateNormal \<noteq> StateWarning" "StateWarning \<noteq> StateNormal"
  "StateNormal \<noteq> StateBlocked" "StateBlocked \<noteq> StateNormal"
  "StateWarning \<noteq> StateBlocked" "StateBlocked \<noteq> StateWarning"
  "StateNormal \<noteq> []" "StateWarning \<noteq> []" "StateBlocked \<noteq> []"
  by (simp_all add: state_defs)

lemma transition_simps [simp]:
  "State t = StateNormal \<Longrightarrow> TransitionToNextState t = (t\<lparr>State := StateWarning\<rparr>, StateWarning)"
  "State t = [] \<Longrightarrow> TransitionToNextState t = (t\<lparr>State := StateWarning\<rparr>, StateWarning)"
  "State t = StateWarning \<Longrightarrow> TransitionToNextState t = (t\<lparr>State := StateBlocked\<rparr>, StateBlocked)"
  "State t = StateBlocked \<Longrightarrow> TransitionToNextState t = (t, [])"
  by (simp_all add: TransitionToNextState_def)

text \<open>The rank of a state in the order of escalation.\<close>

definition state_rank :: "ApiTokenState \<Rightarrow> nat option" where
  "state_rank s =
     (if s = [] \<or> s = StateNormal then Some 0 else if s = StateWarning then Some 1
      else if s = StateBlocked then Some 2 else None)"

lemma transition_rank:
  "state_rank (State (fst (TransitionToNextState t))) =
     map_option (\<lambda>n. min 2 (n + 1)) (state_rank (State t))"
  by (auto simp: TransitionToNextState_def state_rank_def)

lemma transition_iter_rank:
  "state_rank (State (((\<lambda>t. fst (TransitionToNextState t)) ^^ n) t)) =
     map_option (\<lambda>k. min 2 (k + n)) (state_rank (State t))"
proof (induction n)
  case 0
  then show ?case by (auto simp: state_rank_def)
next
  case (Suc n)
  then show ?case by (cases "state_rank (State t)") (auto simp: transition_rank)
qed

lemma rank_blocked: "state_rank s = Some 2 \<longleftrightarrow> s = StateBlocked"
  by (auto simp: state_rank_def)

lemma transition_frame:
  "t' = fst (TransitionToNextState t) \<Longrightarrow> t'\<lparr>State := State t\<rparr> = t"
  by (simp add: TransitionToNextState_def)

lemma match_any_domain_Ok:
  "match_any_domain U r ds = Ok () \<longleftrightarrow> (\<exists>d \<in> set ds. MatchesOrigin U d r)"
  by (induction ds) auto

lemma match_any_domain_Err:
  "match_any_domain U r ds = Err e \<longleftrightarrow>
     e = ProxyErr ErrUnauthorizedDomain \<and> (\<forall>d \<in> set ds. \<not> MatchesOrigin U d r)"
  by (induction ds) auto

subsection \<open>Origins without white space\<close>

lemma runes_of_ascii_all:
  "list_all is_ascii s \<Longrightarrow> runes_of s = map (\<lambda>c. (Some (byte c), [c])) s"
  by (induction s) (simp_all add: runes_of_ascii)

lemma TrimSpace_ascii:
  assumes "list_all is_ascii s"
  shows "TrimSpace s =
    rev (dropWhile (\<lambda>c. IsSpace (byte c)) (rev (dropWhile (\<lambda>c. IsSpace (byte c)) s)))"
  using assms
  by (simp add: TrimSpace_def runes_of_ascii_all dropWhile_map rev_map comp_def space_piece_def)

lemma dropWhile_id: "list_all (\<lambda>x. \<not> P x) s \<Longrightarrow> dropWhile P s = s"
  by (cases s) auto

lemma TrimSpace_no_space:
  "list_all is_ascii s \<Longrightarrow> list_all (\<lambda>c. \<not> IsSpace (byte c)) s \<Longrightarrow> TrimSpace s = s"
  by (simp add: TrimSpace_ascii dropWhile_id)

lemma TrimRightByte_replicate [simp]:
  "TrimRightByte (s @ replicate n c) c = TrimRightByte s c"
  by (simp add: TrimRightByte_def dropWhile_append)

text \<open>
  The origin of a browser, written in any mixture of capital letters and with any number of
  slashes at its end, has the same normal form.
\<close>

lemma normalize_ascii:
  assumes "list_all is_ascii s" "list_all (\<lambda>c. \<not> IsSpace (byte c)) s"
  shows "normalize U s = TrimRightByte (map lower_byte s) CHR ''/''"
  using assms by (simp add: normalize_def TrimSpace_no_space ToLower_ascii)

subsection \<open>Properties\<close>

text \<open>The token state machine escalates one step at a time and stops at BLOCKED: after \<open>n\<close>
  transitions a token that was unset or NORMAL is NORMAL (or unset), WARNING or BLOCKED as \<open>n\<close> is
  0, 1 or more, so two violations block it and no transition ever leads back; and every
  transition changes the state field only.\<close>

theorem transitions_escalate_to_blocked:
  assumes "State t = [] \<or> State t = StateNormal"
  shows "State (((\<lambda>t. fst (TransitionToNextState t)) ^^ n) t) =
      (if n = 0 then State t else if n = 1 then StateWarning else StateBlocked)
    \<and> (((\<lambda>t. fst (TransitionToNextState t)) ^^ n) t)\<lparr>State := State t\<rparr> = t"
proof -
  let ?T = "\<lambda>t. fst (TransitionToNextState t)"
  have "(?T ^^ n) t = (if n = 0 then t else if n = 1 then t\<lparr>State := StateWarning\<rparr>
    else t\<lparr>State := StateBlocked\<rparr>)"
  proof (induction n)
    case 0
    then show ?case by simp
  next
    case (Suc n)
    then show ?case using assms by (cases n) (auto simp: numeral_2_eq_2)
  qed
  then show ?thesis by simp
qed

theorem transitions_escalate_to_blocked_witness:
  "State (((\<lambda>t. fst (TransitionToNextState t)) ^^ 2)
     \<lparr>ApiTokenID = 7, UserID = 1, ApiTokenName = ''k'', ApiTokenUUID = ''u'', SecretKey = [],
      State = StateNormal\<rparr>) = StateBlocked"
  using transitions_escalate_to_blocked [of "\<lparr>ApiTokenID = 7, UserID = 1, ApiTokenName = ''k'',
    ApiTokenUUID = ''u'', SecretKey = [], State = StateNormal\<rparr>" 2]
  by simp

text \<open>A transition reports the empty state exactly when it left the token as it was, and
  otherwise reports the state the token now has; a token in a state the code does not know
  (neither unset nor one of the three constants) is never moved, hence never blocked.\<close>

theorem transition_result:
  "(snd (TransitionToNextState t) = [] \<longleftrightarrow> fst (TransitionToNextState t) = t)
   \<and> (snd (TransitionToNextState t) \<noteq> [] \<longrightarrow>
        State (fst (TransitionToNextState t)) = snd (TransitionToNextState t))
   \<and> (state_rank (State t) = None \<longrightarrow>
        ((\<lambda>t. fst (TransitionToNextState t)) ^^ n) t = t)"
proof -
  have "t\<lparr>State := s\<rparr> = t \<longleftrightarrow> s = State t" for s
    by (cases t) auto
  then have "snd (TransitionToNextState t) = [] \<longleftrightarrow> fst (TransitionToNextState t) = t"
    by (auto simp: TransitionToNextState_def)
  moreover have "state_rank (State t) = None \<Longrightarrow> ((\<lambda>t. fst (TransitionToNextState t)) ^^ n) t = t"
    by (induction n) (auto simp: TransitionToNextState_def state_rank_def split: if_splits)
  moreover have "snd (TransitionToNextState t) \<noteq> [] \<Longrightarrow>
      State (fst (TransitionToNextState t)) = snd (TransitionToNextState t)"
    by (auto simp: TransitionToNextState_def split: if_splits)
  ultimately show ?thesis by blast
qed

theorem transition_result_witness:
  "fst (TransitionToNextState
     \<lparr>ApiTokenID = 7, UserID = 1, ApiTokenName = ''k'', ApiTokenUUID = ''u'', SecretKey = [],
      State = StateNormal\<rparr>) \<noteq>
     \<lparr>ApiTokenID = 7, UserID = 1, ApiTokenName = ''k'', ApiTokenUUID = ''u'', SecretKey = [],
      State = StateNormal\<rparr>"
  using transition_result [of "\<lparr>ApiTokenID = 7, UserID = 1, ApiTokenName = ''k'',
    ApiTokenUUID = ''u'', SecretKey = [], State = StateNormal\<rparr>" 0]
  by simp

text \<open>The browser check accepts a request exactly when it has an \<open>Origin\<close> header and one of the
  token's registered domains has the same normal form; every refusal is the 403 error
  UNAUTHORIZED_DOMAIN.\<close>

theorem browser_access_iff:
  "(ValidateBrowserAccess U t origin ds = Ok () \<longleftrightarrow>
      origin \<noteq> [] \<and> (\<exists>d \<in> set ds. normalize U (Origin d) = normalize U origin))
   \<and> (ValidateBrowserAccess U t origin ds = Ok ()
      \<or> ValidateBrowserAccess U t origin ds = Err (ProxyErr ErrUnauthorizedDomain))"
proof (cases "ValidateBrowserAccess U t origin ds")
  case (Inl e)
  then show ?thesis
    by (auto simp: ValidateBrowserAccess_def match_any_domain_Err MatchesOrigin_def
        split: if_splits)
next
  case (Inr u)
  then show ?thesis
    by (auto simp: ValidateBrowserAccess_def match_any_domain_Ok MatchesOrigin_def split: if_splits)
qed

text \<open>For an origin made of ASCII characters without white space, neither the letter case nor
  the slashes at the end matter: the comparison of the registered domain with the origin gives the
  same answer for the origin in other letter case and with any number of slashes appended.\<close>

theorem matches_origin_case_and_slash:
  assumes "list_all is_ascii origin" "list_all is_ascii origin'"
    and "list_all (\<lambda>c. \<not> IsSpace (byte c)) origin" "list_all (\<lambda>c. \<not> IsSpace (byte c)) origin'"
    and "map lower_byte origin' = map lower_byte origin"
  shows "MatchesOrigin U d (origin' @ replicate n CHR ''/'') = MatchesOrigin U d origin"
proof -
  have slash: "is_ascii CHR ''/''" "\<not> IsSpace (byte CHR ''/'')" "lower_byte CHR ''/'' = CHR ''/''"
    by (simp_all add: is_ascii_def IsSpace_def lower_byte_def byte_def)
  have "normalize U (origin' @ replicate n CHR ''/'') = TrimRightByte (map lower_byte origin') CHR ''/''"
    using assms slash by (subst normalize_ascii) (auto simp: list_all_iff)
  also have "\<dots> = normalize U origin"
    using assms by (simp add: normalize_ascii)
  finally show ?thesis by (simp add: MatchesOrigin_def)
qed

theorem matches_origin_case_and_slash_witness:
  "MatchesOrigin U \<lparr>TokenDomainID = 1, td_ApiTokenID = 7, Origin = ''https://a.kr''\<rparr>
     (''HTTPS://A.kr'' @ replicate 2 CHR ''/'')"
proof -
  let ?d = "\<lparr>TokenDomainID = 1, td_ApiTokenID = 7, Origin = ''https://a.kr''\<rparr>"
  have "MatchesOrigin U ?d (''HTTPS://A.kr'' @ replicate 2 CHR ''/'') = MatchesOrigin U ?d ''https://a.kr''"
    by (rule matches_origin_case_and_slash)
      (simp_all add: is_ascii_def IsSpace_def lower_byte_def byte_def char_of_eq_iff)
  then show ?thesis by (simp add: MatchesOrigin_def)
qed

text \<open>A server request is admitted exactly with a nonempty secret that bcrypt accepts against the
  token's stored hash, and every refusal is the 401 error INVALID_SECRET_KEY: an empty secret is
  refused before bcrypt is asked, whatever the stored hash is.\<close>

theorem server_access_iff:
  "(ValidateServerAccess bcrypt t secret = Ok () \<longleftrightarrow> secret \<noteq> [] \<and> bcrypt (SecretKey t) secret)
   \<and> (ValidateServerAccess bcrypt t secret = Ok ()
      \<or> ValidateServerAccess bcrypt t secret = Err (ProxyErr ErrInvalidSecretKey))
   \<and> ValidateServerAccess bcrypt t [] = Err (ProxyErr ErrInvalidSecretKey)"
  by (auto simp: ValidateServerAccess_def)

end
