(* ===== verification/External.thy ===== *)
theory External
  imports AppErrors
begin

text \<open>
  What the program calls but does not contain: the in-memory cache \<open>go-cache\<close>, the Redis client
  and the wall clock, as records of operations over a state \<open>'e\<close> of everything outside the program
  (stored data with their expiry times, other processes, time). The definitions take them as
  arguments. What a property relies on is stated as a predicate on them; the tables at the end are
  concrete instances, in which nothing expires and no call fails.
\<close>

type_synonym ('e, 'a) action = "'e \<Rightarrow> 'a \<times> 'e"

record ('e, 'v) go_cache =
  gc_Get :: "gostring \<Rightarrow> 'e \<Rightarrow> 'v option"
  gc_Set :: "gostring \<Rightarrow> 'v \<Rightarrow> 'e \<Rightarrow> 'e"
  gc_Delete :: "gostring \<Rightarrow> 'e \<Rightarrow> 'e"

text \<open>\<open>rd_Get\<close> gives \<open>RedisNil\<close> for a missing key; \<open>rd_IncrExpire\<close> is the pipeline of both commands.\<close>

record 'e redis_client =
  rd_Get :: "gostring \<Rightarrow> ('e, bytes result) action"
  rd_Set :: "gostring \<Rightarrow> bytes \<Rightarrow> int \<Rightarrow> ('e, unit result) action"
  rd_Del :: "gostring \<Rightarrow> ('e, unit result) action"
  rd_Incr :: "gostring \<Rightarrow> ('e, int64 result) action"
  rd_Decr :: "gostring \<Rightarrow> ('e, int64 result) action"
  rd_Expire :: "gostring \<Rightarrow> int \<Rightarrow> ('e, unit result) action"
  rd_IncrExpire :: "gostring \<Rightarrow> int \<Rightarrow> ('e, unit result) action"

text \<open>
  The goroutines the request path starts and does not wait for. An operation that starts some
  returns them in the order of the \<open>go\<close> statements; each runs at some later time.
\<close>

datatype task =
    RedisSet gostring bytes int
  | TrackRequest int
  | ReleaseRequest int
  | CountFailure gostring

text \<open>
  A JSON codec: \<open>json.Marshal\<close>, and \<open>json.Unmarshal\<close> into a destination that already has a value
  and keeps what was decoded before an error.
\<close>

record 'v codec =
  cd_Marshal :: "'v \<Rightarrow> bytes result"
  cd_Unmarshal :: "bytes \<Rightarrow> 'v \<Rightarrow> unit result \<times> 'v"

text \<open>Values that survive the codec whatever the destination held (strings that are valid UTF-8).\<close>

definition codec_law :: "'v codec \<Rightarrow> ('v \<Rightarrow> bool) \<Rightarrow> bool" where
  "codec_law cd clean \<longleftrightarrow>
     (\<forall>v. clean v \<longrightarrow> (\<exists>b. cd_Marshal cd v = Ok b \<and> (\<forall>d. cd_Unmarshal cd b d = (Ok (), v))))"

text \<open>Durations are nanoseconds.\<close>

definition time_Second :: int where
  "time_Second = 1000000000"

definition time_Minute :: int where
  "time_Minute = 60 * time_Second"

definition time_Hour :: int where
  "time_Hour = 60 * time_Minute"

subsection \<open>Numbers in replies\<close>

text \<open>\<open>strconv.ParseInt\<close> to base 10 with 64 bits: a sign, at least one digit, a value in range.\<close>

definition ParseInt64 :: "gostring \<Rightarrow> int result" where
  "ParseInt64 s =
     (let neg = HasPrefix s ''-'';
          digits = (if HasPrefix s ''-'' \<or> HasPrefix s ''+'' then drop 1 s else s);
          v = (if neg then - int (read_nat digits) else int (read_nat digits)) in
      if digits = [] \<or> \<not> list_all is_digit digits \<or> v < - (2 ^ 63) \<or> 2 ^ 63 \<le> v
      then Err (OpaqueErr ''*strconv.NumError'' (''strconv.ParseInt: parsing '' @ s))
      else Ok v)"

text \<open>\<open>Get(key).Int64()\<close>, and \<open>Get(key).Int()\<close> on a 64-bit platform.\<close>

definition redis_GetInt :: "'e redis_client \<Rightarrow> gostring \<Rightarrow> ('e, int result) action" where
  "redis_GetInt rc key e =
     (case rd_Get rc key e of (r, e') \<Rightarrow> (andThen r ParseInt64, e'))"

lemma ParseInt64_show:
  assumes "- (2 ^ 63) \<le> i" "i < 2 ^ 63"
  shows "ParseInt64 (show_int i) = Ok i"
proof (cases "i < 0")
  case True
  have "list_all is_digit (show_nat (nat (- i)))" by (rule show_nat_digits)
  then show ?thesis
    using assms True by (simp add: ParseInt64_def show_int_def HasPrefix_def Let_def)
next
  case False
  have d: "list_all is_digit (show_nat (nat i))" by (rule show_nat_digits)
  then have "\<not> HasPrefix (show_nat (nat i)) ''-''" "\<not> HasPrefix (show_nat (nat i)) ''+''"
    by (cases "show_nat (nat i)"; auto simp: HasPrefix_def is_digit_def byte_def)+
  then show ?thesis using assms False d by (simp add: ParseInt64_def show_int_def Let_def)
qed

subsection \<open>Documented behaviour\<close>

text \<open>
  \<open>go-cache\<close>: after a \<open>Set\<close> the key gives the value, other keys give what they gave; after a
  \<open>Delete\<close> the key gives nothing. (An entry disappears later, when its time is over: that is a
  change of the outside state between two calls.)
\<close>

definition cache_laws :: "('e, 'v) go_cache \<Rightarrow> bool" where
  "cache_laws C \<longleftrightarrow>
     (\<forall>k v e. gc_Get C k (gc_Set C k v e) = Some v)
     \<and> (\<forall>k k' v e. k' \<noteq> k \<longrightarrow> gc_Get C k' (gc_Set C k v e) = gc_Get C k' e)
     \<and> (\<forall>k e. gc_Get C k (gc_Delete C k e) = None)
     \<and> (\<forall>k k' e. k' \<noteq> k \<longrightarrow> gc_Get C k' (gc_Delete C k e) = gc_Get C k' e)"

lemma cache_lawsD:
  assumes "cache_laws C"
  shows "gc_Get C k (gc_Set C k v e) = Some v"
    "k' \<noteq> k \<Longrightarrow> gc_Get C k' (gc_Set C k v e) = gc_Get C k' e"
    "gc_Get C k (gc_Delete C k e) = None"
    "k' \<noteq> k \<Longrightarrow> gc_Get C k' (gc_Delete C k e) = gc_Get C k' e"
  using assms by (auto simp: cache_laws_def)

subsection \<open>Tables\<close>

definition table_cache ::
  "('e \<Rightarrow> (gostring, 'v) gomap) \<Rightarrow> ((gostring, 'v) gomap \<Rightarrow> 'e \<Rightarrow> 'e) \<Rightarrow> ('e, 'v) go_cache" where
  "table_cache rd wr =
     \<lparr>gc_Get = (\<lambda>k e. map_of (rd e) k),
      gc_Set = (\<lambda>k v e. wr (AList.update k v (rd e)) e),
      gc_Delete = (\<lambda>k e. wr (filter (\<lambda>(k', v). k' \<noteq> k) (rd e)) e)\<rparr>"

lemma map_of_remove_key:
  "map_of (filter (\<lambda>(k', v). k' \<noteq> k) m) k'' = (if k'' = k then None else map_of m k'')"
  by (induction m) auto

lemma table_cache_laws: "(\<And>t e. rd (wr t e) = t) \<Longrightarrow> cache_laws (table_cache rd wr)"
  by (auto simp: cache_laws_def table_cache_def update_conv' map_of_remove_key)

definition redis_number :: "bytes option \<Rightarrow> int" where
  "redis_number v =
     (case v of None \<Rightarrow> 0 | Some b \<Rightarrow> (case ParseInt64 b of Ok i \<Rightarrow> i | Err _ \<Rightarrow> 0))"

definition table_add :: "('e \<Rightarrow> (gostring, bytes) gomap) \<Rightarrow> ((gostring, bytes) gomap \<Rightarrow> 'e \<Rightarrow> 'e)
    \<Rightarrow> int \<Rightarrow> gostring \<Rightarrow> ('e, int64 result) action" where
  "table_add rd wr d k e =
     (let n = redis_number (map_of (rd e) k) + d in
      (Ok (word_of_int n), wr (AList.update k (show_int n) (rd e)) e))"

definition table_redis ::
  "('e \<Rightarrow> (gostring, bytes) gomap) \<Rightarrow> ((gostring, bytes) gomap \<Rightarrow> 'e \<Rightarrow> 'e) \<Rightarrow> 'e redis_client" where
  "table_redis rd wr =
     \<lparr>rd_Get = (\<lambda>k e. (case map_of (rd e) k of None \<Rightarrow> Err RedisNil | Some v \<Rightarrow> Ok v, e)),
      rd_Set = (\<lambda>k v ttl e. (Ok (), wr (AList.update k v (rd e)) e)),
      rd_Del = (\<lambda>k e. (Ok (), wr (filter (\<lambda>(k', v). k' \<noteq> k) (rd e)) e)),
      rd_Incr = table_add rd wr 1,
      rd_Decr = table_add rd wr (- 1),
      rd_Expire = (\<lambda>k ttl e. (Ok (), e)),
      rd_IncrExpire = (\<lambda>k ttl e. (Ok (), snd (table_add rd wr 1 k e)))\<rparr>"

end
