(* ===== verification/Config.thy ===== *)
theory Config
  imports External
begin

text \<open>
  \<open>internal/config/config.go\<close>: the configuration structs, the defaults and \<open>Load\<close>. The library
  \<open>viper\<close> is a record of operations on a store \<open>'v\<close> of settings over the outside state \<open>'e\<close> (the
  files and environment variables). \<open>float64\<close> is modelled by the real numbers.
\<close>

subsection \<open>Structs\<close>

record log_config =
  Workers :: int

record server_config =
  Port :: gostring

record mysql_config =
  DSN :: gostring

record redis_config =
  Addr :: gostring
  Password :: gostring
  DB :: int
  PoolSize :: int

record mongo_config =
  URI :: gostring
  Database :: gostring

record cache_config =
  LocalTTL :: int
  RedisTTL :: int

record queue_config =
  MaxInflight :: int
  AcquireTimeout :: int
  BasePriority :: real
  PriorityIncrement :: real
  MaxPriority :: real

record rate_limit_config =
  ThresholdMultiplier :: int

record cors_config =
  AllowedOrigins :: "gostring list"

record config =
  Server :: server_config
  MySQL :: mysql_config
  Redis :: redis_config
  MongoDB :: mongo_config
  Cache :: cache_config
  Log :: log_config
  Queue :: queue_config
  RateLimit :: rate_limit_config
  CORS :: cors_config

subsection \<open>Viper\<close>

datatype setting = SString gostring | SDuration int | SInt int | SFloat real | SStrings "gostring list"

text \<open>What \<open>ReadInConfig\<close> may return: the file is missing, or something else is wrong.\<close>

datatype read_error = ConfigFileNotFound | OtherReadError gostring

record ('e, 'v) viper =
  vp_New :: 'v
  vp_SetConfigName :: "gostring \<Rightarrow> 'v \<Rightarrow> 'v"
  vp_SetConfigType :: "gostring \<Rightarrow> 'v \<Rightarrow> 'v"
  vp_AddConfigPath :: "gostring \<Rightarrow> 'v \<Rightarrow> 'v"
  vp_SetEnvPrefix :: "gostring \<Rightarrow> 'v \<Rightarrow> 'v"
  vp_SetEnvKeyReplacer :: "gostring \<Rightarrow> gostring \<Rightarrow> 'v \<Rightarrow> 'v"
  vp_AutomaticEnv :: "'v \<Rightarrow> 'v"
  vp_SetDefault :: "gostring \<Rightarrow> setting \<Rightarrow> 'v \<Rightarrow> 'v"
  vp_ReadInConfig :: "'e \<Rightarrow> 'v \<Rightarrow> read_error option \<times> 'v"
  vp_Unmarshal :: "'e \<Rightarrow> 'v \<Rightarrow> config result"

subsection \<open>Loading\<close>

definition setDefaults :: "('e, 'v) viper \<Rightarrow> 'v \<Rightarrow> 'v" where
  "setDefaults vp v0 =
     (let v1 = vp_SetDefault vp ''server.port'' (SString ''8080'') v0;
          v2 = vp_SetDefault vp ''cache.local_ttl'' (SDuration (5 * time_Minute)) v1;
          v3 = vp_SetDefault vp ''cache.redis_ttl'' (SDuration (10 * time_Minute)) v2;
          v4 = vp_SetDefault vp ''queue.max_inflight'' (SInt 80) v3;
          v5 = vp_SetDefault vp ''queue.acquire_timeout'' (SDuration time_Second) v4;
          v6 = vp_SetDefault vp ''queue.base_priority'' (SFloat 1) v5;
          v7 = vp_SetDefault vp ''queue.priority_increment'' (SFloat 0.2) v6;
          v8 = vp_SetDefault vp ''queue.max_priority'' (SFloat 3) v7;
          v9 = vp_SetDefault vp ''redis.pool_size'' (SInt 100) v8;
          v10 = vp_SetDefault vp ''log.workers'' (SInt 4) v9;
          v11 = vp_SetDefault vp ''rate_limit.threshold_multiplier'' (SInt 200) v10
      in vp_SetDefault vp ''cors.allowed_origins''
           (SStrings [''https://bssmdev.com'', ''https://dev.bssm-dev.com'', ''http://localhost'',
              ''https://localhost'']) v11)"

text \<open>\<open>Load\<close>: the left side of the sum is the message of a panic.\<close>

definition Load :: "('e, 'v) viper \<Rightarrow> 'e \<Rightarrow> gostring + config" where
  "Load vp env =
     (let v1 = vp_SetConfigType vp ''yaml'' (vp_SetConfigName vp ''config'' (vp_New vp));
          v2 = vp_AddConfigPath vp ''./config'' (vp_AddConfigPath vp ''.'' v1);
          v3 = vp_AutomaticEnv vp (vp_SetEnvKeyReplacer vp ''.'' ''_'' (vp_SetEnvPrefix vp ''PROXY'' v2));
          v4 = setDefaults vp v3;
          (err, v5) = vp_ReadInConfig vp env v4;
          unmarshal = (case vp_Unmarshal vp env v5 of
            Err e \<Rightarrow> Inl (''config unmarshal error: '' @ error_text e)
          | Ok cfg \<Rightarrow> Inr cfg)
      in (case err of
            Some (OtherReadError text) \<Rightarrow> Inl (''config load error: '' @ text)
          | Some ConfigFileNotFound \<Rightarrow> unmarshal
          | None \<Rightarrow> unmarshal))"

subsection \<open>The defaults\<close>

text \<open>
  A store of defaults alone, without file and environment: each key has the setting given last, and
  \<open>Unmarshal\<close> fills every field from its key and leaves the zero value where there is none.
\<close>

type_synonym default_store = "(gostring, setting) gomap"

definition str_of :: "default_store \<Rightarrow> gostring \<Rightarrow> gostring" where
  "str_of v k = (case map_of v k of Some (SString s) \<Rightarrow> s | _ \<Rightarrow> [])"

definition int_of :: "default_store \<Rightarrow> gostring \<Rightarrow> int" where
  "int_of v k = (case map_of v k of Some (SInt i) \<Rightarrow> i | Some (SDuration d) \<Rightarrow> d | _ \<Rightarrow> 0)"

definition float_of :: "default_store \<Rightarrow> gostring \<Rightarrow> real" where
  "float_of v k = (case map_of v k of Some (SFloat x) \<Rightarrow> x | _ \<Rightarrow> 0)"

definition strs_of :: "default_store \<Rightarrow> gostring \<Rightarrow> gostring list" where
  "strs_of v k = (case map_of v k of Some (SStrings ss) \<Rightarrow> ss | _ \<Rightarrow> [])"

definition store_config :: "default_store \<Rightarrow> config" where
  "store_config v =
     \<lparr>Server = \<lparr>Port = str_of v ''server.port''\<rparr>,
      MySQL = \<lparr>DSN = str_of v ''mysql.dsn''\<rparr>,
      Redis = \<lparr>Addr = str_of v ''redis.addr'', Password = str_of v ''redis.password'',
        DB = int_of v ''redis.db'', PoolSize = int_of v ''redis.pool_size''\<rparr>,
      MongoDB = \<lparr>URI = str_of v ''mongodb.uri'', Database = str_of v ''mongodb.database''\<rparr>,
      Cache = \<lparr>LocalTTL = int_of v ''cache.local_ttl'', RedisTTL = int_of v ''cache.redis_ttl''\<rparr>,
      Log = \<lparr>Workers = int_of v ''log.workers''\<rparr>,
      Queue = \<lparr>MaxInflight = int_of v ''queue.max_inflight'',
        AcquireTimeout = int_of v ''queue.acquire_timeout'',
        BasePriority = float_of v ''queue.base_priority'',
        PriorityIncrement = float_of v ''queue.priority_increment'',
        MaxPriority = float_of v ''queue.max_priority''\<rparr>,
      RateLimit = \<lparr>ThresholdMultiplier = int_of v ''rate_limit.threshold_multiplier''\<rparr>,
      CORS = \<lparr>AllowedOrigins = strs_of v ''cors.allowed_origins''\<rparr>\<rparr>"

definition default_viper :: "read_error option \<Rightarrow> (unit, default_store) viper" where
  "default_viper err =
     \<lparr>vp_New = [], vp_SetConfigName = (\<lambda>_ v. v), vp_SetConfigType = (\<lambda>_ v. v),
      vp_AddConfigPath = (\<lambda>_ v. v), vp_SetEnvPrefix = (\<lambda>_ v. v),
      vp_SetEnvKeyReplacer = (\<lambda>_ _ v. v), vp_AutomaticEnv = (\<lambda>v. v),
      vp_SetDefault = AList.update, vp_ReadInConfig = (\<lambda>_ v. (err, v)),
      vp_Unmarshal = (\<lambda>_ v. Ok (store_config v))\<rparr>"

definition default_config :: config where
  "default_config = store_config (setDefaults (default_viper None) [])"

lemma default_config_eq:
  "default_config =
     \<lparr>Server = \<lparr>Port = ''8080''\<rparr>, MySQL = \<lparr>DSN = []\<rparr>,
      Redis = \<lparr>Addr = [], Password = [], DB = 0, PoolSize = 100\<rparr>,
      MongoDB = \<lparr>URI = [], Database = []\<rparr>,
      Cache = \<lparr>LocalTTL = 300000000000, RedisTTL = 600000000000\<rparr>,
      Log = \<lparr>Workers = 4\<rparr>,
      Queue = \<lparr>MaxInflight = 80, AcquireTimeout = 1000000000, BasePriority = 1,
        PriorityIncrement = 0.2, MaxPriority = 3\<rparr>,
      RateLimit = \<lparr>ThresholdMultiplier = 200\<rparr>,
      CORS = \<lparr>AllowedOrigins = [''https://bssmdev.com'', ''https://dev.bssm-dev.com'',
        ''http://localhost'', ''https://localhost'']\<rparr>\<rparr>"
  by (simp add: default_config_def store_config_def setDefaults_def default_viper_def Let_def
      str_of_def int_of_def float_of_def strs_of_def time_Minute_def time_Second_def)

subsection \<open>Properties\<close>

text \<open>A missing configuration file is no error: \<open>Load\<close> then returns what the defaults and the
  environment give. Any other error of reading the file, and any error of decoding, is a panic
  with the text of that error, and nothing else is.\<close>

theorem load_outcome:
  assumes "v = setDefaults vp (vp_AutomaticEnv vp (vp_SetEnvKeyReplacer vp ''.'' ''_'' (vp_SetEnvPrefix vp ''PROXY''
      (vp_AddConfigPath vp ''./config'' (vp_AddConfigPath vp ''.''
        (vp_SetConfigType vp ''yaml'' (vp_SetConfigName vp ''config'' (vp_New vp))))))))"
    and "vp_ReadInConfig vp env v = (err, v')"
  shows "(\<forall>cfg. Load vp env = Inr cfg \<longleftrightarrow>
      err \<in> {None, Some ConfigFileNotFound} \<and> vp_Unmarshal vp env v' = Ok cfg)
    \<and> (\<forall>msg. Load vp env = Inl msg \<longleftrightarrow>
      (\<exists>text. err = Some (OtherReadError text) \<and> msg = ''config load error: '' @ text)
      \<or> (err \<in> {None, Some ConfigFileNotFound} \<and>
         (\<exists>e. vp_Unmarshal vp env v' = Err e \<and> msg = ''config unmarshal error: '' @ error_text e)))"
  using assms by (auto simp: Load_def Let_def split: option.splits read_error.splits sum.splits)

theorem load_outcome_witness:
  "Load (default_viper (Some ConfigFileNotFound)) () = Inr default_config
    \<and> Load (default_viper (Some (OtherReadError ''yaml''))) () = Inl ''config load error: yaml''"
  using load_outcome [OF refl, of "default_viper (Some ConfigFileNotFound)" "()"]
    load_outcome [OF refl, of "default_viper (Some (OtherReadError ''yaml''))" "()"]
  by (simp add: default_viper_def default_config_def setDefaults_def)

end
