(* ===== verification/GoNet.thy ===== *)
theory GoNet
  imports GoStrings
begin

unbundle bit_operations_syntax

text \<open>
  The parts of Go's packages \<open>net\<close> and \<open>net/netip\<close> (Go 1.23) the program relies on: parsing of IP
  addresses and CIDR blocks, membership in a block, the predicates on addresses, and
  \<open>SplitHostPort\<close>. An address is its list of bytes, 16 long after \<open>ParseIP\<close>; \<open>nil\<close> is \<open>None\<close>.
\<close>

type_synonym ip = "8 word list"

subsection \<open>Parsing addresses\<close>

definition digit_value :: "char \<Rightarrow> nat" where
  "digit_value c = byte c - 48"

text \<open>
  The loop of \<open>parseIPv4Fields\<close>, over the rest of the string, with the fs stored so far, the
  value and the number of digits of the current one. \<open>digLen\<close> is 0 exactly at the start and after a dot.
\<close>

fun v4_fields :: "gostring \<Rightarrow> nat \<Rightarrow> nat \<Rightarrow> 8 word list \<Rightarrow> 8 word list option" where
  "v4_fields [] digLen val fs =
     (if length fs < 3 then None else Some (fs @ [word_of_nat val]))"
| "v4_fields (c # cs) digLen val fs =
     (if is_digit c then
        if digLen = 1 \<and> val = 0 then None
        else let val' = val * 10 + digit_value c in
          if 255 < val' then None else v4_fields cs (digLen + 1) val' fs
      else if c = CHR ''.'' then
        if digLen = 0 \<or> cs = [] then None
        else if length fs = 3 then None
        else v4_fields cs 0 0 (fs @ [word_of_nat val])
      else None)"

definition parseIPv4 :: "gostring \<Rightarrow> 8 word list option" where
  "parseIPv4 s = v4_fields s 0 0 []"

definition is_hex :: "char \<Rightarrow> bool" where
  "is_hex c \<longleftrightarrow> is_digit c \<or> (0x61 \<le> byte c \<and> byte c \<le> 0x66) \<or> (0x41 \<le> byte c \<and> byte c \<le> 0x46)"

definition hex_value :: "char \<Rightarrow> nat" where
  "hex_value c =
     (if is_digit c then byte c - 48 else if 0x61 \<le> byte c then byte c - 0x61 + 10
      else byte c - 0x41 + 10)"

text \<open>
  One round of the loop of \<open>parseIPv6\<close>, over the bytes stored so far, the position of the ellipsis
  (if any) and the rest of the string: \<open>None\<close> on an error, otherwise these three afterwards and
  whether the loop goes on (false at a \<open>break\<close>).
\<close>

type_synonym v6_state = "8 word list \<times> nat option \<times> gostring"

definition v6_group :: "v6_state \<Rightarrow> (v6_state \<times> bool) option" where
  "v6_group st =
     (case st of (ip, ellipsis, s) \<Rightarrow>
        let digits = takeWhile is_hex s; rest = dropWhile is_hex s;
            acc = foldl (\<lambda>a c. push_bit 4 a + word_of_nat (hex_value c)) (0 :: 32 word) digits;
            ip' = ip @ [ucast (drop_bit 8 acc), ucast acc] in
        if 4 < length digits \<or> digits = [] then None
        else (case rest of
            [] \<Rightarrow> Some ((ip', ellipsis, []), False)
          | c # s1 \<Rightarrow>
              if c = CHR ''.'' then
                if (ellipsis = None \<and> length ip \<noteq> 12) \<or> 16 < length ip + 4 then None
                else map_option (\<lambda>v4. ((ip @ v4, ellipsis, []), False)) (parseIPv4 s)
              else if c \<noteq> CHR '':'' \<or> s1 = [] then None
              else if hd s1 = CHR '':'' then
                if ellipsis \<noteq> None then None
                else Some ((ip', Some (length ip'), tl s1), tl s1 \<noteq> [])
              else Some ((ip', ellipsis, s1), True)))"

lemma v6_group_more: "v6_group (ip, e, s) = Some ((ip', e', s'), True) \<Longrightarrow> length ip' = length ip + 2"
  by (auto simp: v6_group_def Let_def split: if_splits list.splits)

function v6_loop :: "v6_state \<Rightarrow> v6_state option" where
  "v6_loop st =
     (if 16 \<le> length (fst st) then Some st
      else (case v6_group st of
              None \<Rightarrow> None
            | Some (st', continue) \<Rightarrow> if continue then v6_loop st' else Some st'))"
  by pat_completeness auto
termination
proof (relation "measure (\<lambda>st. 16 - length (fst st))", goal_cases)
  case (2 st x st' continue)
  then have "length (fst st') = length (fst st) + 2"
    using v6_group_more by (metis (full_types) prod.collapse)
  then show ?case using 2 by simp
qed simp

declare v6_loop.simps [simp del]

definition parseIPv6_addr :: "gostring \<Rightarrow> 8 word list option" where
  "parseIPv6_addr s =
     (let ellipsis = (if HasPrefix s ''::'' then Some 0 else None);
          s1 = (if HasPrefix s ''::'' then drop 2 s else s) in
      if ellipsis \<noteq> None \<and> s1 = [] then Some (replicate 16 0)
      else
        (case v6_loop ([], ellipsis, s1) of
           None \<Rightarrow> None
         | Some (ip, e, s2) \<Rightarrow>
             if s2 \<noteq> [] then None
             else if length ip < 16 then
               (case e of
                  None \<Rightarrow> None
                | Some k \<Rightarrow> Some (take k ip @ replicate (16 - length ip) 0 @ drop k ip))
             else if e \<noteq> None then None
             else Some ip))"

text \<open>\<open>netip.ParseAddr\<close>: the address (4 or 16 bytes) and its zone.\<close>

definition ParseAddr :: "gostring \<Rightarrow> (8 word list \<times> gostring) option" where
  "ParseAddr s =
     (case dropWhile (\<lambda>c. c \<notin> set ''.:%'') s of
        [] \<Rightarrow> None
      | c # cs \<Rightarrow>
          if c = CHR ''.'' then map_option (\<lambda>ip. (ip, [])) (parseIPv4 s)
          else if c = CHR '':'' then
            (case dropWhile (\<lambda>c. c \<noteq> CHR ''%'') s of
               [] \<Rightarrow> map_option (\<lambda>ip. (ip, [])) (parseIPv6_addr s)
             | p # zone \<Rightarrow>
                 if zone = [] then None
                 else map_option (\<lambda>ip. (ip, zone)) (parseIPv6_addr (takeWhile (\<lambda>c. c \<noteq> CHR ''%'') s)))
          else None)"

definition v4InV6Prefix :: "8 word list" where
  "v4InV6Prefix = replicate 10 0 @ [0xFF, 0xFF]"

definition As16 :: "8 word list \<Rightarrow> ip" where
  "As16 a = (if length a = 4 then v4InV6Prefix @ a else a)"

definition ParseIP :: "gostring \<Rightarrow> ip option" where
  "ParseIP s =
     (case ParseAddr s of
        None \<Rightarrow> None
      | Some (a, zone) \<Rightarrow> if zone \<noteq> [] then None else Some (As16 a))"

subsection \<open>Predicates on addresses\<close>

definition To4 :: "ip \<Rightarrow> 8 word list option" where
  "To4 ip =
     (if length ip = 4 then Some ip
      else if length ip = 16 \<and> take 12 ip = v4InV6Prefix then Some (drop 12 ip)
      else None)"

definition IsLoopback :: "ip \<Rightarrow> bool" where
  "IsLoopback ip =
     (case To4 ip of Some a \<Rightarrow> a ! 0 = 127 | None \<Rightarrow> ip = replicate 15 0 @ [1])"

definition IsLinkLocalUnicast :: "ip \<Rightarrow> bool" where
  "IsLinkLocalUnicast ip =
     (case To4 ip of
        Some a \<Rightarrow> a ! 0 = 169 \<and> a ! 1 = 254
      | None \<Rightarrow> length ip = 16 \<and> ip ! 0 = 0xFE \<and> ip ! 1 AND 0xC0 = 0x80)"

definition IsLinkLocalMulticast :: "ip \<Rightarrow> bool" where
  "IsLinkLocalMulticast ip =
     (case To4 ip of
        Some a \<Rightarrow> a ! 0 = 224 \<and> a ! 1 = 0 \<and> a ! 2 = 0
      | None \<Rightarrow> length ip = 16 \<and> ip ! 0 = 0xFF \<and> ip ! 1 AND 0x0F = 0x02)"

subsection \<open>CIDR blocks\<close>

record ip_net =
  net_IP :: ip
  net_Mask :: "8 word list"

fun mask_bytes :: "nat \<Rightarrow> nat \<Rightarrow> 8 word list" where
  "mask_bytes 0 n = []"
| "mask_bytes (Suc l) n =
     (if 8 \<le> n then 0xFF # mask_bytes l (n - 8) else NOT (drop_bit n 0xFF) # mask_bytes l 0)"

definition CIDRMask :: "nat \<Rightarrow> nat \<Rightarrow> 8 word list" where
  "CIDRMask ones bits = mask_bytes (bits div 8) ones"

definition ip_Mask :: "ip \<Rightarrow> 8 word list \<Rightarrow> ip" where
  "ip_Mask ip mk =
     (let ip1 = (if length mk = 4 \<and> length ip = 16 \<and> take 12 ip = v4InV6Prefix then drop 12 ip else ip)
      in if length ip1 \<noteq> length mk then [] else map2 (AND) ip1 mk)"

definition ParseCIDR :: "gostring \<Rightarrow> ip_net option" where
  "ParseCIDR s =
     (case dropWhile (\<lambda>c. c \<noteq> CHR ''/'') s of
        [] \<Rightarrow> None
      | slash # bits \<Rightarrow>
          (case ParseAddr (takeWhile (\<lambda>c. c \<noteq> CHR ''/'') s) of
             None \<Rightarrow> None
           | Some (a, zone) \<Rightarrow>
               if zone \<noteq> [] \<or> bits = [] \<or> \<not> list_all is_digit bits \<or> 8 * length a < read_nat bits
               then None
               else (let m = CIDRMask (read_nat bits) (8 * length a)
                     in Some \<lparr>net_IP = ip_Mask (As16 a) m, net_Mask = m\<rparr>)))"

text \<open>
  \<open>networkNumberAndMask\<close> leaves the two fs of a network made by \<open>ParseCIDR\<close> as they are unless
  the network is an IPv4 one written with a 16 byte mask.
\<close>

definition networkNumberAndMask :: "ip_net \<Rightarrow> 8 word list \<times> 8 word list" where
  "networkNumberAndMask n =
     (let ip = (case To4 (net_IP n) of Some a \<Rightarrow> a | None \<Rightarrow> net_IP n); m = net_Mask n in
      if length ip = length m then (ip, m)
      else if length ip = 4 \<and> length m = 16 then (ip, drop 12 m)
      else ([], []))"

definition net_Contains :: "ip_net \<Rightarrow> ip \<Rightarrow> bool" where
  "net_Contains n ip =
     (case networkNumberAndMask n of
        (nn, m) \<Rightarrow>
          (let ip1 = (case To4 ip of Some a \<Rightarrow> a | None \<Rightarrow> ip) in
           length ip1 = length nn \<and> list_all (\<lambda>((a, k), b). a AND k = b AND k) (zip (zip nn m) ip1)))"

subsection \<open>Host and port\<close>

text \<open>The host \<open>SplitHostPort\<close> returns, empty when it also returns an error.\<close>

definition SplitHostPort_host :: "gostring \<Rightarrow> gostring" where
  "SplitHostPort_host hostport =
     (if CHR '':'' \<notin> set hostport then []
      else
        let port = rev (takeWhile (\<lambda>c. c \<noteq> CHR '':'') (rev hostport));
            i = length hostport - length port - 1 in
        if hd hostport = CHR ''['' then
          if CHR '']'' \<notin> set hostport then []
          else let end = length (takeWhile (\<lambda>c. c \<noteq> CHR '']'') hostport) in
            if end + 1 \<noteq> i then []
            else if CHR ''['' \<in> set (tl hostport) \<or> CHR '']'' \<in> set (drop (end + 1) hostport) then []
            else drop 1 (take end hostport)
        else let host = take i hostport in
          if CHR '':'' \<in> set host \<or> CHR ''['' \<in> set hostport \<or> CHR '']'' \<in> set hostport then []
          else host)"

subsection \<open>What the parsers return\<close>

lemma v4_fields_length: "v4_fields s d v fs = Some ip \<Longrightarrow> length fs \<le> 3 \<Longrightarrow> length ip = 4"
  by (induction s d v fs rule: v4_fields.induct) (auto simp: Let_def split: if_splits)

definition v6_ok :: "v6_state \<Rightarrow> bool" where
  "v6_ok st \<longleftrightarrow> length (fst st) \<le> 16 \<and> (\<forall>k. fst (snd st) = Some k \<longrightarrow> k \<le> length (fst st))"

lemma v6_group_ok:
  assumes "v6_group st = Some (st', continue)" "v6_ok st" "length (fst st) < 16" "even (length (fst st))"
  shows "v6_ok st' \<and> (continue \<longrightarrow> even (length (fst st')))"
proof -
  obtain ip e s where st: "st = (ip, e, s)" by (cases st)
  have "length ip \<le> 14" using assms(3,4) st by simp presburger
  moreover have "length v4 = 4" if "parseIPv4 s = Some v4" for v4
    using that v4_fields_length by (fastforce simp: parseIPv4_def)
  ultimately show ?thesis
    using assms(1,2,4) by (auto simp: st v6_ok_def v6_group_def Let_def split: if_splits list.splits)
qed

lemma v6_loop_ok: "v6_loop st = Some st' \<Longrightarrow> v6_ok st \<Longrightarrow> even (length (fst st)) \<Longrightarrow> v6_ok st'"
proof (induction st rule: v6_loop.induct)
  case (1 st)
  show ?case
  proof (cases "16 \<le> length (fst st)")
    case True
    then show ?thesis using "1.prems" by (subst (asm) v6_loop.simps) simp
  next
    case False
    then obtain st1 continue where g: "v6_group st = Some (st1, continue)"
      using "1.prems"(1) by (subst (asm) v6_loop.simps) (auto split: option.splits)
    then have "v6_ok st1 \<and> (continue \<longrightarrow> even (length (fst st1)))"
      using v6_group_ok "1.prems"(2,3) False by simp
    then show ?thesis
      using "1.IH" [OF False g refl] "1.prems"(1) g False
      by (subst (asm) (2) v6_loop.simps) (auto split: if_splits)
  qed
qed

lemma parseIPv6_length:
  assumes "parseIPv6_addr s = Some ip"
  shows "length ip = 16"
proof -
  define e0 :: "nat option" where "e0 = (if HasPrefix s ''::'' then Some 0 else None)"
  define s1 where "s1 = (if HasPrefix s ''::'' then drop 2 s else s)"
  note def = parseIPv6_addr_def [of s, folded e0_def s1_def, unfolded Let_def, folded e0_def s1_def]
  show ?thesis
  proof (cases "e0 \<noteq> None \<and> s1 = []")
    case True
    then show ?thesis using assms def by auto
  next
    case False
    then obtain ip1 e s2 where loop: "v6_loop ([], e0, s1) = Some (ip1, e, s2)"
      using assms def by (auto split: option.splits)
    have "v6_ok (ip1, e, s2)"
      by (rule v6_loop_ok [OF loop]) (simp_all add: v6_ok_def e0_def)
    then show ?thesis
      using assms def False loop by (auto simp: v6_ok_def split: if_splits option.splits)
  qed
qed

lemma ParseAddr_length:
  "ParseAddr s = Some (a, zone) \<Longrightarrow> length a = 4 \<or> length a = 16"
  using v4_fields_length parseIPv6_length
  by (fastforce simp: ParseAddr_def parseIPv4_def split: list.splits if_splits)

lemma ParseIP_length: "ParseIP s = Some ip \<Longrightarrow> length ip = 16"
  using ParseAddr_length
  by (fastforce simp: ParseIP_def As16_def v4InV6Prefix_def split: option.splits if_splits)

end
