(* ===== verification/GoJSON.thy ===== *)
theory GoJSON
  imports GoNet External
begin

text \<open>
  \<open>encoding/json\<close> as far as the cache uses it: \<open>json.Marshal\<close> of integers, strings, booleans, structs
  and slices, and \<open>json.Unmarshal\<close>, which first checks the whole input against the grammar and then
  walks over it. Here the input is cut into tokens, a stack machine like the one of the scanner
  (with its limit of 10000 open arrays and objects) builds a value from them, and the value is stored
  into the destination by the functions at the end. The texts of syntax errors are shortened.
\<close>

subsection \<open>Values and how they are printed\<close>

text \<open>Numbers are kept as they are written. \<open>VObj\<close> has its members in the order of the text.\<close>

datatype jvalue =
    VNull
  | VBool bool
  | VNum gostring
  | VStr gostring
  | VArr "jvalue list"
  | VObj "(gostring \<times> jvalue) list"

definition hex_digit :: "nat \<Rightarrow> char" where
  "hex_digit d = (if d < 10 then char_of (48 + d) else char_of (87 + d))"

text \<open>
  \<open>appendString\<close> with HTML escaping: a byte below 128 is copied if \<open>htmlSafeSet\<close> has it, bytes that
  are not UTF-8 become the escape of the replacement character, and the two line separators of
  Unicode are escaped.
\<close>

definition html_safe :: "rune \<Rightarrow> bool" where
  "html_safe b \<longleftrightarrow> 0x20 \<le> b \<and> b \<noteq> 0x22 \<and> b \<noteq> 0x26 \<and> b \<noteq> 0x3C \<and> b \<noteq> 0x3E \<and> b \<noteq> 0x5C"

definition escape_byte :: "rune \<Rightarrow> bytes" where
  "escape_byte b =
     (if b = 0x22 then [CHR 0x5C, CHR 0x22]
      else if b = 0x5C then [CHR 0x5C, CHR 0x5C]
      else if b = 0x08 then [CHR 0x5C, CHR ''b'']
      else if b = 0x0C then [CHR 0x5C, CHR ''f'']
      else if b = 0x0A then [CHR 0x5C, CHR ''n'']
      else if b = 0x0D then [CHR 0x5C, CHR ''r'']
      else if b = 0x09 then [CHR 0x5C, CHR ''t'']
      else CHR 0x5C # ''u00'' @ [hex_digit (b div 16), hex_digit (b mod 16)])"

definition json_piece :: "rune option \<times> bytes \<Rightarrow> bytes" where
  "json_piece p =
     (case p of
        (None, b) \<Rightarrow> CHR 0x5C # ''ufffd''
      | (Some r, b) \<Rightarrow>
          if r < 0x80 then (if html_safe r then b else escape_byte r)
          else if r = 0x2028 \<or> r = 0x2029 then CHR 0x5C # ''u202'' @ [hex_digit (r mod 16)]
          else b)"

definition json_string :: "gostring \<Rightarrow> bytes" where
  "json_string s = CHR 0x22 # concat (map json_piece (runes_of s)) @ [CHR 0x22]"

fun join_with :: "'a list \<Rightarrow> 'a list list \<Rightarrow> 'a list" where
  "join_with sep [] = []"
| "join_with sep [x] = x"
| "join_with sep (x # y # xs) = x @ sep @ join_with sep (y # xs)"

fun json_print :: "jvalue \<Rightarrow> bytes" where
  "json_print VNull = ''null''"
| "json_print (VBool b) = (if b then ''true'' else ''false'')"
| "json_print (VNum n) = n"
| "json_print (VStr s) = json_string s"
| "json_print (VArr vs) = ''['' @ join_with '','' (map json_print vs) @ '']''"
| "json_print (VObj kvs) =
     ''{'' @ join_with '','' (map (\<lambda>(k, v). json_string k @ '':'' @ json_print v) kvs) @ ''}''"

subsection \<open>Tokens\<close>

datatype jtoken =
    TBeginObj | TEndObj | TBeginArr | TEndArr | TColon | TComma
  | TStr gostring | TNum gostring | TTrue | TFalse | TNull

text \<open>
  The scanner's view of a string literal: what lies between the quotes, and the rest. A control
  character, an unknown escape or a missing quote is an error.
\<close>

definition escape_char :: "char \<Rightarrow> bool" where
  "escape_char d \<longleftrightarrow> d \<in> set ''bfnrt/'' \<or> byte d = 0x22 \<or> byte d = 0x5C"

definition scan_escape :: "bytes \<Rightarrow> nat option" where
  "scan_escape s =
     (case s of
        [] \<Rightarrow> None
      | d # ds \<Rightarrow>
          if d = CHR ''u'' then (if 4 \<le> length ds \<and> list_all is_hex (take 4 ds) then Some 5 else None)
          else if escape_char d then Some 1 else None)"

function scan_string :: "bytes \<Rightarrow> (bytes \<times> bytes) option" where
  "scan_string [] = None"
| "scan_string (c # cs) =
     (if byte c = 0x22 then Some ([], cs)
      else if byte c = 0x5C then
        (case scan_escape cs of
           None \<Rightarrow> None
         | Some n \<Rightarrow> map_option (\<lambda>(raw, rest). (c # take n cs @ raw, rest)) (scan_string (drop n cs)))
      else if byte c < 0x20 then None
      else map_option (\<lambda>(raw, rest). (c # raw, rest)) (scan_string cs))"
  by pat_completeness auto
termination
  by (relation "measure length") auto

text \<open>\<open>getu4\<close>, and the runes of a surrogate pair (\<open>unicode/utf16\<close>).\<close>

definition getu4 :: "bytes \<Rightarrow> nat option" where
  "getu4 s =
     (case s of
        c # d # h1 # h2 # h3 # h4 # es \<Rightarrow>
          if byte c = 0x5C \<and> d = CHR ''u'' \<and> list_all is_hex [h1, h2, h3, h4]
          then Some (((hex_value h1 * 16 + hex_value h2) * 16 + hex_value h3) * 16 + hex_value h4)
          else None
      | _ \<Rightarrow> None)"

definition utf16_pair :: "nat \<Rightarrow> nat \<Rightarrow> rune option" where
  "utf16_pair r1 r2 =
     (if 0xD800 \<le> r1 \<and> r1 < 0xDC00 \<and> 0xDC00 \<le> r2 \<and> r2 < 0xE000
      then Some ((r1 - 0xD800) * 1024 + (r2 - 0xDC00) + 0x10000) else None)"

definition simple_escape :: "char \<Rightarrow> char" where
  "simple_escape d =
     (if d = CHR ''b'' then char_of (8::nat) else if d = CHR ''f'' then char_of (12::nat)
      else if d = CHR ''n'' then char_of (10::nat) else if d = CHR ''r'' then char_of (13::nat)
      else if d = CHR ''t'' then char_of (9::nat) else d)"

text \<open>
  \<open>unquoteBytes\<close> on what \<open>scan_string\<close> has accepted. A surrogate without its partner is the
  replacement character, and so is a byte that is not UTF-8.
\<close>

function unquote :: "bytes \<Rightarrow> bytes" where
  "unquote s =
     (case s of
        [] \<Rightarrow> []
      | c # cs \<Rightarrow>
          if byte c = 0x5C then
            (case getu4 s of
               Some rr \<Rightarrow>
                 if 0xD800 \<le> rr \<and> rr < 0xE000 then
                   (case Option.bind (getu4 (drop 6 s)) (utf16_pair rr) of
                      Some dec \<Rightarrow> encode_rune dec @ unquote (drop 12 s)
                    | None \<Rightarrow> encode_rune rune_error @ unquote (drop 6 s))
                 else encode_rune rr @ unquote (drop 6 s)
             | None \<Rightarrow> (case cs of [] \<Rightarrow> [] | d # ds \<Rightarrow> simple_escape d # unquote ds))
          else
            (case decode_rune s of
               Some (r, n) \<Rightarrow> take n s @ unquote (drop n s)
             | None \<Rightarrow> encode_rune rune_error @ unquote cs))"
  by pat_completeness auto
termination
  by (relation "measure length") (auto dest: decode_rune_size)

declare unquote.simps [simp del]

text \<open>A number literal of the grammar, with the rest behind it.\<close>

definition scan_fraction :: "bytes \<Rightarrow> (bytes \<times> bytes) option" where
  "scan_fraction s =
     (if HasPrefix s ''.'' then
        (let ds = takeWhile is_digit (tl s) in
         if ds = [] then None else Some (''.'' @ ds, dropWhile is_digit (tl s)))
      else Some ([], s))"

definition scan_exponent :: "bytes \<Rightarrow> (bytes \<times> bytes) option" where
  "scan_exponent s =
     (if HasPrefix s ''e'' \<or> HasPrefix s ''E'' then
        (let (sign, r) = (if HasPrefix (tl s) ''+'' \<or> HasPrefix (tl s) ''-''
                          then (take 1 (tl s), drop 1 (tl s)) else ([], tl s));
             ds = takeWhile is_digit r in
         if ds = [] then None else Some (take 1 s @ sign @ ds, dropWhile is_digit r))
      else Some ([], s))"

definition scan_number :: "bytes \<Rightarrow> (bytes \<times> bytes) option" where
  "scan_number s =
     (let (sign, s1) = (if HasPrefix s ''-'' then (''-'', tl s) else ([], s));
          ds = (if HasPrefix s1 ''0'' then ''0'' else takeWhile is_digit s1) in
      if ds = [] then None
      else
        Option.bind (scan_fraction (drop (length ds) s1)) (\<lambda>(frac, s2).
          map_option (\<lambda>(ex, s3). (sign @ ds @ frac @ ex, s3)) (scan_exponent s2)))"

definition punct_token :: "char \<Rightarrow> jtoken option" where
  "punct_token c =
     (if c = CHR ''{'' then Some TBeginObj else if c = CHR ''}'' then Some TEndObj
      else if c = CHR ''['' then Some TBeginArr else if c = CHR '']'' then Some TEndArr
      else if c = CHR '':'' then Some TColon else if c = CHR '','' then Some TComma else None)"

definition word_token :: "bytes \<Rightarrow> (jtoken \<times> bytes) option" where
  "word_token s =
     (if HasPrefix s ''true'' then Some (TTrue, drop 4 s)
      else if HasPrefix s ''false'' then Some (TFalse, drop 5 s)
      else if HasPrefix s ''null'' then Some (TNull, drop 4 s)
      else None)"

text \<open>The first token of an input that does not start with white space.\<close>

definition next_token :: "bytes \<Rightarrow> (jtoken \<times> bytes) option" where
  "next_token s =
     (case s of
        [] \<Rightarrow> None
      | c # cs \<Rightarrow>
          (case punct_token c of
             Some t \<Rightarrow> Some (t, cs)
           | None \<Rightarrow>
               if byte c = 0x22 then map_option (\<lambda>(raw, rest). (TStr (unquote raw), rest)) (scan_string cs)
               else if c = CHR ''-'' \<or> is_digit c
               then map_option (\<lambda>(lit, rest). (TNum lit, rest)) (scan_number s)
               else word_token s))"

definition json_space :: "char \<Rightarrow> bool" where
  "json_space c \<longleftrightarrow> byte c \<in> {0x20, 0x09, 0x0A, 0x0D}"

lemma scan_string_length: "scan_string s = Some (raw, rest) \<Longrightarrow> length rest < length s"
proof (induction s arbitrary: raw rest rule: scan_string.induct)
  case (2 c cs)
  consider "byte c = 0x22" | n raw' where "byte c = 0x5C" "scan_escape cs = Some n"
      "scan_string (drop n cs) = Some (raw', rest)"
    | raw' where "byte c \<noteq> 0x22" "byte c \<noteq> 0x5C" "\<not> byte c < 0x20" "scan_string cs = Some (raw', rest)"
    using 2(3) by (auto split: if_splits option.splits)
  then show ?case
  proof cases
    case 1
    then show ?thesis using 2(3) by simp
  next
    case (2 n raw')
    then show ?thesis using "2.IH"(1) by fastforce
  next
    case (3 raw')
    then show ?thesis using "2.IH"(2) by fastforce
  qed
qed simp

lemma scan_fraction_length: "scan_fraction s = Some (f, r) \<Longrightarrow> length r \<le> length s"
  using length_dropWhile_le [of is_digit "tl s"]
  by (cases s) (auto simp: scan_fraction_def Let_def split: if_splits)

lemma scan_exponent_length: "scan_exponent s = Some (f, r) \<Longrightarrow> length r \<le> length s"
  using length_dropWhile_le [of is_digit "tl s"] length_dropWhile_le [of is_digit "drop 1 (tl s)"]
  by (cases s) (auto simp: scan_exponent_def Let_def split: if_splits prod.splits)

lemma scan_number_length:
  assumes "scan_number s = Some (lit, rest)"
  shows "length rest < length s"
proof -
  obtain sign s1 where sign: "(if HasPrefix s ''-'' then (''-'', tl s) else ([], s)) = (sign, s1)" by fastforce
  define ds where "ds = (if HasPrefix s1 ''0'' then ''0'' else takeWhile is_digit s1)"
  obtain f s2 e where "ds \<noteq> []" and f: "scan_fraction (drop (length ds) s1) = Some (f, s2)"
    and e: "scan_exponent s2 = Some (e, rest)"
    using assms sign
    by (auto simp: scan_number_def ds_def Let_def Option.bind_eq_Some_conv split: if_splits)
  have "length s1 \<le> length s" using sign by (auto split: if_splits)
  moreover have "0 < length s1" using \<open>ds \<noteq> []\<close> by (auto simp: ds_def HasPrefix_iff split: if_splits)
  ultimately show ?thesis
    using scan_fraction_length [OF f] scan_exponent_length [OF e] \<open>ds \<noteq> []\<close>
    unfolding length_drop length_greater_0_conv [symmetric] by linarith
qed

lemma next_token_length:
  assumes "next_token s = Some (t, rest)"
  shows "length rest < length s"
proof (cases s)
  case Nil
  then show ?thesis using assms by (simp add: next_token_def)
next
  case (Cons c cs)
  have "word_token s = Some (t, rest) \<Longrightarrow> length rest < length s"
    using Cons by (auto simp: word_token_def split: if_split_asm)
  then show ?thesis
    using assms Cons scan_number_length [of s _ rest] scan_string_length [of cs _ rest]
    by (auto simp: next_token_def split: option.splits if_split_asm)
qed

function json_tokens :: "bytes \<Rightarrow> jtoken list option" where
  "json_tokens s =
     (case dropWhile json_space s of
        [] \<Rightarrow> Some []
      | c # cs \<Rightarrow>
          (case next_token (c # cs) of
             None \<Rightarrow> None
           | Some (t, rest) \<Rightarrow> map_option (\<lambda>ts. t # ts) (json_tokens rest)))"
  by pat_completeness auto
termination
proof (relation "measure length")
  fix s c cs x t rest
  assume "dropWhile json_space s = c # cs" "next_token (c # cs) = Some x" "(t, rest) = x"
  then show "(rest, s) \<in> measure length"
    using next_token_length [of "c # cs" t rest] length_dropWhile_le [of json_space s] by simp
qed simp

declare json_tokens.simps [simp del]

subsection \<open>From tokens to values\<close>

text \<open>
  The stack of open arrays and objects (members newest first), and what the machine waits for: a
  value (the flag: or the end of an array just opened), a member name (or the end of an object just
  opened), a colon, or what may follow a complete value.
\<close>

datatype jframe =
    InArr "jvalue list"
  | InObj "(gostring \<times> jvalue) list"
  | InMember "(gostring \<times> jvalue) list" gostring

datatype jmode = Want bool | WantKey bool | WantColon | Have jvalue

definition maxNestingDepth :: nat where
  "maxNestingDepth = 10000"

definition push_frame :: "jmode \<Rightarrow> jframe \<Rightarrow> jframe list \<Rightarrow> (jmode \<times> jframe list) option" where
  "push_frame m f fs = (if length fs < maxNestingDepth then Some (m, f # fs) else None)"

definition want_value :: "bool \<Rightarrow> jframe list \<Rightarrow> jtoken \<Rightarrow> (jmode \<times> jframe list) option" where
  "want_value may_end fs t =
     (case t of
        TStr s \<Rightarrow> Some (Have (VStr s), fs)
      | TNum n \<Rightarrow> Some (Have (VNum n), fs)
      | TTrue \<Rightarrow> Some (Have (VBool True), fs)
      | TFalse \<Rightarrow> Some (Have (VBool False), fs)
      | TNull \<Rightarrow> Some (Have VNull, fs)
      | TBeginArr \<Rightarrow> push_frame (Want True) (InArr []) fs
      | TBeginObj \<Rightarrow> push_frame (WantKey True) (InObj []) fs
      | TEndArr \<Rightarrow> (case fs of InArr vs # fs' \<Rightarrow> if may_end then Some (Have (VArr (rev vs)), fs') else None
                  | _ \<Rightarrow> None)
      | _ \<Rightarrow> None)"

definition want_key :: "bool \<Rightarrow> jframe list \<Rightarrow> jtoken \<Rightarrow> (jmode \<times> jframe list) option" where
  "want_key may_end fs t =
     (case fs of
        InObj kvs # fs' \<Rightarrow>
          (case t of
             TStr k \<Rightarrow> Some (WantColon, InMember kvs k # fs')
           | TEndObj \<Rightarrow> if may_end then Some (Have (VObj (rev kvs)), fs') else None
           | _ \<Rightarrow> None)
      | _ \<Rightarrow> None)"

definition after_value :: "jvalue \<Rightarrow> jframe list \<Rightarrow> jtoken \<Rightarrow> (jmode \<times> jframe list) option" where
  "after_value v fs t =
     (case fs of
        InArr vs # fs' \<Rightarrow>
          (case t of
             TComma \<Rightarrow> Some (Want False, InArr (v # vs) # fs')
           | TEndArr \<Rightarrow> Some (Have (VArr (rev (v # vs))), fs')
           | _ \<Rightarrow> None)
      | InMember kvs k # fs' \<Rightarrow>
          (case t of
             TComma \<Rightarrow> Some (WantKey False, InObj ((k, v) # kvs) # fs')
           | TEndObj \<Rightarrow> Some (Have (VObj (rev ((k, v) # kvs))), fs')
           | _ \<Rightarrow> None)
      | _ \<Rightarrow> None)"

fun json_step :: "jmode \<times> jframe list \<Rightarrow> jtoken \<Rightarrow> (jmode \<times> jframe list) option" where
  "json_step (Want b, fs) t = want_value b fs t"
| "json_step (WantKey b, fs) t = want_key b fs t"
| "json_step (WantColon, fs) t = (if t = TColon then Some (Want False, fs) else None)"
| "json_step (Have v, fs) t = after_value v fs t"

fun json_run :: "jmode \<times> jframe list \<Rightarrow> jtoken list \<Rightarrow> (jmode \<times> jframe list) option" where
  "json_run st [] = Some st"
| "json_run st (t # ts) = Option.bind (json_step st t) (\<lambda>st'. json_run st' ts)"

definition json_parse :: "bytes \<Rightarrow> jvalue option" where
  "json_parse s =
     Option.bind (json_tokens s) (\<lambda>ts.
       case json_run (Want False, []) ts of Some (Have v, []) \<Rightarrow> Some v | _ \<Rightarrow> None)"

subsection \<open>What is printed is read back\<close>

text \<open>Stretches of a string literal that the scanner passes whatever follows.\<close>

definition passes :: "bytes \<Rightarrow> bool" where
  "passes x \<longleftrightarrow>
     (\<forall>rest. scan_string (x @ rest) = map_option (\<lambda>(raw, r). (x @ raw, r)) (scan_string rest))"

lemma passes_append: "passes x \<Longrightarrow> passes y \<Longrightarrow> passes (x @ y)"
  by (simp add: passes_def option.map_comp comp_def split_def)

lemma passes_Nil: "passes []"
  by (simp add: passes_def option.map_id)

lemma passes_concat: "(\<And>x. x \<in> set xs \<Longrightarrow> passes x) \<Longrightarrow> passes (concat xs)"
  by (induction xs) (simp_all add: passes_Nil passes_append)

lemma passes_plain:
  "list_all (\<lambda>c. 0x20 \<le> byte c \<and> byte c \<noteq> 0x22 \<and> byte c \<noteq> 0x5C) x \<Longrightarrow> passes x"
proof (induction x)
  case (Cons c x)
  then have "passes x" "passes [c]" by (simp_all add: passes_def)
  then show ?case using passes_append [of "[c]" x] by simp
qed (simp add: passes_Nil)

lemma passes_escape:
  assumes "byte c = 0x5C" "\<And>rest. scan_escape (e @ rest) = Some (length e)"
  shows "passes (c # e)"
  using assms by (simp add: passes_def)

lemma byte_quote [simp]: "byte CHR 0x5C = 0x5C" "byte CHR 0x22 = 0x22"
  by (simp_all add: byte_def)

lemma hex_digit_hex:
  assumes "d < 16"
  shows "is_hex (hex_digit d)" "hex_value (hex_digit d) = d"
  using assms by (auto simp: hex_digit_def is_hex_def hex_value_def is_digit_def byte_char_of)

lemma hex_02 [simp]:
  "is_hex CHR ''0''" "hex_value CHR ''0'' = 0" "is_hex CHR ''2''" "hex_value CHR ''2'' = 2"
  by (simp_all add: is_hex_def hex_value_def is_digit_def byte_def)

lemma passes_escape_byte:
  assumes "r < 0x80"
  shows "passes (escape_byte r)"
proof -
  have u: "scan_escape (CHR ''u'' # CHR ''0'' # CHR ''0'' # hex_digit (r div 16) # hex_digit (r mod 16) # rest) = Some 5"
    for rest
    using assms hex_digit_hex [of "r div 16"] hex_digit_hex [of "r mod 16"]
    by (simp add: scan_escape_def)
  show ?thesis
    unfolding escape_byte_def
    by (auto intro!: passes_escape simp: u)
      (auto simp: scan_escape_def escape_char_def byte_char_of)
qed

text \<open>The bytes of a rune above ASCII are all above ASCII.\<close>

lemma decode_rune_high:
  assumes "decode_rune s = Some (r, n)" "0x80 \<le> r"
  shows "list_all (\<lambda>c. 0x80 \<le> byte c) (take n s)"
proof -
  note sz = decode_rune_size [OF assms(1)]
  obtain c cs where s: "s = c # cs" using sz by (cases s) auto
  have "0x80 \<le> byte c"
  proof (rule ccontr)
    assume "\<not> 0x80 \<le> byte c"
    then have "r = byte c" using assms(1) s by (simp add: decode_rune_def rune_size_def)
    then show False using assms(2) \<open>\<not> 0x80 \<le> byte c\<close> by simp
  qed
  moreover have "list_all cont_byte (drop 1 (take n s))" by (rule decode_rune_cont [OF assms(1)])
  moreover have "take n s = c # drop 1 (take n s)" using s sz(2) by (simp add: take_Cons')
  ultimately show ?thesis by (metis (no_types, lifting) cont_byte_def list.pred_inject(2) list.pred_mono_strong)
qed

lemma decode_rune_low:
  assumes "decode_rune s = Some (r, n)" "r < 0x80"
  obtains cs where "s = char_of r # cs" "n = 1"
proof -
  note sz = decode_rune_size [OF assms(1)]
  obtain c cs where s: "s = c # cs" using sz by (cases s) auto
  have "byte c < 0x80"
    using decode_rune_multibyte [of c cs r n] assms s by (meson not_le)
  then have "r = byte c" "n = 1" using assms(1) s by (auto simp: decode_rune_def rune_size_def)
  then show thesis using that [of cs] s by (simp add: byte_def)
qed

lemma passes_piece:
  assumes "decode_rune s = Some (r, n)"
  shows "passes (json_piece (Some r, take n s))"
proof -
  consider "r < 0x80" "html_safe r" | "r < 0x80" "\<not> html_safe r" | "r = 0x2028 \<or> r = 0x2029"
    | "0x80 \<le> r" "r \<noteq> 0x2028" "r \<noteq> 0x2029" by linarith
  then show ?thesis
  proof cases
    case 1
    obtain cs where "s = char_of r # cs" "n = 1" using decode_rune_low [OF assms 1(1)] .
    then show ?thesis
      using 1 by (simp add: json_piece_def html_safe_def passes_plain byte_char_of)
  next
    case 2
    then show ?thesis by (simp add: json_piece_def passes_escape_byte)
  next
    case 3
    have u: "scan_escape (CHR ''u'' # CHR ''2'' # CHR ''0'' # CHR ''2'' # hex_digit (r mod 16) # rest) = Some 5" for rest
      using hex_digit_hex [of "r mod 16"] by (simp add: scan_escape_def)
    show ?thesis using 3 u by (auto simp: json_piece_def intro!: passes_escape)
  next
    case 4
    have "passes (take n s)"
      by (rule passes_plain, rule list.pred_mono_strong [OF decode_rune_high [OF assms 4(1)]]) auto
    then show ?thesis using 4 by (simp add: json_piece_def)
  qed
qed

text \<open>What the scanner passed is decoded piece by piece.\<close>

lemma unquote_Nil [simp]: "unquote [] = []"
  by (subst unquote.simps) simp

lemma unquote_rune:
  assumes "decode_rune s = Some (r, n)" "byte (hd s) \<noteq> 0x5C"
  shows "unquote (take n s @ x) = take n s @ unquote x"
proof -
  note sz = decode_rune_size [OF assms(1)]
  obtain c cs where s: "s = c # cs" using sz by (cases s) auto
  obtain xs where xs: "take n s @ x = c # xs" using s sz(2) by (simp add: take_Cons')
  have "unquote (c # xs) = take n (c # xs) @ unquote (drop n (c # xs))"
    using decode_rune_append [OF assms(1), of x, unfolded xs] assms(2) s by (subst unquote.simps) simp
  then show ?thesis using sz(4) by (simp flip: xs)
qed

lemma unquote_simple:
  assumes "d \<noteq> CHR ''u''"
  shows "unquote (CHR 0x5C # d # x) = simple_escape d # unquote x"
  using assms by (subst unquote.simps) (simp add: getu4_def split: list.splits)

lemma unquote_u4:
  assumes "list_all is_hex [h1, h2, h3, h4]"
    and "rr = ((hex_value h1 * 16 + hex_value h2) * 16 + hex_value h3) * 16 + hex_value h4" "rr < 0xD800"
  shows "unquote (CHR 0x5C # CHR ''u'' # h1 # h2 # h3 # h4 # x) = encode_rune rr @ unquote x"
  using assms by (subst unquote.simps) (simp add: getu4_def)

text \<open>The two line separators are the only runes above ASCII that are printed as an escape.\<close>

lemma decode_rune_multi:
  assumes "decode_rune (c # cs) = Some (r, n)" "n \<noteq> 1"
  shows "n = rune_size (byte c)" "accept_lo (byte c) \<le> byte (cs ! 0)" "byte (cs ! 0) \<le> accept_hi (byte c)"
    "list_all cont_byte (take (n - 2) (drop 2 (c # cs)))"
    "r = foldl (\<lambda>a c. a * 64 + byte c mod 64) (byte c mod 2 ^ (7 - n)) (take (n - 1) cs)"
  using assms by (auto simp: decode_rune_def Let_def not_less split: if_splits)

lemma mod_offset:
  fixes x :: nat
  assumes "a \<le> x" "x < a + m" "m dvd a"
  shows "x = a + x mod m"
proof -
  obtain k where k: "x = a + k" using assms(1) by (metis le_Suc_ex)
  then show ?thesis using mod_drop [of k m a] assms(2,3) by simp
qed

lemma decode_line_separator:
  assumes "decode_rune s = Some (r, n)" "r = 0x2028 \<or> r = 0x2029"
  shows "take n s = encode_rune r"
proof -
  note sz = decode_rune_size [OF assms(1)]
  obtain c cs where s: "s = c # cs" using sz by (cases s) auto
  note dec = assms(1) [unfolded s]
  have n1: "n \<noteq> 1"
    using dec assms(2) by (auto simp: decode_rune_def rune_size_def Let_def split: if_splits)
  note multi = decode_rune_multi [OF dec n1]
  let ?b = "byte c"
  have len: "n \<le> length (c # cs)" using sz(4) s by simp
  have b: "0xC2 \<le> ?b" "?b < 0xF5" using multi(1) n1 sz(2) by (auto simp: rune_size_def split: if_splits)
  then consider "n = 2" "?b < 0xE0" | "n = 3" "0xE0 \<le> ?b" "?b < 0xF0" | "n = 4" "0xF0 \<le> ?b"
    using multi(1) n1 by (auto simp: rune_size_def split: if_splits)
  then show ?thesis
  proof cases
    case 1
    then obtain d ds where "cs = d # ds" using len by (cases cs) auto
    then have "r = ?b mod 32 * 64 + byte d mod 64" using multi(5) 1 by simp
    moreover have "?b mod 32 < 32" "byte d mod 64 < 64" by simp_all
    ultimately show ?thesis using assms(2) by linarith
  next
    case 2
    obtain d e ds where cs: "cs = d # e # ds" using len 2 by (cases cs; cases "tl cs") auto
    have r: "r = (?b mod 16 * 64 + byte d mod 64) * 64 + byte e mod 64" using multi(5) 2 cs by simp
    have "cont_byte e" using multi(4) 2 cs by simp
    then have e: "0x80 \<le> byte e" "byte e \<le> 0xBF" by (simp_all add: cont_byte_def)
    have d: "0x80 \<le> byte d" "byte d \<le> 0xBF"
      using multi(2,3) cs by (auto simp: accept_lo_def accept_hi_def split: if_splits)
    have "?b mod 16 = 2 \<and> byte d mod 64 = 0 \<and> byte e mod 64 = r - 0x2000"
    proof -
      have "?b mod 16 * 64 + byte d mod 64 = r div 64" "byte e mod 64 = r mod 64"
        using r base64_div [of "byte e mod 64" "?b mod 16 * 64 + byte d mod 64"] by simp_all
      moreover have "r div 64 = 128" "r mod 64 = r - 0x2000" using assms(2) by auto
      ultimately show ?thesis
        using base64_div [of "byte d mod 64" "?b mod 16"] by auto
    qed
    then have "?b = 0xE2" "byte d = 0x80" "byte e = r - 0x1F80"
      using mod_offset [of 224 ?b 16] mod_offset [of 128 "byte d" 64] mod_offset [of 128 "byte e" 64]
        2 d e assms(2) by auto
    then have "c = char_of (0xE2::nat)" "d = char_of (0x80::nat)" "e = char_of (r - 0x1F80)"
      by (metis byte_def char_of_char)+
    then show ?thesis
      using assms(2) s cs 2 by (auto simp: encode_rune_def scalar_rune_def)
  next
    case 3
    obtain d e f ds where cs: "cs = d # e # f # ds" using len 3 by (cases cs; cases "tl cs"; cases "tl (tl cs)") auto
    have r: "r = ((?b mod 8 * 64 + byte d mod 64) * 64 + byte e mod 64) * 64 + byte f mod 64"
      using multi(5) 3 cs by simp
    have d: "(?b = 0xF0 \<longrightarrow> 0x90 \<le> byte d) \<and> byte d \<le> 0xBF"
      using multi(2,3) cs by (auto simp: accept_lo_def accept_hi_def split: if_splits)
    have "1 \<le> ?b mod 8 \<or> 16 \<le> byte d mod 64"
      using d 3 b multi(2) cs mod_offset [of 240 ?b 8] mod_offset [of 128 "byte d" 64]
      by (cases "?b = 0xF0") auto
    then have "0x10000 \<le> r" using r by auto
    then show ?thesis using assms(2) by auto
  qed
qed

lemma unquote_piece:
  assumes "decode_rune s = Some (r, n)"
  shows "unquote (json_piece (Some r, take n s) @ x) = take n s @ unquote x"
proof -
  consider "r < 0x80" "html_safe r" | "r < 0x80" "\<not> html_safe r" | "r = 0x2028 \<or> r = 0x2029"
    | "0x80 \<le> r" "r \<noteq> 0x2028" "r \<noteq> 0x2029" by linarith
  then show ?thesis
  proof cases
    case 1
    obtain cs where s: "s = char_of r # cs" "n = 1" using decode_rune_low [OF assms 1(1)] .
    then have "byte (hd s) \<noteq> 0x5C" using 1 by (simp add: html_safe_def byte_char_of)
    then show ?thesis using unquote_rune [OF assms] 1 by (simp add: json_piece_def)
  next
    case 2
    obtain cs where s: "s = char_of r # cs" "n = 1" using decode_rune_low [OF assms 2(1)] .
    have hex: "list_all is_hex [CHR ''0'', CHR ''0'', hex_digit (r div 16), hex_digit (r mod 16)]"
      "r = ((hex_value CHR ''0'' * 16 + hex_value CHR ''0'') * 16 + hex_value (hex_digit (r div 16))) * 16
         + hex_value (hex_digit (r mod 16))"
      using 2 hex_digit_hex [of "r div 16"] hex_digit_hex [of "r mod 16"]
      by simp_all
    have "encode_rune r = [char_of r]" using 2 by (simp add: encode_rune_def scalar_rune_def)
    moreover have "char_of (34::nat) = CHR 0x22" "char_of (92::nat) = CHR 0x5C"
      "char_of (8::nat) = CHR 0x08" by code_simp+
    ultimately show ?thesis
      using 2 s unquote_u4 [OF hex, of x]
      by (auto simp: json_piece_def escape_byte_def unquote_simple simple_escape_def)
  next
    case 3
    have hex: "list_all is_hex [CHR ''2'', CHR ''0'', CHR ''2'', hex_digit (r mod 16)]"
      "r = ((hex_value CHR ''2'' * 16 + hex_value CHR ''0'') * 16 + hex_value CHR ''2'') * 16
         + hex_value (hex_digit (r mod 16))" "r < 0xD800"
      using 3 hex_digit_hex [of "r mod 16"] by auto
    show ?thesis
      using 3 unquote_u4 [OF hex, of x] decode_line_separator [OF assms 3] by (auto simp: json_piece_def)
  next
    case 4
    note sz = decode_rune_size [OF assms]
    have "0x80 \<le> byte (hd s)"
      using decode_rune_high [OF assms 4(1)] sz by (cases s) (auto simp: take_Cons')
    then show ?thesis using 4 unquote_rune [OF assms] by (simp add: json_piece_def)
  qed
qed

lemma json_string_passes: "utf8_valid s \<Longrightarrow> passes (concat (map json_piece (runes_of s)))"
proof (induction s rule: runes_of_induct)
  case (Some s r n)
  then show ?case
    using passes_append [OF passes_piece [OF Some.hyps]] by (simp add: utf8_valid_Some runes_of_Some)
qed (simp_all add: passes_Nil utf8_valid_None)

lemma unquote_json_string: "utf8_valid s \<Longrightarrow> unquote (concat (map json_piece (runes_of s))) = s"
proof (induction s rule: runes_of_induct)
  case (Some s r n)
  then show ?case by (simp add: utf8_valid_Some runes_of_Some unquote_piece)
qed (simp_all add: utf8_valid_None)

lemma next_token_string:
  assumes "utf8_valid s"
  shows "next_token (json_string s @ rest) = Some (TStr s, rest)"
proof -
  have "scan_string (concat (map json_piece (runes_of s)) @ CHR 0x22 # rest) =
      Some (concat (map json_piece (runes_of s)), rest)"
    using json_string_passes [OF assms] by (simp add: passes_def)
  then show ?thesis
    by (simp add: next_token_def json_string_def punct_token_def unquote_json_string [OF assms])
qed

text \<open>Numbers end where something other than a digit, a dot or an exponent follows.\<close>

definition stops :: "bytes \<Rightarrow> bool" where
  "stops rest \<longleftrightarrow> rest = [] \<or> hd rest \<in> set '',]}''"

lemma char_of_48: "char_of (48::nat) = CHR ''0''"
  by code_simp

lemma show_nat_zero: "hd (show_nat n) = CHR ''0'' \<Longrightarrow> show_nat n = ''0''"
proof (induction n rule: show_nat.induct)
  case (1 n)
  show ?case
  proof (cases "n < 10")
    case True
    then show ?thesis using 1(2) by (subst (asm) show_nat.simps, subst show_nat.simps) simp
  next
    case False
    then have "show_nat (n div 10) = ''0''"
      using 1 by (subst (asm) (2) show_nat.simps) simp
    then have "show_nat (n div 10) = show_nat 0" by (simp add: show_nat.simps [of 0] char_of_48)
    then have "n div 10 = 0" by simp
    then show ?thesis using False by simp
  qed
qed

lemma scan_number_show_nat:
  assumes "stops rest"
  shows "scan_number (show_nat n @ rest) = Some (show_nat n, rest)"
    "scan_number (CHR ''-'' # show_nat n @ rest) = Some (CHR ''-'' # show_nat n, rest)"
proof -
  have d: "list_all is_digit (show_nat n)" by (rule show_nat_digits)
  have stop: "\<not> is_digit (hd rest) \<and> hd rest \<notin> {CHR ''.'', CHR ''e'', CHR ''E''}" if "rest \<noteq> []"
    using assms that by (auto simp: stops_def is_digit_def byte_def)
  have ds: "(if HasPrefix (show_nat n @ rest) ''0'' then ''0'' else takeWhile is_digit (show_nat n @ rest)) = show_nat n"
  proof (cases "hd (show_nat n) = CHR ''0''")
    case True
    then show ?thesis using show_nat_zero by (simp add: HasPrefix_def)
  next
    case False
    have "takeWhile is_digit rest = []" using stop by (cases rest) auto
    then have "takeWhile is_digit (show_nat n @ rest) = show_nat n"
      using d by (simp add: takeWhile_append2 list_all_iff)
    then show ?thesis using False by (cases "show_nat n") (auto simp: HasPrefix_def)
  qed
  have rest: "scan_fraction rest = Some ([], rest)" "scan_exponent rest = Some ([], rest)"
    using stop by (cases rest; auto simp: scan_fraction_def scan_exponent_def HasPrefix_def)+
  have "\<not> HasPrefix (show_nat n @ rest) ''-''"
    using show_nat_no_minus [of n] by (cases "show_nat n") (auto simp: HasPrefix_def)
  then show "scan_number (show_nat n @ rest) = Some (show_nat n, rest)"
    using ds rest by (simp add: scan_number_def Let_def)
  show "scan_number (CHR ''-'' # show_nat n @ rest) = Some (CHR ''-'' # show_nat n, rest)"
    using ds rest by (simp add: scan_number_def Let_def HasPrefix_def [of "CHR ''-'' # _"])
qed

text \<open>The tokens of a printed value.\<close>

fun toks :: "jvalue \<Rightarrow> jtoken list" where
  "toks VNull = [TNull]"
| "toks (VBool b) = [if b then TTrue else TFalse]"
| "toks (VNum n) = [TNum n]"
| "toks (VStr s) = [TStr s]"
| "toks (VArr vs) = TBeginArr # join_with [TComma] (map toks vs) @ [TEndArr]"
| "toks (VObj kvs) =
     TBeginObj # join_with [TComma] (map (\<lambda>(k, v). TStr k # TColon # toks v) kvs) @ [TEndObj]"

text \<open>Values a Go program can print: valid strings and numbers it has itself formatted.\<close>

fun printable :: "jvalue \<Rightarrow> bool" where
  "printable (VNum n) \<longleftrightarrow> (\<exists>i. n = show_int i)"
| "printable (VStr s) \<longleftrightarrow> utf8_valid s"
| "printable (VArr vs) \<longleftrightarrow> list_all printable vs"
| "printable (VObj kvs) \<longleftrightarrow> list_all (\<lambda>(k, v). utf8_valid k \<and> printable v) kvs"
| "printable _ \<longleftrightarrow> True"

lemma json_tokens_step:
  assumes "next_token (c # cs) = Some (t, rest)" "\<not> json_space c"
  shows "json_tokens (c # cs) = map_option (\<lambda>ts. t # ts) (json_tokens rest)"
  using assms by (subst json_tokens.simps) simp

lemma json_tokens_Nil [simp]: "json_tokens [] = Some []"
  by (subst json_tokens.simps) simp

lemma json_tokens_punct:
  assumes "punct_token c = Some t"
  shows "json_tokens (c # cs) = map_option (\<lambda>ts. t # ts) (json_tokens cs)"
proof (rule json_tokens_step)
  show "next_token (c # cs) = Some (t, cs)" using assms by (simp add: next_token_def)
  show "\<not> json_space c"
    using assms by (auto simp: punct_token_def json_space_def byte_def split: if_split_asm)
qed

lemma json_tokens_string:
  assumes "utf8_valid s"
  shows "json_tokens (json_string s @ rest) = map_option (\<lambda>ts. TStr s # ts) (json_tokens rest)"
proof -
  obtain xs where xs: "json_string s @ rest = CHR 0x22 # xs" by (simp add: json_string_def)
  have "\<not> json_space CHR 0x22" by (simp add: json_space_def)
  then show ?thesis using json_tokens_step next_token_string [OF assms, of rest] unfolding xs by blast
qed

lemma json_tokens_number:
  assumes "stops rest"
  shows "json_tokens (show_int i @ rest) = map_option (\<lambda>ts. TNum (show_int i) # ts) (json_tokens rest)"
proof -
  have scan: "scan_number (show_int i @ rest) = Some (show_int i, rest)"
    using scan_number_show_nat [OF assms] by (simp add: show_int_def)
  obtain c cs where c: "show_int i = c # cs" "c = CHR ''-'' \<or> is_digit c"
  proof (cases "i < 0")
    case True
    then show thesis using that by (simp add: show_int_def)
  next
    case False
    then show thesis
      using that show_nat_digits [of "nat i"] by (cases "show_nat (nat i)") (auto simp: show_int_def)
  qed
  have "punct_token c = None" "byte c \<noteq> 0x22" "\<not> json_space c"
    using c(2) by (auto simp: punct_token_def is_digit_def json_space_def byte_def)
  then show ?thesis
    using json_tokens_step [of c "cs @ rest" "TNum (show_int i)" rest] scan c by (simp add: next_token_def)
qed

lemma json_tokens_word:
  "json_tokens (''null'' @ rest) = map_option (\<lambda>ts. TNull # ts) (json_tokens rest)"
  "json_tokens (''true'' @ rest) = map_option (\<lambda>ts. TTrue # ts) (json_tokens rest)"
  "json_tokens (''false'' @ rest) = map_option (\<lambda>ts. TFalse # ts) (json_tokens rest)"
  by (simp_all add: json_tokens_step next_token_def punct_token_def word_token_def is_digit_def
      json_space_def byte_def HasPrefix_def)

lemma json_tokens_join:
  assumes "\<And>x rest. x \<in> set xs \<Longrightarrow> stops rest \<Longrightarrow>
      json_tokens (p x @ rest) = map_option (\<lambda>ts. t x @ ts) (json_tokens rest)"
    and "stops rest"
  shows "json_tokens (join_with '','' (map p xs) @ rest) =
    map_option (\<lambda>ts. join_with [TComma] (map t xs) @ ts) (json_tokens rest)"
  using assms(1)
proof (induction xs rule: induct_list012)
  case 1
  then show ?case by (simp add: option.map_ident)
next
  case (2 x)
  then show ?case using assms(2) by simp
next
  case (3 x y zs)
  have "stops (CHR '','' # q)" for q by (simp add: stops_def)
  then have "json_tokens (p x @ '','' @ join_with '','' (map p (y # zs)) @ rest) =
      map_option (\<lambda>ts. t x @ ts) (json_tokens ('','' @ join_with '','' (map p (y # zs)) @ rest))"
    using 3(3) [of x] by simp
  also have "\<dots> = map_option (\<lambda>ts. t x @ TComma # ts) (json_tokens (join_with '','' (map p (y # zs)) @ rest))"
    by (simp add: json_tokens_punct punct_token_def option.map_comp comp_def del: map_eq_Cons_conv)
  also have "\<dots> = map_option (\<lambda>ts. t x @ TComma # join_with [TComma] (map t (y # zs)) @ ts) (json_tokens rest)"
    using 3(2,3) by (simp add: option.map_comp comp_def)
  finally show ?case by simp
qed

lemma append_singleton: "(@) [x] = (#) x"
  by auto

lemma json_tokens_print:
  assumes "printable v" "stops rest"
  shows "json_tokens (json_print v @ rest) = map_option (\<lambda>ts. toks v @ ts) (json_tokens rest)"
  using assms
proof (induction v arbitrary: rest)
  case (VArr vs)
  have "json_tokens (join_with '','' (map json_print vs) @ '']'' @ rest) =
      map_option (\<lambda>ts. join_with [TComma] (map toks vs) @ ts) (json_tokens ('']'' @ rest))"
    by (rule json_tokens_join) (use VArr in \<open>auto simp: list_all_iff stops_def\<close>)
  then show ?case by (simp add: json_tokens_punct punct_token_def option.map_comp comp_def)
next
  case (VObj kvs)
  have member: "json_tokens ((json_string k @ '':'' @ json_print v) @ rest') =
      map_option (\<lambda>ts. (TStr k # TColon # toks v) @ ts) (json_tokens rest')"
    if "(k, v) \<in> set kvs" "stops rest'" for k v rest'
  proof -
    have "printable v" "utf8_valid k" using VObj(2) that(1) by (auto simp: list_all_iff)
    moreover have "json_tokens (json_print v @ rest') = map_option (\<lambda>ts. toks v @ ts) (json_tokens rest')"
      using VObj(1) [of "(k, v)" v] that \<open>printable v\<close> by simp
    ultimately show ?thesis
      by (simp add: json_tokens_string json_tokens_punct punct_token_def option.map_comp comp_def)
  qed
  have "json_tokens (join_with '','' (map (\<lambda>(k, v). json_string k @ '':'' @ json_print v) kvs) @ ''}'' @ rest) =
      map_option (\<lambda>ts. join_with [TComma] (map (\<lambda>(k, v). TStr k # TColon # toks v) kvs) @ ts)
        (json_tokens (''}'' @ rest))"
    by (rule json_tokens_join) (use member in \<open>auto simp: stops_def split_def\<close>)
  then show ?case by (simp add: json_tokens_punct punct_token_def option.map_comp comp_def)
qed (auto simp: json_tokens_word [simplified] json_tokens_number json_tokens_string append_singleton)

text \<open>The stack machine rebuilds a value from its tokens, if it is not nested too deeply.\<close>

fun depth :: "jvalue \<Rightarrow> nat" where
  "depth (VArr vs) = Suc (foldr max (map depth vs) 0)"
| "depth (VObj kvs) = Suc (foldr max (map (\<lambda>(k, v). depth v) kvs) 0)"
| "depth _ = 0"

lemma foldr_max_ge: "x \<in> set xs \<Longrightarrow> x \<le> foldr max xs (0::nat)"
  by (induction xs) auto

lemma push_frame_ok: "length fs < maxNestingDepth \<Longrightarrow> push_frame m f fs = Some (m, f # fs)"
  by (simp add: push_frame_def)

lemma json_run_members:
  assumes "\<And>v b fs' ts. v \<in> set vs \<Longrightarrow> length fs' = Suc (length fs) \<Longrightarrow>
      json_run (Want b, fs') (toks v @ ts) = json_run (Have v, fs') ts" "vs \<noteq> []"
  shows "json_run (Want b, InArr acc # fs) (join_with [TComma] (map toks vs) @ TEndArr # ts) =
    json_run (Have (VArr (rev acc @ vs)), fs) ts"
  using assms
proof (induction vs arbitrary: acc b rule: induct_list012)
  case (3 x y zs)
  have "json_run (Want b, InArr acc # fs) (join_with [TComma] (map toks (x # y # zs)) @ TEndArr # ts) =
      json_run (Want False, InArr (x # acc) # fs) (join_with [TComma] (map toks (y # zs)) @ TEndArr # ts)"
    using 3(3) [of x] by (simp add: after_value_def)
  also have "\<dots> = json_run (Have (VArr (rev (x # acc) @ y # zs)), fs) ts"
    by (rule 3(2)) (use 3(3) in auto)
  finally show ?case by simp
qed (simp_all add: after_value_def)

lemma json_run_fields:
  assumes "\<And>k v b fs' ts. (k, v) \<in> set kvs \<Longrightarrow> length fs' = Suc (length fs) \<Longrightarrow>
      json_run (Want b, fs') (toks v @ ts) = json_run (Have v, fs') ts" "kvs \<noteq> []"
  shows "json_run (WantKey b, InObj acc # fs)
      (join_with [TComma] (map (\<lambda>(k, v). TStr k # TColon # toks v) kvs) @ TEndObj # ts) =
    json_run (Have (VObj (rev acc @ kvs)), fs) ts"
  using assms
proof (induction kvs arbitrary: acc b rule: induct_list012)
  case (2 x)
  obtain k v where x: "x = (k, v)" by fastforce
  then show ?case using 2(1) [of k v] by (simp add: after_value_def want_key_def)
next
  case (3 x y zs)
  obtain k v where x: "x = (k, v)" by fastforce
  have "json_run (WantKey b, InObj acc # fs)
      (join_with [TComma] (map (\<lambda>(k, v). TStr k # TColon # toks v) (x # y # zs)) @ TEndObj # ts) =
    json_run (WantKey False, InObj (x # acc) # fs)
      (join_with [TComma] (map (\<lambda>(k, v). TStr k # TColon # toks v) (y # zs)) @ TEndObj # ts)"
    using 3(3) [of k v] x by (simp add: after_value_def want_key_def)
  also have "\<dots> = json_run (Have (VObj (rev (x # acc) @ y # zs)), fs) ts"
    by (rule 3(2), rule 3(3)) auto
  finally show ?case by simp
qed simp

lemma json_run_toks:
  "depth v + length fs \<le> maxNestingDepth \<Longrightarrow>
     json_run (Want b, fs) (toks v @ ts) = json_run (Have v, fs) ts"
proof (induction v arbitrary: b fs ts)
  case (VArr vs)
  have "depth v + Suc (length fs) \<le> maxNestingDepth" if "v \<in> set vs" for v
    using VArr(2) foldr_max_ge [of "depth v" "map depth vs"] that by simp
  then have "vs \<noteq> [] \<Longrightarrow> ?case"
    using VArr(1,2) json_run_members [of vs fs True "[]" ts]
    by (simp add: want_value_def push_frame_ok)
  moreover have "vs = [] \<Longrightarrow> ?case"
    using VArr(2) by (simp add: want_value_def push_frame_ok)
  ultimately show ?case by blast
next
  case (VObj kvs)
  have "depth v + Suc (length fs) \<le> maxNestingDepth" if "(k, v) \<in> set kvs" for k v
  proof -
    have "depth v \<in> set (map (\<lambda>(k, v). depth v) kvs)" using that by force
    then show ?thesis using VObj(2) foldr_max_ge by fastforce
  qed
  then have "kvs \<noteq> [] \<Longrightarrow> ?case"
    using VObj(1) [of "(_, _)"] VObj(2) json_run_fields [of kvs fs True "[]" ts]
    by (simp add: want_value_def push_frame_ok)
  moreover have "kvs = [] \<Longrightarrow> ?case"
    using VObj(2) by (simp add: want_value_def want_key_def push_frame_ok)
  ultimately show ?case by blast
qed (simp_all add: want_value_def)

lemma json_parse_print:
  assumes "printable v" "depth v \<le> maxNestingDepth"
  shows "json_parse (json_print v) = Some v"
proof -
  have "json_tokens (json_print v) = Some (toks v)"
    using json_tokens_print [OF assms(1), of "[]"] by (simp add: stops_def)
  moreover have "json_run (Want False, []) (toks v) = Some (Have v, [])"
    using json_run_toks [of v "[]" False "[]"] assms(2) by simp
  ultimately show ?thesis by (simp add: json_parse_def)
qed

subsection \<open>Storing a value\<close>

text \<open>
  A field of a struct: its name in JSON and how a value is stored into it, with the error that is
  saved when the value does not fit. \<open>null\<close> leaves a field as it is. \<open>ctx\<close> is the place that the text of
  an error names.
\<close>

type_synonym 'r field = "gostring \<times> (jvalue \<Rightarrow> 'r \<Rightarrow> 'r \<times> go_error option)"

definition jvalue_kind :: "jvalue \<Rightarrow> gostring" where
  "jvalue_kind v =
     (case v of VNull \<Rightarrow> ''null'' | VBool b \<Rightarrow> ''bool'' | VNum n \<Rightarrow> ''number'' | VStr s \<Rightarrow> ''string''
      | VArr vs \<Rightarrow> ''array'' | VObj kvs \<Rightarrow> ''object'')"

definition type_error :: "gostring \<Rightarrow> gostring \<Rightarrow> gostring \<Rightarrow> go_error" where
  "type_error what ctx ty =
     OpaqueErr ''*json.UnmarshalTypeError''
       (''json: cannot unmarshal '' @ what @ '' into Go '' @ ctx @ '' of type '' @ ty)"

definition syntax_error :: go_error where
  "syntax_error = OpaqueErr ''*json.SyntaxError'' ''invalid JSON''"

definition store_int :: "(int \<Rightarrow> 'r \<Rightarrow> 'r) \<Rightarrow> gostring \<Rightarrow> jvalue \<Rightarrow> 'r \<Rightarrow> 'r \<times> go_error option" where
  "store_int upd ctx v r =
     (case v of
        VNull \<Rightarrow> (r, None)
      | VNum n \<Rightarrow>
          (case ParseInt64 n of
             Ok i \<Rightarrow> (upd i r, None)
           | Err _ \<Rightarrow> (r, Some (type_error (''number '' @ n) ctx ''int64'')))
      | _ \<Rightarrow> (r, Some (type_error (jvalue_kind v) ctx ''int64'')))"

definition store_string ::
  "(gostring \<Rightarrow> 'r \<Rightarrow> 'r) \<Rightarrow> gostring \<Rightarrow> gostring \<Rightarrow> jvalue \<Rightarrow> 'r \<Rightarrow> 'r \<times> go_error option" where
  "store_string upd ctx ty v r =
     (case v of
        VNull \<Rightarrow> (r, None)
      | VStr s \<Rightarrow> (upd s r, None)
      | _ \<Rightarrow> (r, Some (type_error (jvalue_kind v) ctx ty)))"

text \<open>The field of a member: the one with this very name, or else one that equals it up to case.\<close>

definition find_field :: "unicode_tables \<Rightarrow> 'r field list \<Rightarrow> gostring \<Rightarrow> 'r field option" where
  "find_field U fs key =
     (case List.find (\<lambda>f. fst f = key) fs of
        Some f \<Rightarrow> Some f
      | None \<Rightarrow> List.find (\<lambda>f. EqualFold U (fst f) key) fs)"

text \<open>The members of an object in their order; an unknown one is skipped, the first error is kept.\<close>

fun store_members ::
  "unicode_tables \<Rightarrow> 'r field list \<Rightarrow> (gostring \<times> jvalue) list \<Rightarrow> 'r \<Rightarrow> 'r \<times> go_error option" where
  "store_members U fs [] r = (r, None)"
| "store_members U fs ((key, v) # kvs) r =
     (let (r1, e1) = (case find_field U fs key of Some f \<Rightarrow> snd f v r | None \<Rightarrow> (r, None));
          (r2, e2) = store_members U fs kvs r1
      in (r2, if e1 = None then e2 else e1))"

definition store_struct ::
  "unicode_tables \<Rightarrow> gostring \<Rightarrow> 'r field list \<Rightarrow> jvalue \<Rightarrow> 'r \<Rightarrow> 'r \<times> go_error option" where
  "store_struct U ty fs v r =
     (case v of
        VNull \<Rightarrow> (r, None)
      | VObj kvs \<Rightarrow> store_members U fs kvs r
      | _ \<Rightarrow> (r, Some (type_error (jvalue_kind v) ''value'' ty)))"

text \<open>
  A slice of structs: the elements that are there are overwritten, member by member, and the slice
  gets the length of the array. (Elements behind the length that an earlier, longer value left in
  the same memory are not modelled; the cache decodes into a fresh variable, and only a second
  failing decode could uncover one.)
\<close>

fun store_elems :: "(jvalue \<Rightarrow> 'r \<Rightarrow> 'r \<times> go_error option) \<Rightarrow> 'r \<Rightarrow> jvalue list \<Rightarrow> 'r list
    \<Rightarrow> 'r list \<times> go_error option" where
  "store_elems st zero [] rs = ([], None)"
| "store_elems st zero (v # vs) rs =
     (let (r, e1) = st v (case rs of [] \<Rightarrow> zero | r # _ \<Rightarrow> r);
          (rs', e2) = store_elems st zero vs (tl rs)
      in (r # rs', if e1 = None then e2 else e1))"

definition store_slice ::
  "(jvalue \<Rightarrow> 'r \<Rightarrow> 'r \<times> go_error option) \<Rightarrow> gostring \<Rightarrow> 'r \<Rightarrow> jvalue \<Rightarrow> 'r list \<Rightarrow> 'r list \<times> go_error option" where
  "store_slice st ty zero v rs =
     (case v of
        VNull \<Rightarrow> ([], None)
      | VArr vs \<Rightarrow> store_elems st zero vs rs
      | _ \<Rightarrow> (rs, Some (type_error (jvalue_kind v) ''value'' (''[]'' @ ty))))"

definition json_unmarshal :: "(jvalue \<Rightarrow> 'r \<Rightarrow> 'r \<times> go_error option) \<Rightarrow> bytes \<Rightarrow> 'r \<Rightarrow> unit result \<times> 'r" where
  "json_unmarshal st data dest =
     (case json_parse data of
        None \<Rightarrow> (Err syntax_error, dest)
      | Some v \<Rightarrow> (case st v dest of (r, None) \<Rightarrow> (Ok (), r) | (r, Some e) \<Rightarrow> (Err e, r)))"

text \<open>The codec of a Go type: its JSON value, and how a value is stored into it.\<close>

definition json_codec :: "('v \<Rightarrow> jvalue) \<Rightarrow> (jvalue \<Rightarrow> 'v \<Rightarrow> 'v \<times> go_error option) \<Rightarrow> 'v codec" where
  "json_codec enc st =
     \<lparr>cd_Marshal = (\<lambda>v. Ok (json_print (enc v))), cd_Unmarshal = json_unmarshal st\<rparr>"

lemma json_codec_law:
  assumes "\<And>v. clean v \<Longrightarrow> printable (enc v) \<and> depth (enc v) \<le> maxNestingDepth"
    and "\<And>v d. clean v \<Longrightarrow> st (enc v) d = (v, None)"
  shows "codec_law (json_codec enc st) clean"
  using assms json_parse_print unfolding codec_law_def
  by (auto simp: json_codec_def json_unmarshal_def)

lemma store_elems_ok:
  assumes "\<And>x d. x \<in> set xs \<Longrightarrow> st (enc x) d = (x, None)"
  shows "store_elems st zero (map enc xs) rs = (xs, None)"
  using assms by (induction xs arbitrary: rs) (simp_all split: list.split)

end
