(* ===== verification/TwoLevelCache.thy ===== *)
theory TwoLevelCache
  imports Config GoJSON
begin

text \<open>
  \<open>internal/cache\<close>: the cache in front of the database. Values are kept as JSON in an in-memory
  cache (L1) and in Redis (L2); \<open>GetOrFetchSlice\<close> is \<open>GetOrFetch\<close>. The method decodes into its
  argument \<open>dest\<close>, which is passed and returned here.
\<close>

subsection \<open>Keys\<close>

definition prefixApiToken :: gostring where
  "prefixApiToken = ''proxy:api_token:''"

definition prefixTokenDomain :: gostring where
  "prefixTokenDomain = ''proxy:token_domain:''"

definition prefixApiUsage :: gostring where
  "prefixApiUsage = ''proxy:api_usage:''"

definition ApiTokenKey :: "gostring \<Rightarrow> gostring" where
  "ApiTokenKey clientID = prefixApiToken @ clientID"

definition TokenDomainKey :: "int \<Rightarrow> gostring" where
  "TokenDomainKey tokenID = prefixTokenDomain @ show_int tokenID"

definition ApiUsageListKey :: "int \<Rightarrow> gostring" where
  "ApiUsageListKey tokenID = prefixApiUsage @ show_int tokenID"

lemmas key_defs = prefixApiToken_def prefixTokenDomain_def prefixApiUsage_def ApiTokenKey_def
  TokenDomainKey_def ApiUsageListKey_def

subsection \<open>The two levels\<close>

record 'e two_level_cache =
  tc_local :: "('e, bytes) go_cache"
  tc_redis :: "'e redis_client"
  tc_redisTTL :: int

text \<open>\<open>new_local\<close> is \<open>gocache.New\<close>, with the expiry time and the interval of its cleanup.\<close>

definition NewTwoLevelCache ::
  "(int \<Rightarrow> int \<Rightarrow> ('e, bytes) go_cache) \<Rightarrow> cache_config \<Rightarrow> 'e redis_client \<Rightarrow> 'e two_level_cache" where
  "NewTwoLevelCache new_local cfg rc =
     \<lparr>tc_local = new_local (LocalTTL cfg) (LocalTTL cfg * 2), tc_redis = rc, tc_redisTTL = RedisTTL cfg\<rparr>"

text \<open>The first two lookups; \<open>None\<close> when both miss. \<open>dest\<close> may have been written to on the way.\<close>

definition cache_lookup ::
  "'e two_level_cache \<Rightarrow> 'v codec \<Rightarrow> gostring \<Rightarrow> 'v \<Rightarrow> ('e, bool \<times> 'v) action" where
  "cache_lookup c cd key dest e =
     (let (hit1, d1) =
        (case gc_Get (tc_local c) key e of
           None \<Rightarrow> (False, dest)
         | Some data \<Rightarrow> (case cd_Unmarshal cd data dest of (r, d) \<Rightarrow> (r = Ok (), d))) in
      if hit1 then ((True, d1), e)
      else
        (case rd_Get (tc_redis c) key e of
           (Err _, e1) \<Rightarrow> ((False, d1), e1)
         | (Ok data, e1) \<Rightarrow>
             (case cd_Unmarshal cd data d1 of
                (Ok _, d2) \<Rightarrow> ((True, d2), gc_Set (tc_local c) key data e1)
              | (Err _, d2) \<Rightarrow> ((False, d2), e1))))"

definition mustMarshal :: "'v codec \<Rightarrow> 'v \<Rightarrow> bytes" where
  "mustMarshal cd v = (case cd_Marshal cd v of Ok data \<Rightarrow> data | Err _ \<Rightarrow> [])"

definition GetOrFetch ::
  "'e two_level_cache \<Rightarrow> 'v codec \<Rightarrow> gostring \<Rightarrow> ('e, 'v result) action \<Rightarrow> 'v
    \<Rightarrow> ('e, unit result \<times> 'v \<times> task list) action" where
  "GetOrFetch c cd key fetch dest e =
     (case cache_lookup c cd key dest e of
        ((True, d), e1) \<Rightarrow> ((Ok (), d, []), e1)
      | ((False, d), e1) \<Rightarrow>
          (case fetch e1 of
             (Err err, e2) \<Rightarrow> ((Err err, d, []), e2)
           | (Ok v, e2) \<Rightarrow>
               (case cd_Marshal cd v of
                  Err _ \<Rightarrow> (case cd_Unmarshal cd (mustMarshal cd v) d of (r, d') \<Rightarrow> ((r, d', []), e2))
                | Ok serialized \<Rightarrow>
                    let e3 = gc_Set (tc_local c) key serialized e2 in
                    (case cd_Unmarshal cd serialized d of
                       (r, d') \<Rightarrow> ((r, d', [RedisSet key serialized (tc_redisTTL c)]), e3)))))"

definition GetOrFetchSlice ::
  "'e two_level_cache \<Rightarrow> 'v codec \<Rightarrow> gostring \<Rightarrow> ('e, 'v result) action \<Rightarrow> 'v
    \<Rightarrow> ('e, unit result \<times> 'v \<times> task list) action" where
  "GetOrFetchSlice c cd key fetch dest e = GetOrFetch c cd key fetch dest e"

definition Evict :: "'e two_level_cache \<Rightarrow> gostring \<Rightarrow> ('e, unit result) action" where
  "Evict c key e = rd_Del (tc_redis c) key (gc_Delete (tc_local c) key e)"

subsection \<open>Properties\<close>

text \<open>Cache keys never clash: different clients and different tokens have different keys, and no client
  name, whatever bytes a caller puts into the token header, gives the key of another kind of entry.\<close>

theorem cache_keys_distinct:
  "(ApiTokenKey c = ApiTokenKey c' \<longleftrightarrow> c = c') \<and> (TokenDomainKey i = TokenDomainKey j \<longleftrightarrow> i = j)
   \<and> (ApiUsageListKey i = ApiUsageListKey j \<longleftrightarrow> i = j)
   \<and> ApiTokenKey c \<noteq> TokenDomainKey i \<and> ApiTokenKey c \<noteq> ApiUsageListKey i
   \<and> TokenDomainKey i \<noteq> ApiUsageListKey j"
  by (simp add: key_defs)

text \<open>C29: What is written is read back: when neither level has an entry that decodes (nothing, a failing
  Redis, or bytes that are no JSON of the type) and the database answers with a clean value, the caller
  gets that value, it is in the first level afterwards and one goroutine is started that puts it into
  Redis; asking again then gives the same value without another look at Redis or the database,
  whatever these hold by now and whatever the destination held, also when a failed decoding has
  written into it.\<close>

theorem fetch_then_hit:
  assumes "cache_laws (tc_local c)" "codec_law cd clean" "clean v"
    and "\<And>b d. gc_Get (tc_local c) key e = Some b \<Longrightarrow> fst (cd_Unmarshal cd b d) \<noteq> Ok ()"
    and "rd_Get (tc_redis c) key e = (reply, e1)"
    and "\<And>b d. reply = Ok b \<Longrightarrow> fst (cd_Unmarshal cd b d) \<noteq> Ok ()"
    and "fetch e1 = (Ok v, e2)"
  shows "\<exists>b. cd_Marshal cd v = Ok b
    \<and> GetOrFetch c cd key fetch dest e =
        ((Ok (), v, [RedisSet key b (tc_redisTTL c)]), gc_Set (tc_local c) key b e2)
    \<and> (\<forall>fetch' dest'. GetOrFetch c cd key fetch' dest' (gc_Set (tc_local c) key b e2) =
        ((Ok (), v, []), gc_Set (tc_local c) key b e2))"
proof -
  obtain b where b: "cd_Marshal cd v = Ok b" "\<And>d. cd_Unmarshal cd b d = (Ok (), v)"
    using assms(2,3) by (auto simp: codec_law_def)
  have hit: "gc_Get (tc_local c) key (gc_Set (tc_local c) key b e2) = Some b"
    using assms(1) by (simp add: cache_lawsD)
  obtain d where miss: "cache_lookup c cd key dest e = ((False, d), e1)"
  proof -
    define l where "l = (case gc_Get (tc_local c) key e of None \<Rightarrow> (False, dest)
      | Some data \<Rightarrow> (case cd_Unmarshal cd data dest of (r, d) \<Rightarrow> (r = Ok (), d)))"
    have "fst l = False"
      using assms(4) by (auto simp: l_def split: option.splits prod.splits) (metis fst_conv)
    then obtain d1 where l: "l = (False, d1)" by (cases l) auto
    show thesis
    proof (cases reply)
      case (Inl err)
      then show thesis
        using that [of d1] assms(5) l by (simp add: cache_lookup_def l_def [symmetric])
    next
      case (Inr data)
      obtain r d2 where u: "cd_Unmarshal cd data d1 = (r, d2)" by fastforce
      then obtain err where "r = Err err" using assms(6) [OF Inr, of d1] by (cases r) auto
      then show thesis
        using that [of d2] assms(5) l u Inr by (simp add: cache_lookup_def l_def [symmetric])
    qed
  qed
  show ?thesis
    using assms(7) b hit miss by (auto simp: GetOrFetch_def cache_lookup_def)
qed

text \<open>A concrete cache: both levels are tables.\<close>

record tables =
  tb_local :: "(gostring, bytes) gomap"
  tb_redis :: "(gostring, bytes) gomap"

definition demo_cache :: "'a tables_scheme two_level_cache" where
  "demo_cache =
     \<lparr>tc_local = table_cache tb_local (\<lambda>t e. e\<lparr>tb_local := t\<rparr>),
      tc_redis = table_redis tb_redis (\<lambda>t e. e\<lparr>tb_redis := t\<rparr>), tc_redisTTL = 10 * time_Minute\<rparr>"

definition string_codec :: "gostring codec" where
  "string_codec = \<lparr>cd_Marshal = Ok, cd_Unmarshal = (\<lambda>b d. (Ok (), b))\<rparr>"

lemma demo_cache_laws: "cache_laws (tc_local demo_cache)"
  by (simp add: demo_cache_def table_cache_laws)

lemma string_codec_law: "codec_law string_codec (\<lambda>v. True)"
  by (simp add: codec_law_def string_codec_def)

text \<open>A codec for a Go string, and a memory cache that holds broken bytes under the key.\<close>

definition json_text_codec :: "gostring codec" where
  "json_text_codec = json_codec VStr (store_string (\<lambda>s r. s) ''value'' ''string'')"

lemma json_text_codec_law: "codec_law json_text_codec utf8_valid"
  unfolding json_text_codec_def
  by (rule json_codec_law) (simp_all add: store_string_def)

theorem fetch_then_hit_witness:
  "fst (GetOrFetch demo_cache json_text_codec ''k'' (\<lambda>e. (Ok ''v'', e)) []
        \<lparr>tb_local = [(''k'', ''{'')], tb_redis = []\<rparr>) =
     (Ok (), ''v'', [RedisSet ''k'' (CHR 0x22 # ''v'' @ [CHR 0x22]) (10 * time_Minute)])"
proof -
  let ?e = "\<lparr>tb_local = [(''k'', ''{'')], tb_redis = []\<rparr>"
  have clean: "utf8_valid ''v''" by (rule utf8_valid_ascii) (simp add: is_ascii_def byte_def)
  have bad: "json_parse ''{'' = None" and pr: "json_print (VStr ''v'') = CHR 0x22 # ''v'' @ [CHR 0x22]"
    by code_simp+
  have broken: "gc_Get (tc_local demo_cache) ''k'' ?e = Some b \<Longrightarrow> fst (cd_Unmarshal json_text_codec b d) \<noteq> Ok ()"
    for b d
    using bad by (simp add: demo_cache_def table_cache_def json_text_codec_def json_codec_def json_unmarshal_def)
  have empty: "rd_Get (tc_redis demo_cache) ''k'' ?e = (Err RedisNil, ?e)"
    by (simp add: demo_cache_def table_redis_def)
  obtain b where "cd_Marshal json_text_codec ''v'' = Ok b"
    "fst (GetOrFetch demo_cache json_text_codec ''k'' (\<lambda>e. (Ok ''v'', e)) [] ?e) =
      (Ok (), ''v'', [RedisSet ''k'' b (tc_redisTTL (demo_cache :: tables two_level_cache))])"
    using fetch_then_hit [OF demo_cache_laws json_text_codec_law clean broken empty,
        of "\<lambda>e. (Ok ''v'', e)" ?e "[]"] by auto
  then show ?thesis
    using pr by (simp add: json_text_codec_def json_codec_def demo_cache_def [where 'a = unit])
qed

text \<open>
  Where entries come from: \<open>holds P e\<close> says that every entry of either level decodes, if at all,
  into a value that satisfies the predicate of its key.
\<close>

definition entry_ok :: "'v codec \<Rightarrow> ('v \<Rightarrow> bool) \<Rightarrow> bytes \<Rightarrow> bool" where
  "entry_ok cd P b \<longleftrightarrow> (\<forall>d d'. cd_Unmarshal cd b d = (Ok (), d') \<longrightarrow> P d')"

lemma GetOrFetch_provenance:
  assumes "codec_law cd clean" "\<And>v. P v \<Longrightarrow> clean v"
    and local: "\<And>b. gc_Get (tc_local c) key e = Some b \<Longrightarrow> entry_ok cd P b"
    and redis: "\<And>b e1. rd_Get (tc_redis c) key e = (Ok b, e1) \<Longrightarrow> entry_ok cd P b"
    and db: "\<And>e1 v e2. fetch e1 = (Ok v, e2) \<Longrightarrow> P v"
    and run: "GetOrFetch c cd key fetch dest e = ((r, d, ts), e')"
  shows "(r = Ok () \<longrightarrow> P d) \<and> (\<forall>t \<in> set ts. \<exists>b ttl. t = RedisSet key b ttl \<and> entry_ok cd P b)"
proof -
  obtain hit d1 e1 where look: "cache_lookup c cd key dest e = ((hit, d1), e1)" by (metis surj_pair)
  have hit: "P d1" if hit: "hit"
  proof (cases "gc_Get (tc_local c) key e")
    case None
    then show ?thesis
      using look that redis
      by (fastforce simp: cache_lookup_def entry_ok_def split: sum.splits prod.splits)
  next
    case (Some b)
    obtain x dx where u: "cd_Unmarshal cd b dest = (x, dx)" by fastforce
    show ?thesis
    proof (cases "x = Ok ()")
      case True
      then show ?thesis using look Some u local by (auto simp: cache_lookup_def entry_ok_def)
    next
      case False
      then show ?thesis
        using look that redis Some u
        by (fastforce simp: cache_lookup_def entry_ok_def split: sum.splits prod.splits)
    qed
  qed
  show ?thesis
  proof (cases hit)
    case True
    then show ?thesis using run look hit by (auto simp: GetOrFetch_def)
  next
    case False
    obtain f e2 where f: "fetch e1 = (f, e2)" by fastforce
    show ?thesis
    proof (cases f)
      case (Inl err)
      then show ?thesis using run look False f by (auto simp: GetOrFetch_def)
    next
      case (Inr v)
      then have v: "P v" using db f by blast
      then obtain b where b: "cd_Marshal cd v = Ok b" "\<And>d. cd_Unmarshal cd b d = (Ok (), v)"
        using assms(1,2) unfolding codec_law_def by blast
      then show ?thesis
        using run look False f Inr v by (auto simp: GetOrFetch_def entry_ok_def)
    qed
  qed
qed



end
