(* ===== verification/EndpointTemplate.thy ===== *)
theory EndpointTemplate
  imports GoStrings
begin

text \<open>
  \<open>matchesTemplate\<close> of \<open>internal/domain/api/query/usage_query.go\<close>: an endpoint template is turned
  into a regular expression and the request path is matched against it. Package \<open>regexp\<close> is
  modelled on the expressions made of ASCII characters that stand for themselves, \<open>.\<close> and the class
  the code inserts; on any other expression (a template with further metacharacters) matching is
  the parameter \<open>R\<close>, which answers false when the expression does not compile. Expressions are
  matched rune by rune, an invalid byte of the input being one \<open>rune_error\<close>.
\<close>

subsection \<open>Regular expressions\<close>

datatype re_atom = Lit rune | AnyRune | Segment

type_synonym regexp_match = "gostring \<Rightarrow> gostring \<Rightarrow> bool"

definition param_class :: gostring where
  "param_class = ''[^/?]+''"

definition re_meta :: "char \<Rightarrow> bool" where
  "re_meta c \<longleftrightarrow> c \<in> set (CHR 0x5C # ''.+*?()|[]{}^$'')"

function compile_re :: "gostring \<Rightarrow> re_atom list option" where
  "compile_re s =
     (case s of
        [] \<Rightarrow> Some []
      | c # cs \<Rightarrow>
          if HasPrefix s param_class then
            map_option ((#) Segment) (compile_re (drop (length param_class) s))
          else if c = CHR ''.'' then map_option ((#) AnyRune) (compile_re cs)
          else if re_meta c \<or> \<not> is_ascii c then None
          else map_option ((#) (Lit (byte c))) (compile_re cs))"
  by pat_completeness auto
termination
  by (relation "measure length") (auto simp: param_class_def)

declare compile_re.simps [simp del]

text \<open>The anchored match of a whole string.\<close>

fun re_match :: "re_atom list \<Rightarrow> rune list \<Rightarrow> bool" where
  "re_match [] rs = (rs = [])"
| "re_match (Lit c # as) (r # rs) = (r = c \<and> re_match as rs)"
| "re_match (AnyRune # as) (r # rs) = (r \<noteq> 10 \<and> re_match as rs)"
| "re_match (Segment # as) (r # rs) =
     (r \<noteq> 0x2F \<and> r \<noteq> 0x3F \<and> (re_match as rs \<or> re_match (Segment # as) rs))"
| "re_match (a # as) [] = False"

definition MatchAnchored :: "regexp_match \<Rightarrow> gostring \<Rightarrow> gostring \<Rightarrow> bool" where
  "MatchAnchored R pattern s =
     (case compile_re pattern of
        Some as \<Rightarrow> re_match as (range_runes s)
      | None \<Rightarrow> R (''^'' @ pattern @ ''$'') s)"

subsection \<open>Templates\<close>

text \<open>
  \<open>ReplaceAllString\<close> with \<open>\{[^}]+}\<close>: at a brace that opens a non-empty text up to a closing brace,
  the whole is replaced, otherwise the scan moves on by one.
\<close>

function replace_params :: "gostring \<Rightarrow> gostring" where
  "replace_params s =
     (case s of
        [] \<Rightarrow> []
      | c # cs \<Rightarrow>
          (case dropWhile (\<lambda>x. x \<noteq> CHR ''}'') cs of
             close # rest \<Rightarrow>
               if c = CHR ''{'' \<and> hd cs \<noteq> CHR ''}'' then param_class @ replace_params rest
               else c # replace_params cs
           | [] \<Rightarrow> c # replace_params cs))"
  by pat_completeness auto
termination
proof (relation "measure length", goal_cases)
  case (3 s c cs close rest)
  then have "length (close # rest) \<le> length cs" by (metis length_dropWhile_le)
  then show ?case using 3 by simp
qed auto

declare replace_params.simps [simp del]

definition matchesTemplate :: "regexp_match \<Rightarrow> gostring \<Rightarrow> gostring \<Rightarrow> bool" where
  "matchesTemplate R template actualPath = MatchAnchored R (replace_params template) actualPath"

subsection \<open>What a template promises\<close>

text \<open>A template is fixed text and named parameters; a parameter stands for one path segment.\<close>

datatype piece = Text gostring | Param gostring

fun render :: "piece list \<Rightarrow> gostring" where
  "render [] = []"
| "render (Text s # ps) = s @ render ps"
| "render (Param n # ps) = ''{'' @ n @ ''}'' @ render ps"

fun piece_wf :: "piece \<Rightarrow> bool" where
  "piece_wf (Text s) \<longleftrightarrow> list_all (\<lambda>c. is_ascii c \<and> \<not> re_meta c) s"
| "piece_wf (Param n) \<longleftrightarrow> n \<noteq> [] \<and> CHR ''}'' \<notin> set n"

inductive instantiates :: "piece list \<Rightarrow> rune list \<Rightarrow> bool" where
  inst_Nil: "instantiates [] []"
| inst_Text: "instantiates ps rs \<Longrightarrow> instantiates (Text s # ps) (map byte s @ rs)"
| inst_Param:
    "v \<noteq> [] \<Longrightarrow> 0x2F \<notin> set v \<Longrightarrow> 0x3F \<notin> set v \<Longrightarrow> instantiates ps rs \<Longrightarrow>
     instantiates (Param n # ps) (v @ rs)"

inductive_simps instantiates_simps:
  "instantiates [] rs" "instantiates (Text s # ps) rs" "instantiates (Param n # ps) rs"

fun piece_atoms :: "piece list \<Rightarrow> re_atom list" where
  "piece_atoms [] = []"
| "piece_atoms (Text s # ps) = map (\<lambda>c. Lit (byte c)) s @ piece_atoms ps"
| "piece_atoms (Param n # ps) = Segment # piece_atoms ps"

lemma replace_params_Nil [simp]: "replace_params [] = []"
  by (subst replace_params.simps) simp

lemma replace_params_plain: "c \<noteq> CHR ''{'' \<Longrightarrow> replace_params (c # cs) = c # replace_params cs"
  by (subst replace_params.simps) (simp split: list.splits)

lemma replace_params_Param:
  assumes "n \<noteq> []" "CHR ''}'' \<notin> set n"
  shows "replace_params (CHR ''{'' # n @ CHR ''}'' # s) = param_class @ replace_params s"
proof -
  have "dropWhile (\<lambda>x. x \<noteq> CHR ''}'') (n @ CHR ''}'' # s) = CHR ''}'' # s"
    using assms(2) by (subst dropWhile_append2) auto
  moreover have "hd (n @ CHR ''}'' # s) \<noteq> CHR ''}''" using assms by (cases n) auto
  ultimately show ?thesis by (subst replace_params.simps) simp
qed

lemma replace_params_Text:
  "list_all (\<lambda>c. is_ascii c \<and> \<not> re_meta c) s \<Longrightarrow> replace_params (s @ t) = s @ replace_params t"
  by (induction s) (auto simp: replace_params_plain re_meta_def)

lemma compile_re_Nil [simp]: "compile_re [] = Some []"
  by (subst compile_re.simps) simp

lemma compile_re_class [simp]: "compile_re (param_class @ s) = map_option ((#) Segment) (compile_re s)"
  by (subst compile_re.simps) (simp add: param_class_def HasPrefix_def)

lemma compile_re_plain:
  assumes "is_ascii c" "\<not> re_meta c"
  shows "compile_re (c # s) = map_option ((#) (Lit (byte c))) (compile_re s)"
proof -
  have "\<not> HasPrefix (c # s) param_class" "c \<noteq> CHR ''.''"
    using assms(2) by (auto simp: HasPrefix_def param_class_def re_meta_def)
  then show ?thesis using assms by (subst compile_re.simps) simp
qed

lemma compile_re_Text:
  "list_all (\<lambda>c. is_ascii c \<and> \<not> re_meta c) s \<Longrightarrow>
     compile_re (s @ t) = map_option ((@) (map (\<lambda>c. Lit (byte c)) s)) (compile_re t)"
proof (induction s)
  case Nil
  show ?case by (cases "compile_re t") simp_all
next
  case (Cons c s)
  then show ?case by (cases "compile_re t") (simp_all add: compile_re_plain)
qed

lemma compile_render:
  "list_all piece_wf ps \<Longrightarrow> compile_re (replace_params (render ps)) = Some (piece_atoms ps)"
  by (induction ps rule: render.induct)
    (simp_all add: replace_params_Text compile_re_Text replace_params_Param)

lemma re_match_Lits:
  "re_match (map (\<lambda>c. Lit (byte c)) s @ as) rs \<longleftrightarrow> (\<exists>t. rs = map byte s @ t \<and> re_match as t)"
proof (induction s arbitrary: rs)
  case (Cons c s)
  then show ?case by (cases rs) auto
qed simp

lemma re_match_Segment:
  "re_match (Segment # as) rs \<longleftrightarrow>
     (\<exists>v t. rs = v @ t \<and> v \<noteq> [] \<and> 0x2F \<notin> set v \<and> 0x3F \<notin> set v \<and> re_match as t)"
proof (induction rs)
  case (Cons r rs)
  show ?case
  proof
    assume m: "re_match (Segment # as) (r # rs)"
    then consider "re_match as rs" | "re_match (Segment # as) rs" by auto
    then show "\<exists>v t. r # rs = v @ t \<and> v \<noteq> [] \<and> 0x2F \<notin> set v \<and> 0x3F \<notin> set v \<and> re_match as t"
    proof cases
      case 1
      then show ?thesis using m by (intro exI [of _ "[r]"] exI [of _ rs]) auto
    next
      case 2
      then obtain v t where "rs = v @ t" "0x2F \<notin> set v" "0x3F \<notin> set v" "re_match as t"
        using Cons.IH by auto
      then show ?thesis using m by (intro exI [of _ "r # v"] exI [of _ t]) auto
    qed
  next
    assume "\<exists>v t. r # rs = v @ t \<and> v \<noteq> [] \<and> 0x2F \<notin> set v \<and> 0x3F \<notin> set v \<and> re_match as t"
    then obtain v t where v: "r # rs = v @ t" "v \<noteq> []" "0x2F \<notin> set v" "0x3F \<notin> set v" "re_match as t"
      by auto
    then obtain v' where v': "v = r # v'" by (cases v) auto
    show "re_match (Segment # as) (r # rs)"
    proof (cases "v' = []")
      case True
      then show ?thesis using v v' by auto
    next
      case False
      then have "re_match (Segment # as) rs" using v v' Cons.IH by auto
      then show ?thesis using v v' by auto
    qed
  qed
qed simp

lemma re_match_pieces: "re_match (piece_atoms ps) rs \<longleftrightarrow> instantiates ps rs"
proof (induction ps arbitrary: rs rule: piece_atoms.induct)
  case 1
  then show ?case by (simp add: instantiates_simps)
next
  case (2 s ps)
  then show ?case by (auto simp: re_match_Lits instantiates_simps)
next
  case (3 n ps)
  then show ?case by (simp del: re_match.simps add: re_match_Segment instantiates_simps)
qed

subsection \<open>An example\<close>

definition users_template :: "piece list" where
  "users_template = [Text ''/users/'', Param ''id'']"

lemma users_render: "render users_template = ''/users/{id}''"
  by (simp add: users_template_def)

lemma users_wf: "list_all piece_wf users_template"
  by (simp add: users_template_def is_ascii_def byte_def re_meta_def)

lemma users_instance: "instantiates users_template (range_runes ''/users/42'')"
proof -
  have "instantiates users_template (map byte ''/users/'' @ map byte ''42'' @ [])"
    unfolding users_template_def by (intro instantiates.intros) (simp_all add: byte_def)
  moreover have "range_runes ''/users/42'' = map byte ''/users/42''"
    by (rule range_runes_ascii) (simp add: is_ascii_def byte_def)
  ultimately show ?thesis by simp
qed

lemma users_match: "matchesTemplate R (render users_template) ''/users/42''"
  using compile_render [OF users_wf] users_instance
  by (simp add: matchesTemplate_def MatchAnchored_def re_match_pieces)

subsection \<open>Properties\<close>

text \<open>C24: A template made of ordinary text and \<open>{param}\<close> pieces matches exactly the paths obtained by writing
  for each parameter a non-empty string of characters other than \<open>/\<close> and \<open>?\<close>, whatever regular
  expression engine answers for other expressions.\<close>

theorem template_match_iff:
  assumes "list_all piece_wf ps"
  shows "matchesTemplate R (render ps) path \<longleftrightarrow> instantiates ps (range_runes path)"
  using compile_render [OF assms]
  by (simp add: matchesTemplate_def MatchAnchored_def re_match_pieces)

theorem template_match_iff_witness:
  "matchesTemplate (\<lambda>_ _. False) ''/users/{id}'' ''/users/42''"
  using template_match_iff [OF users_wf, of "\<lambda>_ _. False" "''/users/42''"] users_instance users_render
  by simp

lemma instantiates_slash:
  assumes "instantiates (Text (CHR ''/'' # s) # ps) rs"
  shows "\<exists>t. rs = 0x2F # t"
  using assms by (auto simp: instantiates_simps byte_def)

lemma range_runes_slash:
  assumes "range_runes s = 0x2F # t"
  shows "\<exists>u. s = CHR ''/'' # u"
proof (cases s)
  case Nil
  then show ?thesis using assms by (simp add: range_runes_def)
next
  case (Cons c cs)
  show ?thesis
  proof (cases "decode_rune s")
    case None
    then show ?thesis using assms Cons by (simp add: range_runes_def runes_of_None rune_error_def)
  next
    case (Some x)
    obtain r n where x: "x = (r, n)" by (cases x)
    then have "r = 0x2F" using assms Some by (simp add: range_runes_def runes_of_Some)
    moreover have "byte c < 0x80"
      using decode_rune_multibyte [of c cs r n] Some Cons x \<open>r = 0x2F\<close> by (simp add: linorder_not_le [symmetric]) auto
    ultimately have "byte c = 0x2F"
      using Some Cons x by (auto simp: decode_rune_def Let_def rune_size_def split: if_splits)
    then have "c = CHR ''/''" using byte_inject [of c "CHR ''/''"] by (simp add: byte_def)
    then show ?thesis using Cons by simp
  qed
qed

text \<open>When the fixed text of a template starts with a slash, only paths that start with a slash match.\<close>

lemma template_match_slash:
  assumes "list_all piece_wf (Text (CHR ''/'' # s) # ps)"
    and "matchesTemplate R (render (Text (CHR ''/'' # s) # ps)) path"
  shows "HasPrefix path ''/''"
proof -
  have "instantiates (Text (CHR ''/'' # s) # ps) (range_runes path)"
    using assms(2) compile_render [OF assms(1)]
    by (simp add: matchesTemplate_def MatchAnchored_def flip: re_match_pieces)
  then show ?thesis
    using instantiates_slash range_runes_slash by (fastforce simp: HasPrefix_def)
qed

text \<open>The text of a template is not quoted: a dot in it matches any character but a newline, so the
  template \<open>/v1.0/x\<close> admits the path \<open>/v1a0/x\<close> as well as its own text.\<close>

theorem template_dot_unquoted:
  "matchesTemplate R ''/v1.0/x'' ''/v1.0/x'' \<and> matchesTemplate R ''/v1.0/x'' ''/v1a0/x''"
proof -
  have "replace_params ''/v1.0/x'' = ''/v1.0/x''" by (simp add: replace_params_plain)
  moreover have "compile_re ''/v1.0/x'' =
      Some [Lit 0x2F, Lit 0x76, Lit 0x31, AnyRune, Lit 0x30, Lit 0x2F, Lit 0x78]"
    by (simp add: compile_re.simps HasPrefix_def param_class_def re_meta_def is_ascii_def byte_def)
  moreover have "range_runes ''/v1.0/x'' = map byte ''/v1.0/x''"
    "range_runes ''/v1a0/x'' = map byte ''/v1a0/x''"
    by (rule range_runes_ascii, simp add: is_ascii_def byte_def)+
  ultimately show ?thesis by (simp add: matchesTemplate_def MatchAnchored_def byte_def)
qed

end
