(* ===== verification/QueryServices.thy ===== *)
theory QueryServices
  imports ApiToken TwoLevelCache EndpointTemplate
begin

text \<open>
  \<open>internal/domain/api/query\<close>: the lookups of tokens, domains and usages through the cache. The
  repositories (\<open>internal/domain/api/repository\<close>) are a record of operations, the interfaces of
  \<open>repository.go\<close>.
\<close>

record 'e repositories =
  rp_FindByClientID :: "gostring \<Rightarrow> ('e, api_token result) action"
  rp_FindByID :: "int \<Rightarrow> ('e, api_token result) action"
  rp_Save :: "api_token \<Rightarrow> ('e, unit result) action"
  rp_FindUsages :: "int \<Rightarrow> ('e, api_usage list result) action"
  rp_FindDomains :: "int \<Rightarrow> ('e, token_domain list result) action"

record 'e query_deps =
  qd_repo :: "'e repositories"
  qd_cache :: "'e two_level_cache"
  qd_token_codec :: "api_token codec"
  qd_usages_codec :: "api_usage list codec"
  qd_domains_codec :: "token_domain list codec"
  qd_regexp :: regexp_match

text \<open>The zero value of the struct, which \<open>var token model.ApiToken\<close> declares.\<close>

definition zero_token :: api_token where
  "zero_token =
     \<lparr>ApiTokenID = 0, UserID = 0, ApiTokenName = [], ApiTokenUUID = [], SecretKey = [], State = []\<rparr>"

definition FindByClientID ::
  "'e query_deps \<Rightarrow> gostring \<Rightarrow> ('e, api_token result \<times> task list) action" where
  "FindByClientID q clientID e =
     (case GetOrFetch (qd_cache q) (qd_token_codec q) (ApiTokenKey clientID)
             (rp_FindByClientID (qd_repo q) clientID) zero_token e of
        ((Err err, token, ts), e') \<Rightarrow>
          if is_RecordNotFound err then ((Err (ProxyErr ErrApiTokenNotFound), ts), e')
          else ((Err err, ts), e')
      | ((Ok _, token, ts), e') \<Rightarrow> ((Ok token, ts), e'))"

definition FindAllByTokenID ::
  "'e query_deps \<Rightarrow> int \<Rightarrow> ('e, token_domain list result \<times> task list) action" where
  "FindAllByTokenID q tokenID e =
     (case GetOrFetchSlice (qd_cache q) (qd_domains_codec q) (TokenDomainKey tokenID)
             (rp_FindDomains (qd_repo q) tokenID) [] e of
        ((Err err, domains, ts), e') \<Rightarrow> ((Err err, ts), e')
      | ((Ok _, domains, ts), e') \<Rightarrow> ((Ok domains, ts), e'))"

fun first_match :: "regexp_match \<Rightarrow> gostring \<Rightarrow> api_usage list \<Rightarrow> api_usage result" where
  "first_match R actualPath [] = Err (ProxyErr ErrApiUsageNotFound)"
| "first_match R actualPath (u # us) =
     (if matchesTemplate R (Endpoint u) actualPath then Ok u else first_match R actualPath us)"

definition FindByTokenAndEndpoint ::
  "'e query_deps \<Rightarrow> int \<Rightarrow> gostring \<Rightarrow> ('e, api_usage result \<times> task list) action" where
  "FindByTokenAndEndpoint q tokenID endpoint e =
     (let actualPath = SplitFirst endpoint CHR ''?'' in
      (case GetOrFetchSlice (qd_cache q) (qd_usages_codec q) (ApiUsageListKey tokenID)
              (rp_FindUsages (qd_repo q) tokenID) [] e of
         ((Err err, usages, ts), e') \<Rightarrow> ((Err err, ts), e')
       | ((Ok _, usages, ts), e') \<Rightarrow> ((first_match (qd_regexp q) actualPath usages, ts), e')))"

subsection \<open>The first match\<close>

lemma first_match_Ok:
  "first_match R p us = Ok u \<longleftrightarrow>
     (\<exists>a b. us = a @ u # b \<and> matchesTemplate R (Endpoint u) p
        \<and> list_all (\<lambda>x. \<not> matchesTemplate R (Endpoint x) p) a)"
proof (induction us)
  case (Cons x us)
  show ?case
  proof (cases "matchesTemplate R (Endpoint x) p")
    case True
    have "a = []" if "x # us = a @ u # b" "list_all (\<lambda>y. \<not> matchesTemplate R (Endpoint y) p) a" for a b
      using that True by (cases a) auto
    then show ?thesis using True by fastforce
  next
    case False
    have "(\<exists>a b. x # us = a @ u # b \<and> matchesTemplate R (Endpoint u) p
        \<and> list_all (\<lambda>y. \<not> matchesTemplate R (Endpoint y) p) a) \<longleftrightarrow>
      (\<exists>a b. us = a @ u # b \<and> matchesTemplate R (Endpoint u) p
        \<and> list_all (\<lambda>y. \<not> matchesTemplate R (Endpoint y) p) a)" (is "?l \<longleftrightarrow> ?r")
    proof
      assume ?l
      then obtain a b where l: "x # us = a @ u # b" "matchesTemplate R (Endpoint u) p"
        "list_all (\<lambda>y. \<not> matchesTemplate R (Endpoint y) p) a" by blast
      then show ?r using False by (cases a) auto
    next
      assume ?r
      then obtain a b where "us = a @ u # b" "matchesTemplate R (Endpoint u) p"
        "list_all (\<lambda>y. \<not> matchesTemplate R (Endpoint y) p) a" by blast
      then show ?l using False by (intro exI [of _ "x # a"] exI [of _ b]) simp
    qed
    then show ?thesis using Cons False by simp
  qed
qed simp

lemma first_match_Err:
  "first_match R p us = Err err \<longleftrightarrow>
     err = ProxyErr ErrApiUsageNotFound \<and> list_all (\<lambda>u. \<not> matchesTemplate R (Endpoint u) p) us"
  by (induction us) auto

subsection \<open>An example\<close>

text \<open>
  A world with one token, in the database and perhaps in a cache. The codecs know that token and
  one list of usages.
\<close>

definition demo_token :: api_token where
  "demo_token =
     \<lparr>ApiTokenID = 7, UserID = 1, ApiTokenName = ''app'', ApiTokenUUID = ''client'',
      SecretKey = ''hash'', State = StateNormal\<rparr>"

definition demo_usage :: api_usage where
  "demo_usage =
     \<lparr>au_ApiTokenID = 7, ApiID = ''a'', ApiUseReasonID = ''r'', Name = ''users'',
      Endpoint = ''/users/{id}'', Domain = ''https://api.example.com'', Method = ''GET''\<rparr>"

definition demo_domain :: token_domain where
  "demo_domain = \<lparr>TokenDomainID = 1, td_ApiTokenID = 7, Origin = ''https://app.kr''\<rparr>"

definition const_codec :: "'v \<Rightarrow> 'v codec" where
  "const_codec v = \<lparr>cd_Marshal = (\<lambda>_. Ok ''x''), cd_Unmarshal = (\<lambda>b d. (Ok (), v))\<rparr>"

lemma const_codec_law: "codec_law (const_codec v) (\<lambda>x. x = v)"
  by (simp add: codec_law_def const_codec_def)

record query_world = tables +
  qw_token :: api_token

definition demo_repo :: "'a query_world_scheme repositories" where
  "demo_repo =
     \<lparr>rp_FindByClientID =
        (\<lambda>c e. (if c = ApiTokenUUID (qw_token e) then Ok (qw_token e) else Err RecordNotFound, e)),
      rp_FindByID = (\<lambda>i e. (if i = ApiTokenID (qw_token e) then Ok (qw_token e) else Err RecordNotFound, e)),
      rp_Save = (\<lambda>t e. (Ok (), e\<lparr>qw_token := t\<rparr>)),
      rp_FindUsages = (\<lambda>i e. (Ok [demo_usage], e)),
      rp_FindDomains = (\<lambda>i e. (Ok [demo_domain], e))\<rparr>"

definition demo_query :: "'a query_world_scheme query_deps" where
  "demo_query =
     \<lparr>qd_repo = demo_repo, qd_cache = demo_cache, qd_token_codec = const_codec demo_token,
      qd_usages_codec = const_codec [demo_usage], qd_domains_codec = const_codec [demo_domain],
      qd_regexp = (\<lambda>_ _. False)\<rparr>"

definition query_world0 :: query_world where
  "query_world0 = \<lparr>tb_local = [], tb_redis = [], qw_token = demo_token\<rparr>"

lemmas demo_query_defs = demo_query_def demo_repo_def demo_cache_def table_cache_def table_redis_def
  const_codec_def query_world0_def

subsection \<open>Properties\<close>

text \<open>The usage that a request is billed to and sent through is the first one of the token's list whose
  template matches the path without the query, and the request is refused with the not-found error
  exactly when none does; when the list itself cannot be had, its error is passed on.\<close>

theorem usage_lookup:
  assumes "GetOrFetchSlice (qd_cache q) (qd_usages_codec q) (ApiUsageListKey tokenID)
      (rp_FindUsages (qd_repo q) tokenID) [] e = ((r, usages, ts), e')"
    and "endpoint = path @ query" "CHR ''?'' \<notin> set path" "query = [] \<or> hd query = CHR ''?''"
  shows "case r of
      Err err \<Rightarrow> FindByTokenAndEndpoint q tokenID endpoint e = ((Err err, ts), e')
    | Ok _ \<Rightarrow> \<exists>res. FindByTokenAndEndpoint q tokenID endpoint e = ((res, ts), e')
        \<and> (\<forall>u. res = Ok u \<longleftrightarrow>
             (\<exists>a b. usages = a @ u # b \<and> matchesTemplate (qd_regexp q) (Endpoint u) path
                \<and> list_all (\<lambda>x. \<not> matchesTemplate (qd_regexp q) (Endpoint x) path) a))
        \<and> (\<forall>err. res = Err err \<longleftrightarrow> err = ProxyErr ErrApiUsageNotFound
             \<and> list_all (\<lambda>u. \<not> matchesTemplate (qd_regexp q) (Endpoint u) path) usages)"
proof -
  have "SplitFirst endpoint CHR ''?'' = path"
    using assms(2-4) by (cases query) (auto simp: SplitFirst_def takeWhile_append takeWhile_eq_all_conv)
  then show ?thesis
    using assms(1)
    by (auto simp: FindByTokenAndEndpoint_def first_match_Ok first_match_Err split: sum.splits)
qed

theorem usage_lookup_witness:
  "fst (fst (FindByTokenAndEndpoint demo_query 7 ''/users/42?page=1'' query_world0)) = Ok demo_usage"
proof -
  let ?q = "demo_query :: query_world query_deps"
  obtain r us ts e' where run: "GetOrFetchSlice (qd_cache ?q) (qd_usages_codec ?q)
      (ApiUsageListKey 7) (rp_FindUsages (qd_repo ?q) 7) [] query_world0 = ((r, us, ts), e')"
    by (metis surj_pair)
  then have "r = Ok ()" "us = [demo_usage]"
    by (auto simp: demo_query_defs GetOrFetchSlice_def GetOrFetch_def cache_lookup_def)
  moreover have "matchesTemplate (qd_regexp ?q) (Endpoint demo_usage) ''/users/42''"
    using users_match by (simp add: demo_usage_def users_render)
  ultimately show ?thesis
    using usage_lookup [OF run, of "''/users/42?page=1''" "''/users/42''" "''?page=1''"]
    by (fastforce intro: exI [of _ "[]"])
qed

text \<open>A token lookup answers with the token that was asked for: if the database only returns good
  tokens for the client id (well-formed ones that carry that id) and every cached entry under the
  client's key decodes into such a token, then the result is such a token, whatever level it came
  from. A token the database does not have gives the not-found error of the API and never GORM's own.\<close>

theorem token_lookup_right:
  assumes "codec_law (qd_token_codec q) clean" "\<And>t. good t \<Longrightarrow> clean t \<and> ApiTokenUUID t = clientID"
    and "\<And>b. gc_Get (tc_local (qd_cache q)) (ApiTokenKey clientID) e = Some b \<Longrightarrow>
      entry_ok (qd_token_codec q) good b"
    and "\<And>b e1. rd_Get (tc_redis (qd_cache q)) (ApiTokenKey clientID) e = (Ok b, e1) \<Longrightarrow>
      entry_ok (qd_token_codec q) good b"
    and "\<And>e1 t e2. rp_FindByClientID (qd_repo q) clientID e1 = (Ok t, e2) \<Longrightarrow> good t"
    and "FindByClientID q clientID e = ((res, ts), e')"
  shows "case res of Ok t \<Rightarrow> good t \<and> ApiTokenUUID t = clientID
    | Err err \<Rightarrow> \<not> is_RecordNotFound err"
proof -
  obtain r d ts0 e0 where run: "GetOrFetch (qd_cache q) (qd_token_codec q) (ApiTokenKey clientID)
      (rp_FindByClientID (qd_repo q) clientID) zero_token e = ((r, d, ts0), e0)" by (metis surj_pair)
  have "(r = Ok () \<longrightarrow> good d) \<and> (\<forall>t \<in> set ts0. \<exists>b ttl. t = RedisSet (ApiTokenKey clientID) b ttl
      \<and> entry_ok (qd_token_codec q) good b)"
    by (rule GetOrFetch_provenance [OF assms(1) _ _ _ _ run]) (use assms(2-5) in blast)+
  then show ?thesis
    using assms(2,6) run by (auto simp: FindByClientID_def split: sum.splits if_splits)
qed

theorem token_lookup_right_witness:
  "case fst (fst (FindByClientID demo_query ''client'' query_world0)) of
     Ok t \<Rightarrow> ApiTokenUUID t = ''client'' | Err err \<Rightarrow> \<not> is_RecordNotFound err"
proof -
  define q :: "query_world query_deps" where "q = demo_query\<lparr>qd_repo := demo_repo\<lparr>rp_FindByClientID :=
    (\<lambda>c e. (Ok demo_token, e))\<rparr>\<rparr>"
  have same: "FindByClientID demo_query ''client'' query_world0 = FindByClientID q ''client'' query_world0"
    by (simp add: q_def FindByClientID_def GetOrFetch_def cache_lookup_def demo_query_defs demo_token_def)
  obtain res ts e' where run: "FindByClientID q ''client'' query_world0 = ((res, ts), e')"
    by (metis surj_pair)
  have "case res of Ok t \<Rightarrow> t = demo_token \<and> ApiTokenUUID t = ''client'' | Err err \<Rightarrow> \<not> is_RecordNotFound err"
    by (rule token_lookup_right [OF _ _ _ _ _ run, where clean = "\<lambda>x. x = demo_token"])
      (auto simp: q_def demo_query_defs codec_law_def demo_token_def entry_ok_def)
  then show ?thesis unfolding same by (simp add: run split: sum.splits)
qed

text \<open>A cached token is answered without a look at the database: as long as the entry is in the first
  level, the lookup returns it even if the database holds another state by now, so blocking a token
  takes effect only when its entries have expired.\<close>

theorem cached_token_ignores_database:
  assumes "gc_Get (tc_local (qd_cache q)) (ApiTokenKey clientID) e = Some b"
    and "\<And>d. cd_Unmarshal (qd_token_codec q) b d = (Ok (), t)"
  shows "FindByClientID q clientID e = ((Ok t, []), e)
    \<and> (\<forall>repo. FindByClientID (q\<lparr>qd_repo := repo\<rparr>) clientID e = ((Ok t, []), e))"
  using assms by (simp add: FindByClientID_def GetOrFetch_def cache_lookup_def)

text \<open>The database has the token blocked, the cache still has it as it was.\<close>

theorem cached_token_ignores_database_witness:
  "\<exists>t. fst (fst (FindByClientID demo_query ''client''
        (query_world0\<lparr>tb_local := [(ApiTokenKey ''client'', ''x'')],
           qw_token := demo_token\<lparr>State := StateBlocked\<rparr>\<rparr>))) = Ok t
     \<and> ValidateNotBlocked t = Ok ()"
  using cached_token_ignores_database [of demo_query "''client''"
      "query_world0\<lparr>tb_local := [(ApiTokenKey ''client'', ''x'')],
         qw_token := demo_token\<lparr>State := StateBlocked\<rparr>\<rparr>" "''x''" demo_token]
  by (simp add: demo_query_defs ValidateNotBlocked_def demo_token_def)

end
