(* ===== verification/Repositories.thy ===== *)
theory Repositories
  imports QueryServices
begin

text \<open>
  \<open>internal/domain/api/repository\<close>: the queries of the three GORM repositories. A table is the list of its
  rows. GORM and MySQL are a record of operations: the first row or all rows that satisfy a condition,
  a raw query given by what it computes from the tables, and saving a row. \<open>gm_eq\<close> is the comparison
  of strings in SQL, which depends on the collation of the database.
\<close>

record usage_row =
  ur_api_token_id :: int
  ur_api_id :: gostring
  ur_api_use_reason_id :: gostring
  ur_name :: gostring
  ur_endpoint :: gostring

record api_row =
  ar_api_id :: gostring
  ar_domain :: gostring
  ar_method :: gostring

record 'e gorm =
  gm_eq :: "gostring \<Rightarrow> gostring \<Rightarrow> bool"
  gm_First :: "(api_token \<Rightarrow> bool) \<Rightarrow> ('e, api_token result) action"
  gm_Save :: "api_token \<Rightarrow> ('e, unit result) action"
  gm_Find :: "(token_domain \<Rightarrow> bool) \<Rightarrow> ('e, token_domain list \<times> go_error option) action"
  gm_Raw :: "(usage_row list \<Rightarrow> api_row list \<Rightarrow> api_usage list) \<Rightarrow> ('e, api_usage list \<times> go_error option) action"

text \<open>A slice returned with an error: the caller looks at the error first.\<close>

definition with_error :: "'a \<times> go_error option \<Rightarrow> 'a result" where
  "with_error r = (case snd r of None \<Rightarrow> Ok (fst r) | Some err \<Rightarrow> Err err)"

definition token_FindByClientID :: "'e gorm \<Rightarrow> gostring \<Rightarrow> ('e, api_token result) action" where
  "token_FindByClientID g clientID e =
     (case gm_First g (\<lambda>row. gm_eq g (ApiTokenUUID row) clientID) e of
        (Err err, e') \<Rightarrow> (Err err, e')
      | (Ok token, e') \<Rightarrow> (Ok token, e'))"

definition token_FindByID :: "'e gorm \<Rightarrow> int \<Rightarrow> ('e, api_token result) action" where
  "token_FindByID g i e =
     (case gm_First g (\<lambda>row. ApiTokenID row = i) e of
        (Err err, e') \<Rightarrow> (Err err, e')
      | (Ok token, e') \<Rightarrow> (Ok token, e'))"

definition token_Save :: "'e gorm \<Rightarrow> api_token \<Rightarrow> ('e, unit result) action" where
  "token_Save g token e = gm_Save g token e"

text \<open>The join of \<open>api_usage\<close> and \<open>api\<close> in the raw query, for the token in its \<open>WHERE\<close> clause.\<close>

definition usage_join ::
  "(gostring \<Rightarrow> gostring \<Rightarrow> bool) \<Rightarrow> int \<Rightarrow> usage_row list \<Rightarrow> api_row list \<Rightarrow> api_usage list" where
  "usage_join same tokenID usages apis =
     [\<lparr>au_ApiTokenID = ur_api_token_id au, ApiID = ur_api_id au, ApiUseReasonID = ur_api_use_reason_id au,
       Name = ur_name au, Endpoint = ur_endpoint au, Domain = ar_domain a, Method = ar_method a\<rparr>.
      au \<leftarrow> usages, a \<leftarrow> apis, same (ur_api_id au) (ar_api_id a), ur_api_token_id au = tokenID]"

definition usage_FindAllByTokenID :: "'e gorm \<Rightarrow> int \<Rightarrow> ('e, api_usage list result) action" where
  "usage_FindAllByTokenID g tokenID e =
     (case gm_Raw g (usage_join (gm_eq g) tokenID) e of (r, e') \<Rightarrow> (with_error r, e'))"

definition domain_FindAllByTokenID :: "'e gorm \<Rightarrow> int \<Rightarrow> ('e, token_domain list result) action" where
  "domain_FindAllByTokenID g tokenID e =
     (case gm_Find g (\<lambda>row. td_ApiTokenID row = tokenID) e of (r, e') \<Rightarrow> (with_error r, e'))"

definition gorm_repositories :: "'e gorm \<Rightarrow> 'e repositories" where
  "gorm_repositories g =
     \<lparr>rp_FindByClientID = token_FindByClientID g, rp_FindByID = token_FindByID g, rp_Save = token_Save g,
      rp_FindUsages = usage_FindAllByTokenID g, rp_FindDomains = domain_FindAllByTokenID g\<rparr>"

subsection \<open>What a token is granted\<close>

text \<open>
  An answer of the database to the raw query is what the query computes from the rows the two tables
  have at that moment, in any order; \<open>usages\<close> and \<open>apis\<close> are all the rows they have had over the
  time considered.
\<close>

definition raw_law :: "'e gorm \<Rightarrow> usage_row set \<Rightarrow> api_row set \<Rightarrow> bool" where
  "raw_law g usages apis \<longleftrightarrow>
     (\<forall>f e us e'. gm_Raw g f e = ((us, None), e') \<longrightarrow>
        (\<exists>now_usages now_apis. set now_usages \<subseteq> usages \<and> set now_apis \<subseteq> apis
           \<and> set us = set (f now_usages now_apis)))"

definition granted :: "'e gorm \<Rightarrow> usage_row set \<Rightarrow> api_row set \<Rightarrow> int \<Rightarrow> api_usage \<Rightarrow> bool" where
  "granted g usages apis tokenID u \<longleftrightarrow>
     (\<exists>au \<in> usages. \<exists>a \<in> apis. ur_api_token_id au = tokenID \<and> gm_eq g (ur_api_id au) (ar_api_id a)
        \<and> u = \<lparr>au_ApiTokenID = tokenID, ApiID = ur_api_id au, ApiUseReasonID = ur_api_use_reason_id au,
            Name = ur_name au, Endpoint = ur_endpoint au, Domain = ar_domain a, Method = ar_method a\<rparr>)"

lemma usage_join_granted:
  assumes "u \<in> set (usage_join (gm_eq g) tokenID us as)" "set us \<subseteq> usages" "set as \<subseteq> apis"
  shows "granted g usages apis tokenID u"
  using assms by (fastforce simp: usage_join_def granted_def split: if_splits)

lemma usage_FindAllByTokenID_granted:
  assumes "raw_law g usages apis" "usage_FindAllByTokenID g tokenID e = (Ok us, e')"
  shows "\<forall>u \<in> set us. granted g usages apis tokenID u"
proof -
  obtain xs err where raw: "gm_Raw g (usage_join (gm_eq g) tokenID) e = ((xs, err), e')"
    and r: "with_error (xs, err) = Ok us"
    using assms(2) by (auto simp: usage_FindAllByTokenID_def split: prod.splits)
  then have "err = None" "xs = us" by (auto simp: with_error_def split: option.splits)
  with raw assms(1) obtain us' as' where "set us' \<subseteq> usages" "set as' \<subseteq> apis"
    "set us = set (usage_join (gm_eq g) tokenID us' as')"
    unfolding raw_law_def by blast
  then show ?thesis using usage_join_granted by metis
qed

subsection \<open>An example\<close>

definition demo_usage_row :: usage_row where
  "demo_usage_row =
     \<lparr>ur_api_token_id = 7, ur_api_id = ''a'', ur_api_use_reason_id = ''r'', ur_name = ''users'',
      ur_endpoint = ''/users/{id}''\<rparr>"

definition demo_api_row :: api_row where
  "demo_api_row = \<lparr>ar_api_id = ''a'', ar_domain = ''https://api.example.com'', ar_method = ''GET''\<rparr>"

text \<open>Rows of another token and of an API nobody uses are in the tables, too.\<close>

definition demo_gorm :: "'a query_world_scheme gorm" where
  "demo_gorm =
     \<lparr>gm_eq = (=),
      gm_First = (\<lambda>p e. (if p (qw_token e) then Ok (qw_token e) else Err RecordNotFound, e)),
      gm_Save = (\<lambda>t e. (Ok (), e\<lparr>qw_token := t\<rparr>)),
      gm_Find = (\<lambda>p e. ((filter p [demo_domain], None), e)),
      gm_Raw = (\<lambda>f e. ((f [demo_usage_row\<lparr>ur_api_token_id := 8\<rparr>, demo_usage_row]
         [demo_api_row\<lparr>ar_api_id := ''b'', ar_domain := ''https://other.com''\<rparr>, demo_api_row], None), e))\<rparr>"

text \<open>A codec for lists of this one usage.\<close>

definition count_codec :: "api_usage list codec" where
  "count_codec =
     \<lparr>cd_Marshal = (\<lambda>us. Ok (replicate (length us) CHR ''x'')),
      cd_Unmarshal = (\<lambda>b d. (Ok (), replicate (length b) demo_usage))\<rparr>"

lemma count_codec_law: "codec_law count_codec (\<lambda>us. \<forall>u \<in> set us. u = demo_usage)"
  by (auto simp: codec_law_def count_codec_def intro: replicate_length_same)

definition gorm_query :: "'a query_world_scheme query_deps" where
  "gorm_query = demo_query\<lparr>qd_repo := gorm_repositories demo_gorm, qd_usages_codec := count_codec\<rparr>"

lemma demo_raw_law:
  "raw_law demo_gorm {demo_usage_row\<lparr>ur_api_token_id := 8\<rparr>, demo_usage_row}
     {demo_api_row\<lparr>ar_api_id := ''b'', ar_domain := ''https://other.com''\<rparr>, demo_api_row}"
proof -
  have "set [a, b] \<subseteq> {a, b}" for a b :: 'z by simp
  then show ?thesis unfolding raw_law_def by (auto simp: demo_gorm_def intro!: exI)
qed

subsection \<open>Properties\<close>

text \<open>A token only reaches what it was granted: the usage a request is sent through, and with it the
  host the request goes to, comes from a row of \<open>api_usage\<close> that carries the id of the token, joined
  with the row of \<open>api\<close> that this row names, and its template matches the path; that holds for
  every answer of the database and for cached lists, which stay of this kind: what the lookup writes
  to Redis for the token again decodes into granted usages only.\<close>

theorem usage_is_granted:
  assumes "codec_law (qd_usages_codec q) clean"
    and "\<And>us. \<forall>u \<in> set us. granted g usages apis tokenID u \<Longrightarrow> clean us"
    and "qd_repo q = gorm_repositories g" "raw_law g usages apis"
    and "\<And>b. gc_Get (tc_local (qd_cache q)) (ApiUsageListKey tokenID) e = Some b \<Longrightarrow>
      entry_ok (qd_usages_codec q) (\<lambda>us. \<forall>u \<in> set us. granted g usages apis tokenID u) b"
    and "\<And>b e1. rd_Get (tc_redis (qd_cache q)) (ApiUsageListKey tokenID) e = (Ok b, e1) \<Longrightarrow>
      entry_ok (qd_usages_codec q) (\<lambda>us. \<forall>u \<in> set us. granted g usages apis tokenID u) b"
    and "FindByTokenAndEndpoint q tokenID endpoint e = ((res, ts), e')"
  shows "(\<forall>u. res = Ok u \<longrightarrow> granted g usages apis tokenID u
      \<and> matchesTemplate (qd_regexp q) (Endpoint u) (SplitFirst endpoint CHR ''?''))
    \<and> (\<forall>t \<in> set ts. \<exists>b ttl. t = RedisSet (ApiUsageListKey tokenID) b ttl
      \<and> entry_ok (qd_usages_codec q) (\<lambda>us. \<forall>u \<in> set us. granted g usages apis tokenID u) b)"
proof -
  let ?P = "\<lambda>us. \<forall>u \<in> set us. granted g usages apis tokenID u"
  obtain r us ts0 e0 where run: "GetOrFetch (qd_cache q) (qd_usages_codec q) (ApiUsageListKey tokenID)
      (rp_FindUsages (qd_repo q) tokenID) [] e = ((r, us, ts0), e0)" by (metis surj_pair)
  have fetch: "?P us" if "rp_FindUsages (qd_repo q) tokenID e1 = (Ok us, e2)" for e1 us e2
    using that assms(3) usage_FindAllByTokenID_granted [OF assms(4)] by (simp add: gorm_repositories_def)
  have "(r = Ok () \<longrightarrow> ?P us) \<and> (\<forall>t \<in> set ts0. \<exists>b ttl. t = RedisSet (ApiUsageListKey tokenID) b ttl
      \<and> entry_ok (qd_usages_codec q) ?P b)"
    by (rule GetOrFetch_provenance [OF assms(1,2,5,6) fetch run])
  moreover have "res = Ok u \<Longrightarrow> r = Ok () \<and> u \<in> set us
      \<and> matchesTemplate (qd_regexp q) (Endpoint u) (SplitFirst endpoint CHR ''?'')" for u
    using assms(7) run
    by (auto simp: FindByTokenAndEndpoint_def GetOrFetchSlice_def first_match_Ok split: sum.splits)
  moreover have "ts = ts0"
    using assms(7) run by (auto simp: FindByTokenAndEndpoint_def GetOrFetchSlice_def split: sum.splits)
  ultimately show ?thesis by blast
qed

theorem usage_is_granted_witness:
  "\<exists>u. fst (fst (FindByTokenAndEndpoint gorm_query 7 ''/users/42'' query_world0)) = Ok u
     \<and> Domain u = ''https://api.example.com''"
proof -
  let ?q = "gorm_query :: query_world query_deps"
  let ?g = "demo_gorm :: query_world gorm"
  let ?us = "{demo_usage_row\<lparr>ur_api_token_id := 8\<rparr>, demo_usage_row}"
  let ?as = "{demo_api_row\<lparr>ar_api_id := ''b'', ar_domain := ''https://other.com''\<rparr>, demo_api_row}"
  have only: "granted ?g ?us ?as 7 u \<longleftrightarrow> u = demo_usage" for u
    by (auto simp: granted_def demo_gorm_def demo_usage_row_def demo_api_row_def demo_usage_def)
  have join: "usage_join (=) 7 [demo_usage_row\<lparr>ur_api_token_id := 8\<rparr>, demo_usage_row]
      [demo_api_row\<lparr>ar_api_id := ''b'', ar_domain := ''https://other.com''\<rparr>, demo_api_row] = [demo_usage]"
    by (simp add: usage_join_def demo_usage_row_def demo_api_row_def demo_usage_def)
  obtain res ts e' where run: "FindByTokenAndEndpoint ?q 7 ''/users/42'' query_world0 = ((res, ts), e')"
    by (metis surj_pair)
  have "res = Ok demo_usage"
    using run users_match join
    by (auto simp: FindByTokenAndEndpoint_def GetOrFetchSlice_def GetOrFetch_def cache_lookup_def
        gorm_query_def demo_query_defs gorm_repositories_def usage_FindAllByTokenID_def demo_gorm_def
        with_error_def count_codec_def demo_usage_def users_render SplitFirst_def)
  moreover have "\<forall>u. res = Ok u \<longrightarrow> granted ?g ?us ?as 7 u
      \<and> matchesTemplate (qd_regexp ?q) (Endpoint u) (SplitFirst ''/users/42'' CHR ''?'')"
    by (rule conjunct1 [OF usage_is_granted
          [where clean = "\<lambda>us. \<forall>u \<in> set us. u = demo_usage", OF _ _ _ demo_raw_law _ _ run]])
      (simp_all add: gorm_query_def count_codec_law only demo_query_defs)
  ultimately show ?thesis using run only by (auto simp: demo_usage_def)
qed

end
