(* ===== verification/ModelJSON.thy ===== *)
theory ModelJSON
  imports ApiToken GoJSON
begin

text \<open>
  The JSON form of the three types that the cache keeps (the \<open>json\<close> tags in
  \<open>internal/domain/api/model\<close>): the value that \<open>json.Marshal\<close> prints and the fields that
  \<open>json.Unmarshal\<close> fills. A cached token carries its secret hash and its state.
\<close>

subsection \<open>Tokens\<close>

definition token_value :: "api_token \<Rightarrow> jvalue" where
  "token_value t =
     VObj [(''apiTokenId'', VNum (show_int (ApiTokenID t))), (''userId'', VNum (show_int (UserID t))),
           (''apiTokenName'', VStr (ApiTokenName t)), (''apiTokenUUID'', VStr (ApiTokenUUID t)),
           (''secretKey'', VStr (SecretKey t)), (''state'', VStr (State t))]"

definition field_of :: "gostring \<Rightarrow> gostring \<Rightarrow> gostring" where
  "field_of struct name = ''struct field '' @ struct @ ''.'' @ name"

definition int_field :: "gostring \<Rightarrow> gostring \<Rightarrow> (int \<Rightarrow> 'r \<Rightarrow> 'r) \<Rightarrow> 'r field" where
  "int_field struct name upd = (name, store_int upd (field_of struct name))"

definition string_field :: "gostring \<Rightarrow> gostring \<Rightarrow> (gostring \<Rightarrow> 'r \<Rightarrow> 'r) \<Rightarrow> 'r field" where
  "string_field struct name upd = (name, store_string upd (field_of struct name) ''string'')"

definition token_fields :: "api_token field list" where
  "token_fields =
     [int_field ''ApiToken'' ''apiTokenId'' (\<lambda>x t. t\<lparr>ApiTokenID := x\<rparr>),
      int_field ''ApiToken'' ''userId'' (\<lambda>x t. t\<lparr>UserID := x\<rparr>),
      string_field ''ApiToken'' ''apiTokenName'' (\<lambda>x t. t\<lparr>ApiTokenName := x\<rparr>),
      string_field ''ApiToken'' ''apiTokenUUID'' (\<lambda>x t. t\<lparr>ApiTokenUUID := x\<rparr>),
      string_field ''ApiToken'' ''secretKey'' (\<lambda>x t. t\<lparr>SecretKey := x\<rparr>),
      (''state'', store_string (\<lambda>x t. t\<lparr>State := x\<rparr>) (field_of ''ApiToken'' ''state'') ''model.ApiTokenState'')]"

definition token_json :: "unicode_tables \<Rightarrow> api_token codec" where
  "token_json U = json_codec token_value (store_struct U ''model.ApiToken'' token_fields)"

subsection \<open>Domains and usages\<close>

definition domain_value :: "token_domain \<Rightarrow> jvalue" where
  "domain_value d =
     VObj [(''tokenDomainId'', VNum (show_int (TokenDomainID d))),
           (''apiTokenId'', VNum (show_int (td_ApiTokenID d))), (''origin'', VStr (Origin d))]"

definition domain_fields :: "token_domain field list" where
  "domain_fields =
     [int_field ''TokenDomain'' ''tokenDomainId'' (\<lambda>x d. d\<lparr>TokenDomainID := x\<rparr>),
      int_field ''TokenDomain'' ''apiTokenId'' (\<lambda>x d. d\<lparr>td_ApiTokenID := x\<rparr>),
      string_field ''TokenDomain'' ''origin'' (\<lambda>x d. d\<lparr>Origin := x\<rparr>)]"

definition zero_domain :: token_domain where
  "zero_domain = \<lparr>TokenDomainID = 0, td_ApiTokenID = 0, Origin = []\<rparr>"

definition domains_json :: "unicode_tables \<Rightarrow> token_domain list codec" where
  "domains_json U =
     json_codec (\<lambda>ds. VArr (map domain_value ds))
       (store_slice (store_struct U ''model.TokenDomain'' domain_fields) ''model.TokenDomain'' zero_domain)"

definition usage_value :: "api_usage \<Rightarrow> jvalue" where
  "usage_value u =
     VObj [(''apiTokenId'', VNum (show_int (au_ApiTokenID u))), (''apiId'', VStr (ApiID u)),
           (''apiUseReasonId'', VStr (ApiUseReasonID u)), (''name'', VStr (Name u)),
           (''endpoint'', VStr (Endpoint u)), (''domain'', VStr (Domain u)), (''method'', VStr (Method u))]"

definition usage_fields :: "api_usage field list" where
  "usage_fields =
     [int_field ''ApiUsage'' ''apiTokenId'' (\<lambda>x u. u\<lparr>au_ApiTokenID := x\<rparr>),
      string_field ''ApiUsage'' ''apiId'' (\<lambda>x u. u\<lparr>ApiID := x\<rparr>),
      string_field ''ApiUsage'' ''apiUseReasonId'' (\<lambda>x u. u\<lparr>ApiUseReasonID := x\<rparr>),
      string_field ''ApiUsage'' ''name'' (\<lambda>x u. u\<lparr>Name := x\<rparr>),
      string_field ''ApiUsage'' ''endpoint'' (\<lambda>x u. u\<lparr>Endpoint := x\<rparr>),
      string_field ''ApiUsage'' ''domain'' (\<lambda>x u. u\<lparr>Domain := x\<rparr>),
      string_field ''ApiUsage'' ''method'' (\<lambda>x u. u\<lparr>Method := x\<rparr>)]"

definition zero_usage :: api_usage where
  "zero_usage =
     \<lparr>au_ApiTokenID = 0, ApiID = [], ApiUseReasonID = [], Name = [], Endpoint = [], Domain = [], Method = []\<rparr>"

definition usages_json :: "unicode_tables \<Rightarrow> api_usage list codec" where
  "usages_json U =
     json_codec (\<lambda>us. VArr (map usage_value us))
       (store_slice (store_struct U ''model.ApiUsage'' usage_fields) ''model.ApiUsage'' zero_usage)"

subsection \<open>The round trip\<close>

text \<open>What a database in UTF-8 with 64-bit ids can hold.\<close>

definition int64_range :: "int \<Rightarrow> bool" where
  "int64_range i \<longleftrightarrow> - (2 ^ 63) \<le> i \<and> i < 2 ^ 63"

definition token_clean :: "api_token \<Rightarrow> bool" where
  "token_clean t \<longleftrightarrow> int64_range (ApiTokenID t) \<and> int64_range (UserID t)
     \<and> list_all utf8_valid [ApiTokenName t, ApiTokenUUID t, SecretKey t, State t]"

definition domain_clean :: "token_domain \<Rightarrow> bool" where
  "domain_clean d \<longleftrightarrow> int64_range (TokenDomainID d) \<and> int64_range (td_ApiTokenID d) \<and> utf8_valid (Origin d)"

definition usage_clean :: "api_usage \<Rightarrow> bool" where
  "usage_clean u \<longleftrightarrow> int64_range (au_ApiTokenID u)
     \<and> list_all utf8_valid [ApiID u, ApiUseReasonID u, Name u, Endpoint u, Domain u, Method u]"

lemma store_int_show: "int64_range i \<Longrightarrow> store_int upd ctx (VNum (show_int i)) r = (upd i r, None)"
  by (simp add: store_int_def int64_range_def ParseInt64_show)

lemma store_string_VStr: "store_string upd ctx ty (VStr s) r = (upd s r, None)"
  by (simp add: store_string_def)

lemmas store_simps = store_struct_def find_field_def int_field_def string_field_def store_int_show
  store_string_VStr

lemma token_stored: "token_clean t \<Longrightarrow> store_struct U ty token_fields (token_value t) d = (t, None)"
  by (simp add: store_simps token_fields_def token_value_def token_clean_def)

lemma domain_stored: "domain_clean x \<Longrightarrow> store_struct U ty domain_fields (domain_value x) d = (x, None)"
  by (simp add: store_simps domain_fields_def domain_value_def domain_clean_def)

lemma usage_stored: "usage_clean x \<Longrightarrow> store_struct U ty usage_fields (usage_value x) d = (x, None)"
  by (simp add: store_simps usage_fields_def usage_value_def usage_clean_def)

lemma printable_values:
  "token_clean t \<Longrightarrow> printable (token_value t)" "domain_clean d \<Longrightarrow> printable (domain_value d)"
  "usage_clean u \<Longrightarrow> printable (usage_value u)"
  by (auto simp: token_value_def token_clean_def domain_value_def domain_clean_def usage_value_def
      usage_clean_def is_ascii_def byte_def intro!: utf8_valid_ascii)

lemma depth_values:
  "depth (token_value t) = 1" "depth (domain_value d) = 1" "depth (usage_value u) = 1"
  by (simp_all add: token_value_def domain_value_def usage_value_def)

lemma depth_array:
  assumes "\<And>x. depth (f x) = 1"
  shows "depth (VArr (map f xs)) \<le> maxNestingDepth"
proof -
  have "foldr max (map depth (map f xs)) 0 \<le> 1" using assms by (induction xs) auto
  then show ?thesis by (simp add: maxNestingDepth_def)
qed

lemma token_json_law: "codec_law (token_json U) token_clean"
  unfolding token_json_def
  by (rule json_codec_law) (simp_all add: printable_values depth_values token_stored maxNestingDepth_def)

lemma slice_json_law:
  assumes "\<And>x. depth (f x) = 1" "\<And>x. clean x \<Longrightarrow> printable (f x)"
    and "\<And>x d. clean x \<Longrightarrow> store_struct U ty fs (f x) d = (x, None)"
  shows "codec_law (json_codec (\<lambda>xs. VArr (map f xs)) (store_slice (store_struct U ty fs) ty zero)) (list_all clean)"
proof (rule json_codec_law)
  fix xs assume "list_all clean xs"
  then show "printable (VArr (map f xs)) \<and> depth (VArr (map f xs)) \<le> maxNestingDepth"
    using depth_array [OF assms(1)] assms(2) by (auto simp: list_all_iff)
next
  fix xs d assume "list_all clean xs"
  then show "store_slice (store_struct U ty fs) ty zero (VArr (map f xs)) d = (xs, None)"
    using assms(3) by (simp add: store_slice_def store_elems_ok list_all_iff)
qed

lemma domains_json_law: "codec_law (domains_json U) (list_all domain_clean)"
  unfolding domains_json_def
  by (rule slice_json_law) (simp_all add: printable_values depth_values domain_stored)

lemma usages_json_law: "codec_law (usages_json U) (list_all usage_clean)"
  unfolding usages_json_def
  by (rule slice_json_law) (simp_all add: printable_values depth_values usage_stored)

text \<open>C18: What the cache stores is what it gives back: tokens, lists of domains and lists of usages whose
  strings are UTF-8 and whose ids fit 64 bits are the same after \<open>json.Marshal\<close> and \<open>json.Unmarshal\<close>,
  whatever the destination held before, with every escape of the printed form; in particular the
  state and the secret hash of a token survive the caches.\<close>

theorem json_round_trip:
  "codec_law (token_json U) token_clean \<and> codec_law (domains_json U) (list_all domain_clean)
   \<and> codec_law (usages_json U) (list_all usage_clean)"
  by (simp add: token_json_law domains_json_law usages_json_law)

end
