(* ===== verification/CacheRuns.thy ===== *)
theory CacheRuns
  imports Repositories ModelJSON
begin

text \<open>
  The caches over time: lookups of many requests, the goroutines that write to Redis some time after
  the lookup that started them, and everything that happens outside (entries expire, are evicted or
  lost, other programs and the rate limiter use other keys of the same Redis, the database changes),
  in any order. A lookup is one step here. The lookups use the JSON codecs of the model types.
\<close>

definition json_queries ::
  "unicode_tables \<Rightarrow> 'e two_level_cache \<Rightarrow> 'e gorm \<Rightarrow> regexp_match \<Rightarrow> 'e query_deps" where
  "json_queries U c g R =
     \<lparr>qd_repo = gorm_repositories g, qd_cache = c, qd_token_codec = token_json U,
      qd_usages_codec = usages_json U, qd_domains_codec = domains_json U, qd_regexp = R\<rparr>"

lemma json_queries_simps [simp]:
  "qd_repo (json_queries U c g R) = gorm_repositories g" "qd_cache (json_queries U c g R) = c"
  "qd_token_codec (json_queries U c g R) = token_json U"
  "qd_usages_codec (json_queries U c g R) = usages_json U"
  "qd_domains_codec (json_queries U c g R) = domains_json U" "qd_regexp (json_queries U c g R) = R"
  by (simp_all add: json_queries_def)

lemma surjective_pairs: "z = ((fst (fst z), snd (fst z)), snd z)"
  by simp

text \<open>An entry is in one of the two levels.\<close>

definition holds_entry :: "'e two_level_cache \<Rightarrow> 'e \<Rightarrow> gostring \<Rightarrow> bytes \<Rightarrow> bool" where
  "holds_entry c e k b \<longleftrightarrow>
     gc_Get (tc_local c) k e = Some b \<or> (\<exists>e1. rd_Get (tc_redis c) k e = (Ok b, e1))"

definition no_new :: "'e two_level_cache \<Rightarrow> 'e \<Rightarrow> 'e \<Rightarrow> bool" where
  "no_new c e e' \<longleftrightarrow> (\<forall>k b. holds_entry c e' k b \<longrightarrow> holds_entry c e k b)"

definition only_new :: "'e two_level_cache \<Rightarrow> 'e \<Rightarrow> 'e \<Rightarrow> gostring \<Rightarrow> bytes \<Rightarrow> bool" where
  "only_new c e e' key v \<longleftrightarrow> (\<forall>k b. holds_entry c e' k b \<longrightarrow> holds_entry c e k b \<or> (k = key \<and> b = v))"

text \<open>What is relied on: writing a key adds no other entry, and reading and querying add none.\<close>

definition store_laws :: "'e two_level_cache \<Rightarrow> 'e gorm \<Rightarrow> bool" where
  "store_laws c g \<longleftrightarrow>
     (\<forall>e k v. only_new c e (gc_Set (tc_local c) k v e) k v)
     \<and> (\<forall>e k. no_new c e (snd (rd_Get (tc_redis c) k e)))
     \<and> (\<forall>e k v ttl. only_new c e (snd (rd_Set (tc_redis c) k v ttl e)) k v)
     \<and> (\<forall>e p. no_new c e (snd (gm_First g p e))) \<and> (\<forall>e p. no_new c e (snd (gm_Find g p e)))
     \<and> (\<forall>e f. no_new c e (snd (gm_Raw g f e)))"

text \<open>The answers of the database satisfy the conditions of the queries, and can be printed as JSON.\<close>

definition gorm_law :: "'e gorm \<Rightarrow> usage_row set \<Rightarrow> api_row set \<Rightarrow> bool" where
  "gorm_law g usages apis \<longleftrightarrow>
     raw_law g usages apis \<and> (\<forall>tokenID u. granted g usages apis tokenID u \<longrightarrow> usage_clean u)
     \<and> (\<forall>p e t e'. gm_First g p e = (Ok t, e') \<longrightarrow> p t \<and> token_clean t)
     \<and> (\<forall>p e ds e'. gm_Find g p e = ((ds, None), e') \<longrightarrow> (\<forall>d \<in> set ds. p d \<and> domain_clean d))"

lemma store_lawsD:
  assumes "store_laws c g"
  shows "only_new c e (gc_Set (tc_local c) k v e) k v" "no_new c e (snd (rd_Get (tc_redis c) k e))"
    "rd_Set (tc_redis c) k v ttl e = (ok, e1) \<Longrightarrow> only_new c e e1 k v"
    "gm_First g p e = (t, e2) \<Longrightarrow> no_new c e e2" "gm_Find g pd e = (ds, e3) \<Longrightarrow> no_new c e e3"
    "gm_Raw g f e = (us, e4) \<Longrightarrow> no_new c e e4"
  using assms unfolding store_laws_def by (metis snd_conv)+

lemma gorm_lawD:
  assumes "gorm_law g usages apis"
  shows "raw_law g usages apis" "granted g usages apis tokenID u \<Longrightarrow> usage_clean u"
    "gm_First g p e = (Ok t, e1) \<Longrightarrow> p t \<and> token_clean t"
    "gm_Find g pd e = ((ds, None), e2) \<Longrightarrow> d \<in> set ds \<Longrightarrow> pd d \<and> domain_clean d"
  using assms unfolding gorm_law_def by metis+

definition cache_key :: "gostring \<Rightarrow> bool" where
  "cache_key k \<longleftrightarrow> HasPrefix k prefixApiToken \<or> HasPrefix k prefixTokenDomain \<or> HasPrefix k prefixApiUsage"

inductive cache_step :: "'e query_deps \<Rightarrow> 'e \<times> task list \<Rightarrow> 'e \<times> task list \<Rightarrow> bool" for q where
  look_token: "FindByClientID q clientID e = ((res, ts'), e') \<Longrightarrow> cache_step q (e, ts) (e', ts @ ts')"
| look_usage: "FindByTokenAndEndpoint q tokenID endpoint e = ((res', ts'), e') \<Longrightarrow>
    cache_step q (e, ts) (e', ts @ ts')"
| look_domains: "FindAllByTokenID q tokenID e = ((res'', ts'), e') \<Longrightarrow> cache_step q (e, ts) (e', ts @ ts')"
| write_redis: "rd_Set (tc_redis (qd_cache q)) k b ttl e = (ok, e') \<Longrightarrow>
    cache_step q (e, ts1 @ RedisSet k b ttl # ts2) (e', ts1 @ ts2)"
| outside: "(\<And>k b. cache_key k \<Longrightarrow> holds_entry (qd_cache q) e' k b \<Longrightarrow> holds_entry (qd_cache q) e k b) \<Longrightarrow>
    cache_step q (e, ts) (e', ts)"

subsection \<open>Every entry is of the kind of its key\<close>

definition token_for :: "'e gorm \<Rightarrow> gostring \<Rightarrow> api_token \<Rightarrow> bool" where
  "token_for g clientID t \<longleftrightarrow> gm_eq g (ApiTokenUUID t) clientID \<and> token_clean t"

definition domains_for :: "int \<Rightarrow> token_domain list \<Rightarrow> bool" where
  "domains_for tokenID ds \<longleftrightarrow> (\<forall>d \<in> set ds. td_ApiTokenID d = tokenID \<and> domain_clean d)"

definition usages_for :: "'e gorm \<Rightarrow> usage_row set \<Rightarrow> api_row set \<Rightarrow> int \<Rightarrow> api_usage list \<Rightarrow> bool" where
  "usages_for g usages apis tokenID us \<longleftrightarrow> (\<forall>u \<in> set us. granted g usages apis tokenID u)"

definition good_entry ::
  "unicode_tables \<Rightarrow> 'e gorm \<Rightarrow> usage_row set \<Rightarrow> api_row set \<Rightarrow> gostring \<Rightarrow> bytes \<Rightarrow> bool" where
  "good_entry U g usages apis k b \<longleftrightarrow>
     (\<forall>clientID. k = ApiTokenKey clientID \<longrightarrow> entry_ok (token_json U) (token_for g clientID) b)
     \<and> (\<forall>tokenID. k = TokenDomainKey tokenID \<longrightarrow> entry_ok (domains_json U) (domains_for tokenID) b)
     \<and> (\<forall>tokenID. k = ApiUsageListKey tokenID \<longrightarrow>
          entry_ok (usages_json U) (usages_for g usages apis tokenID) b)"

lemma good_entry_key:
  "good_entry U g usages apis (ApiTokenKey clientID) b \<longleftrightarrow> entry_ok (token_json U) (token_for g clientID) b"
  "good_entry U g usages apis (TokenDomainKey i) b \<longleftrightarrow> entry_ok (domains_json U) (domains_for i) b"
  "good_entry U g usages apis (ApiUsageListKey i) b \<longleftrightarrow> entry_ok (usages_json U) (usages_for g usages apis i) b"
  by (auto simp: good_entry_def key_defs)

lemma good_entry_other: "\<not> cache_key k \<Longrightarrow> good_entry U g usages apis k b"
  by (auto simp: good_entry_def cache_key_def ApiTokenKey_def TokenDomainKey_def ApiUsageListKey_def)

text \<open>One \<open>GetOrFetch\<close> keeps all entries good.\<close>

lemma GetOrFetch_keeps:
  fixes c :: "'e two_level_cache"
  assumes laws: "store_laws c g"
    and codec: "codec_law cd clean" "\<And>v. P v \<Longrightarrow> clean v"
    and fetch: "\<And>e1 v e2. fetch e1 = (Ok v, e2) \<Longrightarrow> P v" "\<And>e1. no_new c e1 (snd (fetch e1))"
    and key: "\<And>b. good key b \<longleftrightarrow> entry_ok cd P b"
    and entries: "\<And>k b. holds_entry c e k b \<Longrightarrow> good k b"
    and run: "GetOrFetch c cd key fetch dest e = ((r, d, ts), e')"
  shows "(r = Ok () \<longrightarrow> P d) \<and> (\<forall>k b. holds_entry c e' k b \<longrightarrow> good k b)
    \<and> (\<forall>t \<in> set ts. \<exists>b ttl. t = RedisSet key b ttl \<and> good key b)"
proof -
  have get: "no_new c x (snd (rd_Get (tc_redis c) k x))"
    and set: "only_new c x (gc_Set (tc_local c) k v x) k v" for x k v
    using laws by (auto intro: store_lawsD)
  have prov: "(r = Ok () \<longrightarrow> P d) \<and> (\<forall>t \<in> set ts. \<exists>b ttl. t = RedisSet key b ttl \<and> entry_ok cd P b)"
    by (rule GetOrFetch_provenance [OF codec _ _ fetch(1) run])
      (use entries key in \<open>auto simp: holds_entry_def\<close>)
  obtain hit d1 e1 where look: "cache_lookup c cd key dest e = ((hit, d1), e1)" by (metis surj_pair)
  have e1: "holds_entry c e1 k b \<Longrightarrow> good k b" for k b
  proof -
    obtain reply x where redis: "rd_Get (tc_redis c) key e = (reply, x)" by fastforce
    have x: "holds_entry c x k b \<Longrightarrow> good k b" for k b
      using get [of e key] redis entries by (auto simp: no_new_def)
    have "holds_entry c (gc_Set (tc_local c) key data x) k b \<Longrightarrow> good k b" if "reply = Ok data" for data k b
    proof -
      have "good key data" using entries redis that by (auto simp: holds_entry_def)
      then show "holds_entry c (gc_Set (tc_local c) key data x) k b \<Longrightarrow> good k b"
        using set [of x key data] x by (auto simp: only_new_def)
    qed
    moreover have "e1 = e \<or> e1 = x \<or> (\<exists>data. reply = Ok data \<and> e1 = gc_Set (tc_local c) key data x)"
      using look redis by (auto simp: cache_lookup_def Let_def split: prod.splits sum.splits if_splits)
    ultimately show "holds_entry c e1 k b \<Longrightarrow> good k b" using entries x by blast
  qed
  have "holds_entry c e' k b \<Longrightarrow> good k b" for k b
  proof (cases hit)
    case True
    then show "holds_entry c e' k b \<Longrightarrow> good k b" using run look e1 by (auto simp: GetOrFetch_def)
  next
    case False
    obtain f e2 where f: "fetch e1 = (f, e2)" by fastforce
    have e2: "holds_entry c e2 k b \<Longrightarrow> good k b" for k b
      using fetch(2) [of e1] f e1 by (auto simp: no_new_def)
    show "holds_entry c e' k b \<Longrightarrow> good k b"
    proof (cases f)
      case (Inl err)
      then show "holds_entry c e' k b \<Longrightarrow> good k b" using run look False f e2 by (auto simp: GetOrFetch_def)
    next
      case (Inr v)
      then obtain s where s: "cd_Marshal cd v = Ok s" "\<And>d. cd_Unmarshal cd s d = (Ok (), v)"
        using fetch(1) f codec unfolding codec_law_def by blast
      moreover have "P v" using fetch(1) f Inr by blast
      ultimately have "good key s" using key by (auto simp: entry_ok_def)
      moreover have "e' = gc_Set (tc_local c) key s e2"
        using run look False f Inr s by (auto simp: GetOrFetch_def)
      ultimately show "holds_entry c e' k b \<Longrightarrow> good k b"
        using set [of e2 key s] e2 by (auto simp: only_new_def)
    qed
  qed
  then show ?thesis using prov key by blast
qed

text \<open>The three lookups, for caches whose entries are good.\<close>

lemma FindByClientID_keeps:
  fixes c :: "'e two_level_cache"
  assumes laws: "store_laws c g" "gorm_law g usages apis"
    and entries: "\<And>k b. holds_entry c e k b \<Longrightarrow> good_entry U g usages apis k b"
    and run: "FindByClientID (json_queries U c g R) clientID e = ((res, ts), e')"
  shows "(\<forall>t. res = Ok t \<longrightarrow> token_for g clientID t)
    \<and> (\<forall>k b. holds_entry c e' k b \<longrightarrow> good_entry U g usages apis k b)
    \<and> (\<forall>t \<in> set ts. \<exists>k b ttl. t = RedisSet k b ttl \<and> good_entry U g usages apis k b)"
proof -
  let ?fetch = "token_FindByClientID g clientID"
  obtain r d ts0 e0 where go: "GetOrFetch c (token_json U) (ApiTokenKey clientID) ?fetch zero_token e
      = ((r, d, ts0), e0)" by (metis surj_pair)
  have good: "token_for g clientID v" if "?fetch e1 = (Ok v, e2)" for e1 v e2
    using that
    by (auto simp: token_FindByClientID_def token_for_def split: prod.splits sum.splits
        dest: gorm_lawD(3) [OF laws(2)])
  have quiet: "no_new c e1 (snd (?fetch e1))" for e1
    by (auto simp: token_FindByClientID_def split: prod.splits sum.splits dest: store_lawsD(4) [OF laws(1)])
  have "(r = Ok () \<longrightarrow> token_for g clientID d)
      \<and> (\<forall>k b. holds_entry c e0 k b \<longrightarrow> good_entry U g usages apis k b)
      \<and> (\<forall>t \<in> set ts0. \<exists>b ttl. t = RedisSet (ApiTokenKey clientID) b ttl
          \<and> good_entry U g usages apis (ApiTokenKey clientID) b)"
    by (rule GetOrFetch_keeps [where good = "good_entry U g usages apis",
          OF laws(1) token_json_law _ good quiet good_entry_key(1) entries go])
      (simp add: token_for_def)
  then show ?thesis
    using run go
    by (auto simp: FindByClientID_def gorm_repositories_def split: sum.splits if_splits)
qed

lemma FindAllByTokenID_keeps:
  fixes c :: "'e two_level_cache"
  assumes laws: "store_laws c g" "gorm_law g usages apis"
    and entries: "\<And>k b. holds_entry c e k b \<Longrightarrow> good_entry U g usages apis k b"
    and run: "FindAllByTokenID (json_queries U c g R) tokenID e = ((res, ts), e')"
  shows "(\<forall>ds. res = Ok ds \<longrightarrow> domains_for tokenID ds)
    \<and> (\<forall>k b. holds_entry c e' k b \<longrightarrow> good_entry U g usages apis k b)
    \<and> (\<forall>t \<in> set ts. \<exists>k b ttl. t = RedisSet k b ttl \<and> good_entry U g usages apis k b)"
proof -
  let ?fetch = "domain_FindAllByTokenID g tokenID"
  obtain r d ts0 e0 where go: "GetOrFetch c (domains_json U) (TokenDomainKey tokenID) ?fetch [] e
      = ((r, d, ts0), e0)" by (metis surj_pair)
  have good: "domains_for tokenID v" if "?fetch e1 = (Ok v, e2)" for e1 v e2
    using that
    by (auto simp: domain_FindAllByTokenID_def with_error_def domains_for_def
        split: prod.splits option.splits dest: gorm_lawD(4) [OF laws(2)])
  have quiet: "no_new c e1 (snd (?fetch e1))" for e1
    by (auto simp: domain_FindAllByTokenID_def split: prod.splits dest: store_lawsD(5) [OF laws(1)])
  have "(r = Ok () \<longrightarrow> domains_for tokenID d)
      \<and> (\<forall>k b. holds_entry c e0 k b \<longrightarrow> good_entry U g usages apis k b)
      \<and> (\<forall>t \<in> set ts0. \<exists>b ttl. t = RedisSet (TokenDomainKey tokenID) b ttl
          \<and> good_entry U g usages apis (TokenDomainKey tokenID) b)"
    by (rule GetOrFetch_keeps [where good = "good_entry U g usages apis",
          OF laws(1) domains_json_law _ good quiet good_entry_key(2) entries go])
      (simp add: domains_for_def list_all_iff)
  then show ?thesis
    using run go
    by (auto simp: FindAllByTokenID_def GetOrFetchSlice_def gorm_repositories_def split: sum.splits)
qed

lemma FindByTokenAndEndpoint_keeps:
  fixes c :: "'e two_level_cache"
  assumes laws: "store_laws c g" "gorm_law g usages apis"
    and entries: "\<And>k b. holds_entry c e k b \<Longrightarrow> good_entry U g usages apis k b"
    and run: "FindByTokenAndEndpoint (json_queries U c g R) tokenID endpoint e = ((res, ts), e')"
  shows "(\<forall>u. res = Ok u \<longrightarrow> granted g usages apis tokenID u)
    \<and> (\<forall>k b. holds_entry c e' k b \<longrightarrow> good_entry U g usages apis k b)
    \<and> (\<forall>t \<in> set ts. \<exists>k b ttl. t = RedisSet k b ttl \<and> good_entry U g usages apis k b)"
proof -
  let ?fetch = "usage_FindAllByTokenID g tokenID"
  obtain r d ts0 e0 where go: "GetOrFetch c (usages_json U) (ApiUsageListKey tokenID) ?fetch [] e
      = ((r, d, ts0), e0)" by (metis surj_pair)
  have good: "usages_for g usages apis tokenID v" if "?fetch e1 = (Ok v, e2)" for e1 v e2
    using usage_FindAllByTokenID_granted [OF gorm_lawD(1) [OF laws(2)] that] by (simp add: usages_for_def)
  have quiet: "no_new c e1 (snd (?fetch e1))" for e1
    by (auto simp: usage_FindAllByTokenID_def split: prod.splits dest: store_lawsD(6) [OF laws(1)])
  have "(r = Ok () \<longrightarrow> usages_for g usages apis tokenID d)
      \<and> (\<forall>k b. holds_entry c e0 k b \<longrightarrow> good_entry U g usages apis k b)
      \<and> (\<forall>t \<in> set ts0. \<exists>b ttl. t = RedisSet (ApiUsageListKey tokenID) b ttl
          \<and> good_entry U g usages apis (ApiUsageListKey tokenID) b)"
    by (rule GetOrFetch_keeps [where good = "good_entry U g usages apis",
          OF laws(1) usages_json_law _ good quiet good_entry_key(3) entries go])
      (auto simp: usages_for_def list_all_iff intro: gorm_lawD(2) [OF laws(2)])
  then show ?thesis
    using run go
    by (auto simp: FindByTokenAndEndpoint_def GetOrFetchSlice_def gorm_repositories_def usages_for_def
        first_match_Ok split: sum.splits)
qed

text \<open>The state of a run: entries and pending writes are good.\<close>

definition cache_inv ::
  "unicode_tables \<Rightarrow> 'e two_level_cache \<Rightarrow> 'e gorm \<Rightarrow> usage_row set \<Rightarrow> api_row set \<Rightarrow> 'e \<times> task list \<Rightarrow> bool" where
  "cache_inv U c g usages apis s \<longleftrightarrow>
     (\<forall>k b. holds_entry c (fst s) k b \<longrightarrow> good_entry U g usages apis k b)
     \<and> (\<forall>t \<in> set (snd s). \<exists>k b ttl. t = RedisSet k b ttl \<and> good_entry U g usages apis k b)"

lemma cache_step_inv:
  assumes "cache_step (json_queries U c g R) s s'" "store_laws c g" "gorm_law g usages apis"
    and "cache_inv U c g usages apis s"
  shows "cache_inv U c g usages apis s'"
  using assms(1,4)
proof (cases rule: cache_step.cases)
  case (look_token clientID e res ts' e' ts)
  then show ?thesis
    using FindByClientID_keeps [OF assms(2,3) _ look_token(3)] assms(4) by (auto simp: cache_inv_def)
next
  case (look_usage tokenID endpoint e res ts' e' ts)
  then show ?thesis
    using FindByTokenAndEndpoint_keeps [OF assms(2,3) _ look_usage(3)] assms(4) by (auto simp: cache_inv_def)
next
  case (look_domains tokenID e res ts' e' ts)
  then show ?thesis
    using FindAllByTokenID_keeps [OF assms(2,3) _ look_domains(3)] assms(4) by (auto simp: cache_inv_def)
next
  case (write_redis k b ttl e ok e' ts1 ts2)
  then have "only_new c e e' k b" using store_lawsD(3) [OF assms(2)] by simp
  then show ?thesis using write_redis assms(4) by (auto simp: cache_inv_def only_new_def)
next
  case (outside e' e ts)
  then show ?thesis
    using assms(4) good_entry_other by (fastforce simp: cache_inv_def)
qed

lemma cache_runs_inv:
  assumes "(cache_step (json_queries U c g R))\<^sup>*\<^sup>* s s'" "store_laws c g" "gorm_law g usages apis"
    and "cache_inv U c g usages apis s"
  shows "cache_inv U c g usages apis s'"
  using assms by (induction rule: rtranclp_induct) (auto intro: cache_step_inv)

lemma cache_runs_good:
  assumes "store_laws c g" "gorm_law g usages apis"
    and "\<And>k b. cache_key k \<Longrightarrow> \<not> holds_entry c e0 k b"
    and "(cache_step (json_queries U c g R))\<^sup>*\<^sup>* (e0, []) (e, ts)"
    and "holds_entry c e k b"
  shows "good_entry U g usages apis k b"
proof -
  have "cache_inv U c g usages apis (e0, [])"
    using assms(3) good_entry_other by (fastforce simp: cache_inv_def)
  then have "cache_inv U c g usages apis (e, ts)"
    by (rule cache_runs_inv [OF assms(4,1,2)])
  then show ?thesis using assms(5) by (simp add: cache_inv_def)
qed

subsection \<open>An example\<close>

text \<open>Two tables as caches and a database whose only token is the one of the example.\<close>

definition one_token_gorm :: "'a query_world_scheme gorm" where
  "one_token_gorm =
     demo_gorm\<lparr>gm_First := (\<lambda>p e. (if p demo_token then Ok demo_token else Err RecordNotFound, e))\<rparr>"

definition demo_queries :: "'a query_world_scheme query_deps" where
  "demo_queries = json_queries ascii_tables demo_cache one_token_gorm (\<lambda>_ _. False)"

lemma demo_store_laws: "store_laws demo_cache one_token_gorm"
  by (auto simp: store_laws_def only_new_def no_new_def holds_entry_def demo_cache_def table_cache_def
      table_redis_def one_token_gorm_def demo_gorm_def update_conv' split: if_splits option.splits)

lemma one_token_eq [simp]: "gm_eq one_token_gorm = (=)"
  by (simp add: one_token_gorm_def demo_gorm_def)

lemma demo_gorm_law:
  "gorm_law one_token_gorm {demo_usage_row\<lparr>ur_api_token_id := 8\<rparr>, demo_usage_row}
     {demo_api_row\<lparr>ar_api_id := ''b'', ar_domain := ''https://other.com''\<rparr>, demo_api_row}"
proof -
  have ascii: "utf8_valid ''client''" "utf8_valid ''app''" "utf8_valid ''hash''" "utf8_valid ''NORMAL''"
    "utf8_valid ''a''" "utf8_valid ''r''" "utf8_valid ''users''" "utf8_valid ''/users/{id}''"
    "utf8_valid ''https://api.example.com''" "utf8_valid ''GET''" "utf8_valid ''https://app.kr''"
    by (rule utf8_valid_ascii; simp add: is_ascii_def byte_def)+
  have "gm_Raw one_token_gorm = gm_Raw demo_gorm" by (simp add: one_token_gorm_def)
  then have raw: "raw_law one_token_gorm {demo_usage_row\<lparr>ur_api_token_id := 8\<rparr>, demo_usage_row}
     {demo_api_row\<lparr>ar_api_id := ''b'', ar_domain := ''https://other.com''\<rparr>, demo_api_row}"
    using demo_raw_law unfolding raw_law_def by metis
  have usage: "granted one_token_gorm {demo_usage_row\<lparr>ur_api_token_id := 8\<rparr>, demo_usage_row}
     {demo_api_row\<lparr>ar_api_id := ''b'', ar_domain := ''https://other.com''\<rparr>, demo_api_row} i u
     \<Longrightarrow> usage_clean u" for i u
    using ascii
    by (auto simp: granted_def usage_clean_def demo_usage_row_def demo_api_row_def int64_range_def)
  have clean: "token_clean demo_token" "domain_clean demo_domain"
    using ascii by (simp_all add: token_clean_def domain_clean_def demo_token_def demo_domain_def int64_range_def
        state_defs)
  have first: "gm_First one_token_gorm p e = (Ok t, e1) \<Longrightarrow> p t \<and> token_clean t" for p e t e1
    using clean by (auto simp: one_token_gorm_def split: if_splits)
  have find: "gm_Find one_token_gorm p e = ((ds, None), e1) \<Longrightarrow> \<forall>d \<in> set ds. p d \<and> domain_clean d" for p e ds e1
    using clean by (auto simp: one_token_gorm_def demo_gorm_def split: if_splits)
  show ?thesis unfolding gorm_law_def using raw usage first find by blast
qed

lemma demo_token_clean: "token_clean demo_token"
  using gorm_lawD(3) [OF demo_gorm_law [where 'a = unit], of "\<lambda>t. True" query_world0 demo_token query_world0]
  by (simp add: one_token_gorm_def)

subsection \<open>Properties\<close>

text \<open>C7: The caches never mix up clients. Start with caches that hold none of the program's keys and let
  any number of lookups of tokens, usages and domains happen, each writing to the memory cache at
  once and to Redis at some later time or never, while entries vanish and the database changes: at
  every moment a lookup of a client's token answers with a token that carries that client's id, a
  lookup of a usage with one that the token was granted and whose template matches the path, and a
  lookup of domains only with domains of that token.\<close>

theorem cache_runs_isolated:
  assumes "store_laws c g" "gorm_law g usages apis"
    and "\<And>k b. cache_key k \<Longrightarrow> \<not> holds_entry c e0 k b"
    and "(cache_step (json_queries U c g R))\<^sup>*\<^sup>* (e0, []) (e, ts)"
  shows "(\<forall>clientID t. fst (fst (FindByClientID (json_queries U c g R) clientID e)) = Ok t \<longrightarrow>
        gm_eq g (ApiTokenUUID t) clientID)
    \<and> (\<forall>tokenID path u. fst (fst (FindByTokenAndEndpoint (json_queries U c g R) tokenID path e)) = Ok u \<longrightarrow>
        granted g usages apis tokenID u \<and> matchesTemplate R (Endpoint u) (SplitFirst path CHR ''?''))
    \<and> (\<forall>tokenID ds. fst (fst (FindAllByTokenID (json_queries U c g R) tokenID e)) = Ok ds \<longrightarrow>
        (\<forall>d \<in> set ds. td_ApiTokenID d = tokenID))"
proof -
  note entries = cache_runs_good [OF assms]
  have path: "matchesTemplate R (Endpoint u) (SplitFirst path CHR ''?'')"
    if "fst (fst (FindByTokenAndEndpoint (json_queries U c g R) tokenID path e)) = Ok u" for tokenID path u
    using that by (auto simp: FindByTokenAndEndpoint_def first_match_Ok split: prod.splits sum.splits)
  show ?thesis
  proof (intro conjI allI impI ballI)
    fix clientID t
    assume r: "fst (fst (FindByClientID (json_queries U c g R) clientID e)) = Ok t"
    show "gm_eq g (ApiTokenUUID t) clientID"
      using FindByClientID_keeps [OF assms(1,2) entries surjective_pairs] r by (simp add: token_for_def)
  next
    fix tokenID path u
    assume r: "fst (fst (FindByTokenAndEndpoint (json_queries U c g R) tokenID path e)) = Ok u"
    show "granted g usages apis tokenID u"
      using FindByTokenAndEndpoint_keeps [OF assms(1,2) entries surjective_pairs] r by simp
    show "matchesTemplate R (Endpoint u) (SplitFirst path CHR ''?'')" using r by (rule path)
  next
    fix tokenID ds d
    assume r: "fst (fst (FindAllByTokenID (json_queries U c g R) tokenID e)) = Ok ds" "d \<in> set ds"
    show "td_ApiTokenID d = tokenID"
      using FindAllByTokenID_keeps [OF assms(1,2) entries surjective_pairs] r by (simp add: domains_for_def)
  qed
qed

text \<open>A token is looked up and written to Redis.\<close>

theorem cache_runs_isolated_witness:
  "\<exists>e b. (cache_step (demo_queries :: query_world query_deps))\<^sup>*\<^sup>* (query_world0, []) (e, [])
     \<and> tb_redis e = [(ApiTokenKey ''client'', b)]
     \<and> fst (fst (FindByClientID demo_queries ''client'' e)) = Ok demo_token
     \<and> (\<forall>clientID t. fst (fst (FindByClientID demo_queries clientID e)) = Ok t \<longrightarrow> ApiTokenUUID t = clientID)"
proof -
  let ?key = "ApiTokenKey ''client''" and ?q = "demo_queries :: query_world query_deps"
  obtain b where b: "cd_Marshal (token_json ascii_tables) demo_token = Ok b"
    "\<And>d. cd_Unmarshal (token_json ascii_tables) b d = (Ok (), demo_token)"
    using token_json_law demo_token_clean unfolding codec_law_def by blast
  define e1 where "e1 = query_world0\<lparr>tb_local := [(?key, b)]\<rparr>"
  define e2 where "e2 = e1\<lparr>tb_redis := [(?key, b)]\<rparr>"
  note defs = demo_queries_def FindByClientID_def GetOrFetch_def cache_lookup_def demo_cache_def table_cache_def
    table_redis_def gorm_repositories_def token_FindByClientID_def one_token_gorm_def demo_gorm_def
  have "FindByClientID ?q ''client'' query_world0 = ((Ok demo_token, [RedisSet ?key b (10 * time_Minute)]), e1)"
    using b by (simp add: defs e1_def query_world0_def) (simp add: demo_token_def)
  then have "cache_step ?q (query_world0, []) (e1, [] @ [RedisSet ?key b (10 * time_Minute)])"
    by (rule look_token)
  moreover have "cache_step ?q (e1, [] @ RedisSet ?key b (10 * time_Minute) # []) (e2, [] @ [])"
    by (rule write_redis [where ok = "Ok ()"])
      (simp add: demo_queries_def demo_cache_def table_redis_def e2_def e1_def query_world0_def)
  ultimately have run: "(cache_step ?q)\<^sup>*\<^sup>* (query_world0, []) (e2, [])"
    by (simp add: converse_rtranclp_into_rtranclp)
  have "\<forall>clientID t. fst (fst (FindByClientID ?q clientID e2)) = Ok t \<longrightarrow>
      gm_eq (one_token_gorm :: query_world gorm) (ApiTokenUUID t) clientID"
    unfolding demo_queries_def
    by (rule conjunct1 [OF cache_runs_isolated [OF demo_store_laws [where 'a = unit] demo_gorm_law _
          run [unfolded demo_queries_def]]])
      (simp add: holds_entry_def demo_cache_def table_cache_def table_redis_def query_world0_def)
  moreover have "fst (fst (FindByClientID ?q ''client'' e2)) = Ok demo_token"
    using b by (simp add: defs e2_def e1_def)
  ultimately show ?thesis
    using run by (intro exI [of _ e2] exI [of _ b]) (simp add: one_token_gorm_def demo_gorm_def e2_def)
qed

end
