(* ===== verification/RateLimiter.thy ===== *)
theory RateLimiter
  imports QueryServices
begin

text \<open>
  \<open>internal/domain/api/service/redis_rate_limiter.go\<close> and \<open>token_state_service.go\<close>: the counters of
  requests per minute and of concurrent requests that Redis keeps for each token, and the escalation
  of a token's state when the first exceeds a multiple of the second. Counters are \<open>int64\<close>.
\<close>

subsection \<open>State transitions\<close>

text \<open>The error is compared with \<open>==\<close>: a wrapped not-found error is passed on.\<close>

definition TransitionState :: "'e repositories \<Rightarrow> int \<Rightarrow> ('e, ApiTokenState result) action" where
  "TransitionState repo apiTokenID e =
     (case rp_FindByID repo apiTokenID e of
        (Err err, e1) \<Rightarrow> if err = RecordNotFound then (Ok [], e1) else (Err err, e1)
      | (Ok token, e1) \<Rightarrow>
          (case TransitionToNextState token of (token', next_state) \<Rightarrow>
             if next_state = [] then (Ok [], e1)
             else
               (case rp_Save repo token' e1 of
                  (Err err, e2) \<Rightarrow> (Err err, e2)
                | (Ok _, e2) \<Rightarrow> (Ok next_state, e2))))"

subsection \<open>Keys\<close>

definition rateLimitKeyPrefix :: gostring where
  "rateLimitKeyPrefix = ''api:ratelimit:''"

definition concurrentKeyPrefix :: gostring where
  "concurrentKeyPrefix = ''api:concurrent:''"

definition bucketTTL :: int where
  "bucketTTL = 5 * time_Minute"

definition concurrentTTL :: int where
  "concurrentTTL = 10 * time_Second"

record civil_time =
  ct_year :: nat
  ct_month :: nat
  ct_day :: nat
  ct_hour :: nat
  ct_minute :: nat

definition pad :: "nat \<Rightarrow> nat \<Rightarrow> gostring" where
  "pad w n = replicate (w - length (show_nat n)) CHR ''0'' @ show_nat n"

text \<open>\<open>Format("200601021504")\<close>.\<close>

definition Format_minute :: "civil_time \<Rightarrow> gostring" where
  "Format_minute t =
     pad 4 (ct_year t) @ pad 2 (ct_month t) @ pad 2 (ct_day t) @ pad 2 (ct_hour t) @ pad 2 (ct_minute t)"

record 'e redis_rate_limiter =
  rr_redis :: "'e redis_client"
  rr_thresholdMultiplier :: int64
  rr_now :: "'e \<Rightarrow> civil_time"

definition NewRedisRateLimiter ::
  "('e \<Rightarrow> civil_time) \<Rightarrow> 'e redis_client \<Rightarrow> rate_limit_config \<Rightarrow> 'e redis_rate_limiter" where
  "NewRedisRateLimiter now rc cfg =
     \<lparr>rr_redis = rc, rr_thresholdMultiplier = word_of_int (ThresholdMultiplier cfg), rr_now = now\<rparr>"

definition bucketKey :: "'e redis_rate_limiter \<Rightarrow> int \<Rightarrow> 'e \<Rightarrow> gostring" where
  "bucketKey r apiTokenID e =
     rateLimitKeyPrefix @ show_int apiTokenID @ '':'' @ Format_minute (rr_now r e)"

definition concurrentKey :: "int \<Rightarrow> gostring" where
  "concurrentKey apiTokenID = concurrentKeyPrefix @ show_int apiTokenID"

subsection \<open>Counters\<close>

definition IncrementAndGet :: "'e redis_rate_limiter \<Rightarrow> int \<Rightarrow> ('e, int64 result) action" where
  "IncrementAndGet r apiTokenID e =
     (let key = bucketKey r apiTokenID e in
      (case rd_Incr (rr_redis r) key e of
         (Err err, e1) \<Rightarrow> (Err err, e1)
       | (Ok n, e1) \<Rightarrow>
           if n = 1 then (Ok n, snd (rd_Expire (rr_redis r) key bucketTTL e1)) else (Ok n, e1)))"

definition IncrementConcurrent :: "'e redis_rate_limiter \<Rightarrow> int \<Rightarrow> ('e, int64 result) action" where
  "IncrementConcurrent r apiTokenID e =
     (let key = concurrentKey apiTokenID in
      (case rd_Incr (rr_redis r) key e of
         (Err err, e1) \<Rightarrow> (Err err, e1)
       | (Ok n, e1) \<Rightarrow> (Ok n, snd (rd_Expire (rr_redis r) key concurrentTTL e1))))"

definition DecrementConcurrent :: "'e redis_rate_limiter \<Rightarrow> int \<Rightarrow> ('e, int64 result) action" where
  "DecrementConcurrent r apiTokenID e =
     (let key = concurrentKey apiTokenID in
      (case rd_Decr (rr_redis r) key e of
         (Err err, e1) \<Rightarrow> (Err err, e1)
       | (Ok n, e1) \<Rightarrow>
           if sint n < 0 then (Ok 0, snd (rd_Set (rr_redis r) key (show_int 0) concurrentTTL e1))
           else (Ok n, e1)))"

definition GetConcurrent :: "'e redis_rate_limiter \<Rightarrow> int \<Rightarrow> ('e, int64 result) action" where
  "GetConcurrent r apiTokenID e =
     (case redis_GetInt (rr_redis r) (concurrentKey apiTokenID) e of
        (Err err, e1) \<Rightarrow> if err = RedisNil then (Ok 0, e1) else (Err err, e1)
      | (Ok val, e1) \<Rightarrow> (Ok (word_of_int val), e1))"

definition CheckAndUpdateState ::
  "'e redis_rate_limiter \<Rightarrow> 'e repositories \<Rightarrow> int \<Rightarrow> ('e, unit result) action" where
  "CheckAndUpdateState r repo apiTokenID e =
     (case GetConcurrent r apiTokenID e of
        (Err err, e1) \<Rightarrow> (Err err, e1)
      | (Ok concurrent, e1) \<Rightarrow>
          (case redis_GetInt (rr_redis r) (bucketKey r apiTokenID e1) e1 of
             (Err err, e2) \<Rightarrow> if err = RedisNil then (Ok (), e2) else (Err err, e2)
           | (Ok requestCount, e2) \<Rightarrow>
               let threshold = concurrent * rr_thresholdMultiplier r in
               if sint threshold < sint (word_of_int requestCount :: int64)
               then (case TransitionState repo apiTokenID e2 of
                       (Err err, e3) \<Rightarrow> (Err err, e3)
                     | (Ok _, e3) \<Rightarrow> (Ok (), e3))
               else (Ok (), e2)))"

text \<open>The interface \<open>RateLimiter\<close> of \<open>rate_limiter.go\<close>, and the limiter above as one.\<close>

record 'e rate_limiter =
  rl_IncrementAndGet :: "int \<Rightarrow> ('e, int64 result) action"
  rl_IncrementConcurrent :: "int \<Rightarrow> ('e, int64 result) action"
  rl_DecrementConcurrent :: "int \<Rightarrow> ('e, int64 result) action"
  rl_GetConcurrent :: "int \<Rightarrow> ('e, int64 result) action"
  rl_CheckAndUpdateState :: "'e repositories \<Rightarrow> int \<Rightarrow> ('e, unit result) action"

definition redis_limiter :: "'e redis_rate_limiter \<Rightarrow> 'e rate_limiter" where
  "redis_limiter r =
     \<lparr>rl_IncrementAndGet = IncrementAndGet r, rl_IncrementConcurrent = IncrementConcurrent r,
      rl_DecrementConcurrent = DecrementConcurrent r, rl_GetConcurrent = GetConcurrent r,
      rl_CheckAndUpdateState = CheckAndUpdateState r\<rparr>"

subsection \<open>The outside world of the properties\<close>

text \<open>
  Redis, the database and the clock as tables; \<open>rate_laws\<close> relates a limiter and a repository to
  them. Within one step nothing expires and the minute does not change.
\<close>

record rate_world = query_world +
  rw_now :: civil_time

definition table_limiter :: "int64 \<Rightarrow> 'a rate_world_scheme redis_rate_limiter" where
  "table_limiter k =
     \<lparr>rr_redis = table_redis tb_redis (\<lambda>t e. e\<lparr>tb_redis := t\<rparr>), rr_thresholdMultiplier = k,
      rr_now = rw_now\<rparr>"

definition counter :: "gostring \<Rightarrow> 'a tables_scheme \<Rightarrow> int" where
  "counter k e = redis_number (map_of (tb_redis e) k)"

lemma read_nat_replicate0: "read_nat (replicate n CHR ''0'' @ s) = read_nat s"
proof -
  have "foldl (\<lambda>a c. a * 10 + (byte c - 48)) 0 (replicate n CHR ''0'') = 0"
    by (induction n) (simp_all add: byte_def)
  then show ?thesis by (simp add: read_nat_def)
qed

lemma show_nat_length: "n < 10 ^ w \<Longrightarrow> 0 < w \<Longrightarrow> length (show_nat n) \<le> w"
proof (induction w arbitrary: n)
  case (Suc w)
  show ?case
  proof (cases "n < 10")
    case True
    then show ?thesis by (subst show_nat.simps) simp
  next
    case False
    then have "w \<noteq> 0" using Suc.prems by (cases w) auto
    moreover have "n div 10 < 10 ^ w" using Suc.prems by (simp add: less_mult_imp_div_less)
    ultimately have "length (show_nat (n div 10)) \<le> w" using Suc.IH by simp
    then show ?thesis using False by (subst show_nat.simps) simp
  qed
qed simp

lemma pad_length: "n < 10 ^ w \<Longrightarrow> 0 < w \<Longrightarrow> length (pad w n) = w"
  using show_nat_length [of n w] by (simp add: pad_def)

lemma pad_inject: "pad w m = pad w n \<Longrightarrow> m = n"
  by (metis pad_def read_nat_replicate0 read_show_nat)

definition civil_ok :: "civil_time \<Rightarrow> bool" where
  "civil_ok t \<longleftrightarrow> ct_year t < 10000 \<and> ct_month t < 100 \<and> ct_day t < 100 \<and> ct_hour t < 100 \<and> ct_minute t < 100"

lemma Format_minute_inject:
  assumes "civil_ok s" "civil_ok t" "Format_minute s = Format_minute t"
  shows "s = t"
proof -
  have len: "length (pad 4 (ct_year x)) = 4" "length (pad 2 (ct_month x)) = 2"
    "length (pad 2 (ct_day x)) = 2" "length (pad 2 (ct_hour x)) = 2" if "civil_ok x" for x
    using that by (simp_all add: civil_ok_def pad_length)
  have "pad 4 (ct_year s) = pad 4 (ct_year t) \<and> pad 2 (ct_month s) = pad 2 (ct_month t)
      \<and> pad 2 (ct_day s) = pad 2 (ct_day t) \<and> pad 2 (ct_hour s) = pad 2 (ct_hour t)
      \<and> pad 2 (ct_minute s) = pad 2 (ct_minute t)"
    using assms(3) len [OF assms(1)] len [OF assms(2)] unfolding Format_minute_def by simp
  then show ?thesis using pad_inject by (metis civil_time.surjective old.unit.exhaust)
qed

lemma append_colon_inject:
  assumes "a @ '':'' @ s = b @ '':'' @ t" "CHR '':'' \<notin> set a" "CHR '':'' \<notin> set b"
  shows "a = b \<and> s = t"
proof -
  have "takeWhile (\<lambda>c. c \<noteq> CHR '':'') (x @ '':'' @ y) = x" if "CHR '':'' \<notin> set x" for x y
    using that by (simp add: takeWhile_append takeWhile_eq_all_conv)
  then have "a = b" using assms by metis
  then show ?thesis using assms(1) by simp
qed

lemma sint_word_of_int: "- (2 ^ 63) \<le> i \<Longrightarrow> i < 2 ^ 63 \<Longrightarrow> sint (word_of_int i :: int64) = i"
  by (simp add: signed_of_int signed_take_bit_int_eq_self)

subsection \<open>Properties\<close>

text \<open>Counters are never shared by mistake: the key of a minute counter determines the token and the
  minute, and no minute counter has the key of a counter of concurrent requests.\<close>

theorem counter_keys_distinct:
  assumes "civil_ok (rr_now r e)" "civil_ok (rr_now r e')"
  shows "(bucketKey r i e = bucketKey r j e' \<longleftrightarrow> i = j \<and> rr_now r e = rr_now r e')
    \<and> (concurrentKey i = concurrentKey j \<longleftrightarrow> i = j) \<and> bucketKey r i e \<noteq> concurrentKey j"
proof -
  have "i = j \<and> Format_minute (rr_now r e) = Format_minute (rr_now r e')"
    if "bucketKey r i e = bucketKey r j e'"
    using that append_colon_inject [of "show_int i" _ "show_int j"] show_int_no_colon
    by (auto simp: bucketKey_def)
  then show ?thesis
    using Format_minute_inject [OF assms]
    by (auto simp: bucketKey_def concurrentKey_def rateLimitKeyPrefix_def concurrentKeyPrefix_def)
qed

definition noon :: civil_time where
  "noon = \<lparr>ct_year = 2025, ct_month = 3, ct_day = 1, ct_hour = 12, ct_minute = 5\<rparr>"

definition rate_world0 :: rate_world where
  "rate_world0 = \<lparr>tb_local = [], tb_redis = [], qw_token = demo_token, rw_now = noon\<rparr>"

theorem counter_keys_distinct_witness:
  "bucketKey (table_limiter 200) 7 rate_world0 \<noteq> bucketKey (table_limiter 200) 8 rate_world0"
  using counter_keys_distinct [of "table_limiter 200" rate_world0 rate_world0 7 8]
  by (simp add: table_limiter_def rate_world0_def noon_def civil_ok_def)

lemma table_GetInt:
  "redis_GetInt (table_redis rd wr) k e =
     (case map_of (rd e) k of None \<Rightarrow> (Err RedisNil, e) | Some b \<Rightarrow> (ParseInt64 b, e))"
  by (simp add: redis_GetInt_def table_redis_def split: option.splits)

lemma counter_update:
  assumes "- (2 ^ 63) \<le> n" "n < 2 ^ 63"
  shows "counter k' (e\<lparr>tb_redis := AList.update k (show_int n) (tb_redis e)\<rparr>) =
     (if k' = k then n else counter k' e)"
  using assms by (simp add: counter_def update_conv' redis_number_def ParseInt64_show)

lemma concurrent_counter_all:
  assumes "counter (concurrentKey i) e = n" "0 \<le> n" "n < 2 ^ 62"
  shows "fst (IncrementConcurrent (table_limiter k) i e) = Ok (word_of_int (n + 1))
    \<and> fst (DecrementConcurrent (table_limiter k) i e) = Ok (word_of_int (max 0 (n - 1)))
    \<and> counter key (snd (IncrementConcurrent (table_limiter k) i e)) =
        (if key = concurrentKey i then n + 1 else counter key e)
    \<and> counter key (snd (DecrementConcurrent (table_limiter k) i e)) =
        (if key = concurrentKey i then max 0 (n - 1) else counter key e)"
proof -
  let ?k = "concurrentKey i"
  have num: "redis_number (map_of (tb_redis e) ?k) = n" using assms(1) by (simp add: counter_def)
  have inc: "IncrementConcurrent (table_limiter k) i e =
      (Ok (word_of_int (n + 1)), e\<lparr>tb_redis := AList.update ?k (show_int (n + 1)) (tb_redis e)\<rparr>)"
    using num by (simp add: IncrementConcurrent_def table_limiter_def table_redis_def table_add_def Let_def)
  let ?d = "e\<lparr>tb_redis := AList.update ?k (show_int (n - 1)) (tb_redis e)\<rparr>"
  have sint: "sint (word_of_int (n - 1) :: int64) = n - 1"
    using assms(2,3) by (intro sint_word_of_int) auto
  have dec: "DecrementConcurrent (table_limiter k) i e =
      (if n - 1 < 0 then (Ok 0, ?d\<lparr>tb_redis := AList.update ?k (show_int 0) (tb_redis ?d)\<rparr>)
       else (Ok (word_of_int (n - 1)), ?d))"
    using num sint
    by (simp add: DecrementConcurrent_def table_limiter_def table_redis_def table_add_def Let_def)
  show ?thesis
  proof (cases "n = 0")
    case True
    have "counter key (?d\<lparr>tb_redis := AList.update ?k (show_int 0) (tb_redis ?d)\<rparr>) =
        (if key = ?k then 0 else counter key e)"
      using counter_update [of 0 key ?k ?d] counter_update [of "n - 1" key ?k e] assms(2,3) True by simp
    then show ?thesis
      using counter_update [of "n + 1" key ?k e] assms(2,3) True unfolding inc dec by simp
  next
    case False
    then show ?thesis
      using counter_update [of "n + 1" key ?k e] counter_update [of "n - 1" key ?k e] assms(2,3)
      unfolding inc dec by simp
  qed
qed

lemmas concurrent_counter_values =
  concurrent_counter_all [THEN conjunct1]
  concurrent_counter_all [THEN conjunct2, THEN conjunct1]
  concurrent_counter_all [THEN conjunct2, THEN conjunct2, THEN conjunct1]
  concurrent_counter_all [THEN conjunct2, THEN conjunct2, THEN conjunct2]

text \<open>The counter of concurrent requests counts: when Redis keeps what it is told and nothing expires, one
  started request adds one to the token's counter, one that has ended takes one off and never below
  zero, the reply is the new value, and no other counter changes.\<close>

theorem concurrent_counter:
  assumes "counter (concurrentKey i) e = n" "0 \<le> n" "n < 2 ^ 62"
  shows "fst (IncrementConcurrent (table_limiter k) i e) = Ok (word_of_int (n + 1))
    \<and> fst (DecrementConcurrent (table_limiter k) i e) = Ok (word_of_int (max 0 (n - 1)))
    \<and> counter key (snd (IncrementConcurrent (table_limiter k) i e)) =
        (if key = concurrentKey i then n + 1 else counter key e)
    \<and> counter key (snd (DecrementConcurrent (table_limiter k) i e)) =
        (if key = concurrentKey i then max 0 (n - 1) else counter key e)"
  using assms by (rule concurrent_counter_all)

theorem concurrent_counter_witness:
  "counter (concurrentKey 7) (snd (IncrementConcurrent (table_limiter 200) 7 rate_world0)) = 1"
  using concurrent_counter [of 7 rate_world0 0 200 "concurrentKey 7"]
  by (simp add: counter_def rate_world0_def redis_number_def)

lemma table_limiter_sel [simp]:
  "rr_thresholdMultiplier (table_limiter k) = k" "rr_now (table_limiter k) = rw_now"
  "rr_redis (table_limiter k) = table_redis tb_redis (\<lambda>t e. e\<lparr>tb_redis := t\<rparr>)"
  by (simp_all add: table_limiter_def)

text \<open>The counting operations on tables.\<close>

definition set_counter :: "gostring \<Rightarrow> int \<Rightarrow> 'a tables_scheme \<Rightarrow> 'a tables_scheme" where
  "set_counter k n e = e\<lparr>tb_redis := AList.update k (show_int n) (tb_redis e)\<rparr>"

lemma map_of_set_counter [simp]:
  "map_of (tb_redis (set_counter k n e)) k' = (if k' = k then Some (show_int n) else map_of (tb_redis e) k')"
  by (simp add: set_counter_def update_conv')

lemma IncrementConcurrent_table:
  "IncrementConcurrent (table_limiter k) i e =
     (Ok (word_of_int (counter (concurrentKey i) e + 1)),
      set_counter (concurrentKey i) (counter (concurrentKey i) e + 1) e)"
  by (simp add: IncrementConcurrent_def table_redis_def table_add_def Let_def counter_def set_counter_def)

lemma IncrementAndGet_table:
  "snd (IncrementAndGet (table_limiter k) i e) =
     set_counter (bucketKey (table_limiter k) i e) (counter (bucketKey (table_limiter k) i e) e + 1) e"
  by (simp add: IncrementAndGet_def table_redis_def table_add_def Let_def counter_def set_counter_def)

lemma DecrementConcurrent_table:
  assumes "counter (concurrentKey i) e = n" "0 < n" "n < 2 ^ 63"
  shows "DecrementConcurrent (table_limiter k) i e =
     (Ok (word_of_int (n - 1)), set_counter (concurrentKey i) (n - 1) e)"
proof -
  have "sint (word_of_int (n - 1) :: int64) = n - 1" using assms(2,3) by (intro sint_word_of_int) auto
  then show ?thesis using assms
    by (simp add: DecrementConcurrent_def table_redis_def table_add_def Let_def counter_def set_counter_def)
qed

text \<open>
  A repository over the same world: one token, found by its id and saved in place.
\<close>

lemma TransitionState_demo:
  "TransitionState demo_repo i e =
     (if i \<noteq> ApiTokenID (qw_token e) then (Ok [], e)
      else (case TransitionToNextState (qw_token e) of (t, next_state) \<Rightarrow>
        if next_state = [] then (Ok [], e) else (Ok next_state, e\<lparr>qw_token := t\<rparr>)))"
  by (simp add: TransitionState_def demo_repo_def split: prod.splits)

lemma CheckAndUpdateState_table:
  assumes "counter (concurrentKey i) e = c" "0 \<le> c" "c * sint k < 2 ^ 63" "0 \<le> sint k"
    and "map_of (tb_redis e) (bucketKey (table_limiter k) i e) = Some (show_int n)" "0 \<le> n" "n < 2 ^ 63"
    and "\<And>b. map_of (tb_redis e) (concurrentKey i) = Some b \<Longrightarrow> b = show_int c" "c < 2 ^ 63"
  shows "CheckAndUpdateState (table_limiter k) repo i e =
    (if c * sint k < n
     then (case TransitionState repo i e of (Err err, e3) \<Rightarrow> (Err err, e3) | (Ok _, e3) \<Rightarrow> (Ok (), e3))
     else (Ok (), e))"
proof -
  have get: "GetConcurrent (table_limiter k) i e = (Ok (word_of_int c), e)"
  proof (cases "map_of (tb_redis e) (concurrentKey i)")
    case None
    then show ?thesis using assms(1)
      by (simp add: GetConcurrent_def table_limiter_def table_GetInt counter_def redis_number_def)
  next
    case (Some b)
    then show ?thesis using assms(2,8,9) ParseInt64_show [of c]
      by (simp add: GetConcurrent_def table_limiter_def table_GetInt)
  qed
  have count: "redis_GetInt (table_redis tb_redis (\<lambda>t e. e\<lparr>tb_redis := t\<rparr>)) (bucketKey (table_limiter k) i e) e = (Ok n, e)"
    using assms(5-7) ParseInt64_show [of n] by (simp add: table_limiter_def table_GetInt)
  have "0 \<le> c * sint k" using assms(2,4) by (rule mult_nonneg_nonneg)
  then have "sint (word_of_int (c * sint k) :: int64) = c * sint k"
    using assms(3) by (intro sint_word_of_int) linarith+
  then have threshold: "sint ((word_of_int c :: int64) * k) = c * sint k"
    by simp
  have n: "sint (word_of_int n :: int64) = n" using assms(6,7) by (intro sint_word_of_int) auto
  show ?thesis
    by (simp add: CheckAndUpdateState_def get count Let_def threshold n del: of_int_mult)
qed

text \<open>C25: A token is escalated exactly when its requests of the current minute exceed the multiple of its
  concurrent requests: with \<open>c\<close> requests in flight (none when the counter has expired) and \<open>n\<close> in
  the minute, and no overflow, the next state is asked for if \<open>n > c * multiplier\<close>, and otherwise the
  check changes nothing but what reading the two counters changes; without a counter of the minute it
  does nothing.\<close>

theorem check_escalates_iff:
  assumes "rd_Get (rr_redis r) (concurrentKey i) e = (reply, e1)"
    and "reply = Err RedisNil \<and> c = 0 \<or> reply = Ok (show_int c)" "0 \<le> c" "c < 2 ^ 63"
    and "0 \<le> sint (rr_thresholdMultiplier r)" "c * sint (rr_thresholdMultiplier r) < 2 ^ 63"
    and "rd_Get (rr_redis r) (bucketKey r i e1) e1 = (minute, e2)"
    and "minute = Err RedisNil \<and> n = 0 \<or> minute = Ok (show_int n)" "0 \<le> n" "n < 2 ^ 63"
  shows "CheckAndUpdateState r repo i e =
    (if c * sint (rr_thresholdMultiplier r) < n
     then (case TransitionState repo i e2 of (Err err, e3) \<Rightarrow> (Err err, e3) | (Ok _, e3) \<Rightarrow> (Ok (), e3))
     else (Ok (), e2))"
proof -
  let ?k = "rr_thresholdMultiplier r"
  have get: "GetConcurrent r i e = (Ok (word_of_int c), e1)"
    using assms(1-4) ParseInt64_show [of c] by (auto simp: GetConcurrent_def redis_GetInt_def)
  have "0 \<le> c * sint ?k" using assms(3,5) by (rule mult_nonneg_nonneg)
  then have threshold: "sint ((word_of_int c :: int64) * ?k) = c * sint ?k"
    using sint_word_of_int [of "c * sint ?k"] assms(6) by simp
  have sint_n: "sint (word_of_int n :: int64) = n" using assms(9,10) by (intro sint_word_of_int) auto
  show ?thesis
  proof (cases minute)
    case (Inl err)
    then have "redis_GetInt (rr_redis r) (bucketKey r i e1) e1 = (Err RedisNil, e2)" "n = 0"
      using assms(7,8) by (auto simp: redis_GetInt_def)
    then show ?thesis
      using \<open>0 \<le> c * sint ?k\<close> by (simp add: CheckAndUpdateState_def get)
  next
    case (Inr b)
    then have "redis_GetInt (rr_redis r) (bucketKey r i e1) e1 = (Ok n, e2)"
      using assms(7-10) ParseInt64_show [of n] by (auto simp: redis_GetInt_def)
    then show ?thesis
      by (simp add: CheckAndUpdateState_def get Let_def threshold sint_n del: of_int_mult)
  qed
qed

theorem check_escalates_iff_witness:
  "State (qw_token (snd (CheckAndUpdateState (table_limiter 2) demo_repo 7
     (rate_world0\<lparr>tb_redis := [(concurrentKey 7, show_int 1),
        (bucketKey (table_limiter 2) 7 rate_world0, show_int 3)]\<rparr>)))) = StateWarning"
proof -
  let ?e = "rate_world0\<lparr>tb_redis := [(concurrentKey 7, show_int 1),
        (bucketKey (table_limiter 2) 7 rate_world0, show_int 3)]\<rparr>"
  have same: "bucketKey (table_limiter 2) 7 ?e = bucketKey (table_limiter 2) 7 rate_world0"
    by (simp add: bucketKey_def table_limiter_def rate_world0_def)
  have neq: "bucketKey (table_limiter 2) 7 rate_world0 \<noteq> concurrentKey 7"
    by (simp add: bucketKey_def concurrentKey_def rateLimitKeyPrefix_def concurrentKeyPrefix_def)
  have "sint (2 :: int64) = 2" by simp
  then have "CheckAndUpdateState (table_limiter 2) demo_repo 7 ?e =
      (case TransitionState demo_repo 7 ?e of (Err err, e3) \<Rightarrow> (Err err, e3) | (Ok _, e3) \<Rightarrow> (Ok (), e3))"
    using check_escalates_iff [of "table_limiter 2" 7 ?e "Ok (show_int 1)" ?e 1 "Ok (show_int 3)" ?e 3 demo_repo]
      same neq
    by (simp add: table_redis_def)
  then show ?thesis by (simp add: TransitionState_demo rate_world0_def demo_token_def)
qed

text \<open>
  The order in which the goroutines of one request touch the counters is open. Here the call is over
  before the state is checked: the request is counted, released, and then checked.
\<close>

definition quick_request :: "int64 \<Rightarrow> int \<Rightarrow> 'a rate_world_scheme \<Rightarrow> 'a rate_world_scheme" where
  "quick_request k i e =
     snd (CheckAndUpdateState (table_limiter k) demo_repo i
       (snd (DecrementConcurrent (table_limiter k) i
         (snd (IncrementAndGet (table_limiter k) i
           (snd (IncrementConcurrent (table_limiter k) i e)))))))"

lemma set_counter_simps [simp]:
  "rw_now (set_counter k n e) = rw_now e" "qw_token (set_counter k n e) = qw_token e"
  by (simp_all add: set_counter_def)

lemma counter_set_counter:
  "- (2 ^ 63) \<le> n \<Longrightarrow> n < 2 ^ 63 \<Longrightarrow> counter k' (set_counter k n e) = (if k' = k then n else counter k' e)"
  by (simp add: counter_def redis_number_def ParseInt64_show)

lemma quick_request_run:
  assumes "counter (concurrentKey i) w = 0" "counter (bucketKey (table_limiter k) i w) w = n"
    and "0 \<le> n" "n < 10" "ApiTokenID (qw_token w) = i" "State (qw_token w) \<in> {StateNormal, StateWarning}"
    and "0 \<le> sint k"
  shows "counter (concurrentKey i) (quick_request k i w) = 0
    \<and> counter (bucketKey (table_limiter k) i w) (quick_request k i w) = n + 1
    \<and> rw_now (quick_request k i w) = rw_now w
    \<and> qw_token (quick_request k i w) = fst (TransitionToNextState (qw_token w))"
proof -
  let ?c = "concurrentKey i" and ?b = "bucketKey (table_limiter k) i w"
  have neq: "?b \<noteq> ?c" "?c \<noteq> ?b"
    by (auto simp: bucketKey_def concurrentKey_def rateLimitKeyPrefix_def concurrentKeyPrefix_def)
  define w1 where "w1 = set_counter ?c 1 w"
  define w2 where "w2 = set_counter ?b (n + 1) w1"
  define w3 where "w3 = set_counter ?c 0 w2"
  note c = counter_set_counter [of 1] counter_set_counter [of 0] counter_set_counter [of "n + 1"]
  have key: "bucketKey (table_limiter k) i w1 = ?b" "bucketKey (table_limiter k) i w3 = ?b"
    by (simp_all add: bucketKey_def w1_def w2_def w3_def)
  have c1: "counter ?b w1 = n" using assms(2) neq by (simp add: w1_def c)
  have c2: "counter ?c w2 = 1" using assms(3,4) neq by (simp add: w2_def w1_def c)
  have c3: "counter ?c w3 = 0" "counter ?b w3 = n + 1"
    using assms(3,4) neq by (simp_all add: w3_def w2_def c)
  have "DecrementConcurrent (table_limiter k) i w2 = (Ok (word_of_int (1 - 1)), set_counter ?c (1 - 1) w2)"
    by (rule DecrementConcurrent_table [OF c2]) simp_all
  then have steps: "snd (DecrementConcurrent (table_limiter k) i
         (snd (IncrementAndGet (table_limiter k) i
           (snd (IncrementConcurrent (table_limiter k) i w))))) = w3"
    using assms(1) c1 key
    by (simp add: IncrementConcurrent_table IncrementAndGet_table w1_def [symmetric] w2_def [symmetric]
        w3_def)
  have m: "map_of (tb_redis w3) ?c = Some (show_int 0)" "map_of (tb_redis w3) ?b = Some (show_int (n + 1))"
    using neq by (simp_all add: w3_def w2_def)
  have "CheckAndUpdateState (table_limiter k) demo_repo i w3 =
      (if 0 * sint k < n + 1
       then (case TransitionState demo_repo i w3 of (Err err, e3) \<Rightarrow> (Err err, e3) | (Ok _, e3) \<Rightarrow> (Ok (), e3))
       else (Ok (), w3))"
    by (rule CheckAndUpdateState_table [OF c3(1)]) (use assms(3,4,7) m key in auto)
  moreover have "qw_token w3 = qw_token w" by (simp add: w3_def w2_def w1_def)
  moreover have "snd (TransitionToNextState (qw_token w)) \<noteq> []" using assms(6) by auto
  ultimately have "quick_request k i w = w3\<lparr>qw_token := fst (TransitionToNextState (qw_token w))\<rparr>"
    using assms(3,5) unfolding quick_request_def steps by (simp add: TransitionState_demo split: prod.splits)
  moreover have "rw_now w3 = rw_now w" by (simp add: w3_def w2_def w1_def)
  ultimately show ?thesis using c3 by (simp add: counter_def)
qed

text \<open>A request that ends before its own check punishes its token: whatever the multiplier, one single
  request of an idle token, in a minute without other requests, whose release overtakes its state
  check, moves a NORMAL token to WARNING, because the threshold is zero by then, and a second one
  blocks it.\<close>

theorem quick_request_escalates:
  fixes e :: "'a rate_world_scheme"
  assumes "tb_redis e = []" "qw_token e = t" "ApiTokenID t = i" "State t = StateNormal" "0 \<le> sint k"
  shows "State (qw_token (quick_request k i e)) = StateWarning
    \<and> State (qw_token (quick_request k i (quick_request k i e))) = StateBlocked"
proof -
  have zero: "counter (concurrentKey i) e = 0" by (simp add: counter_def assms(1) redis_number_def)
  have "counter (bucketKey (table_limiter k) i e) e = 0"
    by (simp add: counter_def assms(1) redis_number_def)
  then have one: "counter (concurrentKey i) (quick_request k i e) = 0
    \<and> counter (bucketKey (table_limiter k) i e) (quick_request k i e) = 1
    \<and> rw_now (quick_request k i e) = rw_now e
    \<and> qw_token (quick_request k i e) = fst (TransitionToNextState t)"
    using quick_request_run [where w = e and i = i and k = k and n = 0] zero assms by simp
  moreover have "bucketKey (table_limiter k) i (quick_request k i e) = bucketKey (table_limiter k) i e"
    using one by (simp add: bucketKey_def)
  ultimately have "qw_token (quick_request k i (quick_request k i e)) =
      fst (TransitionToNextState (fst (TransitionToNextState t)))"
    using quick_request_run [where w = "quick_request k i e" and i = i and k = k and n = 1] assms by simp
  then show ?thesis using one assms by simp
qed

theorem quick_request_escalates_witness:
  "State (qw_token (quick_request 200 7 rate_world0)) = StateWarning"
  using quick_request_escalates [of rate_world0 demo_token 7 200]
  by (simp add: rate_world0_def demo_token_def)

text \<open>Two escalations block for good: from NORMAL or an empty state, any two or more calls of
  \<open>TransitionState\<close> leave the stored token BLOCKED, and from then on the call reports no change and
  saves nothing.\<close>

theorem transitions_block_for_good:
  fixes e :: "'a query_world_scheme"
  assumes "ApiTokenID (qw_token e) = i" "State (qw_token e) \<in> {StateNormal, []}"
    and "w = ((\<lambda>x. snd (TransitionState demo_repo i x)) ^^ (n + 2)) e"
  shows "State (qw_token w) = StateBlocked \<and> TransitionState demo_repo i w = (Ok [], w)"
proof -
  have keep: "ApiTokenID (qw_token (snd (TransitionState demo_repo i x))) = ApiTokenID (qw_token x)"
    for x :: "'a query_world_scheme"
    by (auto simp: TransitionState_demo TransitionToNextState_def split: if_splits)
  have blocked: "TransitionState demo_repo i x = (Ok [], x)" if "State (qw_token x) = StateBlocked"
    for x :: "'a query_world_scheme"
    using that by (simp add: TransitionState_demo)
  define f where "f x = snd (TransitionState demo_repo i x)" for x :: "'a query_world_scheme"
  have "TransitionToNextState (qw_token e) = ((qw_token e)\<lparr>State := StateWarning\<rparr>, StateWarning)"
    using assms(2) by auto
  then have one: "f e = e\<lparr>qw_token := (qw_token e)\<lparr>State := StateWarning\<rparr>\<rparr>"
    using assms(1) by (simp add: f_def TransitionState_demo)
  have "f x = x\<lparr>qw_token := (qw_token x)\<lparr>State := StateBlocked\<rparr>\<rparr>"
    if "State (qw_token x) = StateWarning" "ApiTokenID (qw_token x) = i" for x
    using that by (simp add: f_def TransitionState_demo)
  from this [of "f e"] have two: "State (qw_token (f (f e))) = StateBlocked"
    using assms(1) one by simp
  have fixed: "f (f (f e)) = f (f e)"
    using blocked [OF two] unfolding f_def [of "f (f e)"] by simp
  have "(f ^^ n) (f (f e)) = f (f e)"
    by (induction n) (simp_all add: fixed)
  moreover have "w = (f ^^ n) (f (f e))"
    unfolding assms(3) f_def [abs_def, symmetric] by (simp add: funpow_swap1)
  ultimately have "w = f (f e)" by simp
  then show ?thesis using two blocked by simp
qed

theorem transitions_block_for_good_witness:
  "State (qw_token (((\<lambda>x. snd (TransitionState demo_repo 7 x)) ^^ (1 + 2)) rate_world0)) = StateBlocked"
  using transitions_block_for_good [of rate_world0 7 _ 1] by (simp add: rate_world0_def demo_token_def)

end
