(* ===== verification/RequestInfo.thy ===== *)
theory RequestInfo
  imports GoStrings
begin

text \<open>
  \<open>internal/domain/api/model/request_info.go\<close>, with the parts of \<open>net/http\<close> the program reads: the
  request, and header maps whose keys are in canonical form (\<open>Get\<close> and \<open>Set\<close> bring the given name
  into that form, ranging over the map does not).
\<close>

subsection \<open>HTTP requests and headers\<close>

type_synonym http_header = "(gostring, gostring list) gomap"

definition Header_Get :: "http_header \<Rightarrow> gostring \<Rightarrow> gostring" where
  "Header_Get h key =
     (case map_of h (CanonicalHeaderKey key) of Some (v # vs) \<Rightarrow> v | _ \<Rightarrow> [])"

definition Header_Set :: "http_header \<Rightarrow> gostring \<Rightarrow> gostring \<Rightarrow> http_header" where
  "Header_Set h key v = AList.update (CanonicalHeaderKey key) [v] h"

text \<open>\<open>rq_Scheme\<close>, \<open>rq_Path\<close> and \<open>rq_RawQuery\<close> are the fields of the request's \<open>URL\<close>.\<close>

record http_request =
  rq_Method :: gostring
  rq_Scheme :: gostring
  rq_Host :: gostring
  rq_Path :: gostring
  rq_RawQuery :: gostring
  rq_Header :: http_header
  rq_RemoteAddr :: gostring

subsection \<open>The request to forward\<close>

definition BrowserBasePath :: gostring where
  "BrowserBasePath = ''/proxy-browser''"

definition ServerBasePath :: gostring where
  "ServerBasePath = ''/proxy-server''"

record request_info =
  ri_Headers :: "(gostring, gostring) gomap"
  ri_Body :: bytes
  ri_Endpoint :: gostring
  ri_Method :: gostring

definition resolveBasePath :: "gostring \<Rightarrow> gostring" where
  "resolveBasePath path =
     (if HasPrefix path BrowserBasePath then BrowserBasePath
      else if HasPrefix path ServerBasePath then ServerBasePath
      else [])"

definition extractEndpoint :: "http_request \<Rightarrow> gostring" where
  "extractEndpoint r =
     (let path = rq_Path r;
          query = rq_RawQuery r;
          base = resolveBasePath path;
          endpoint = drop (length base) path;
          endpoint1 = (if HasPrefix endpoint ''//'' then ''/'' @ TrimLeftByte endpoint CHR ''/''
                       else endpoint)
      in if query \<noteq> [] then endpoint1 @ ''?'' @ query else endpoint1)"

definition filteredRequestHeaders :: "gostring list" where
  "filteredRequestHeaders = [''bssm-dev-token'', ''bssm-dev-secret'', ''host'']"

text \<open>The body of the \<open>range\<close> loop for one header, with the map built so far.\<close>

definition extract_header :: "unicode_tables \<Rightarrow> gostring \<times> gostring list
    \<Rightarrow> (gostring, gostring) gomap \<Rightarrow> (gostring, gostring) gomap" where
  "extract_header U h headers =
     (case h of (name, values) \<Rightarrow>
        if ToLower U name \<in> set filteredRequestHeaders then headers
        else (case values of [] \<Rightarrow> headers | v # vs \<Rightarrow> AList.update name v headers))"

definition extractHeaders :: "unicode_tables \<Rightarrow> http_request \<Rightarrow> (gostring, gostring) gomap" where
  "extractHeaders U r = fold (extract_header U) (rq_Header r) []"

definition NewRequestInfo :: "unicode_tables \<Rightarrow> http_request \<Rightarrow> bytes \<Rightarrow> request_info" where
  "NewRequestInfo U r body =
     \<lparr>ri_Headers = extractHeaders U r, ri_Body = body, ri_Endpoint = extractEndpoint r,
      ri_Method = rq_Method r\<rparr>"

lemmas request_defs [header_simps] =
  BrowserBasePath_def ServerBasePath_def resolveBasePath_def extractEndpoint_def
  extractHeaders_def extract_header_def filteredRequestHeaders_def

subsection \<open>Headers\<close>

lemma Header_Get_Set: "Header_Get (Header_Set h k v) k = v"
  by (simp add: Header_Get_def Header_Set_def update_conv)

lemma extract_header_wf: "gomap_wf m \<Longrightarrow> gomap_wf (extract_header U h m)"
  by (auto simp: extract_header_def split: prod.splits list.splits)

lemma map_of_extract_header:
  "map_of (extract_header U (name, values) m) k =
     (if k = name \<and> ToLower U name \<notin> set filteredRequestHeaders \<and> values \<noteq> []
      then Some (hd values) else map_of m k)"
  by (auto simp: extract_header_def update_conv split: list.splits)

lemma fold_extract_wf: "gomap_wf m \<Longrightarrow> gomap_wf (fold (extract_header U) hs m)"
  by (induction hs arbitrary: m) (simp_all add: extract_header_wf)

lemma map_of_fold_extract:
  assumes "gomap_wf hs"
  shows "map_of (fold (extract_header U) hs m) k =
    (case map_of hs k of
       Some (v # vs) \<Rightarrow> if ToLower U k \<in> set filteredRequestHeaders then map_of m k else Some v
     | _ \<Rightarrow> map_of m k)"
  using assms
proof (induction hs arbitrary: m)
  case Nil
  then show ?case by simp
next
  case (Cons h hs)
  obtain name vals where h: "h = (name, vals)" by (cases h)
  have "map_of hs name = None" "gomap_wf hs"
    using Cons.prems by (auto simp: h map_of_eq_None_iff)
  then show ?case
    using Cons.IH [of "extract_header U h m"]
    by (auto simp: h map_of_extract_header split: list.splits option.splits)
qed

subsection \<open>Properties\<close>

text \<open>C39: The headers passed upstream are exactly the first values of the request's headers, without the
  token, the secret and the host header in whatever case they are written; the order in which Go
  ranges over the map does not matter. So the client's proxy credentials never leave the proxy.\<close>

theorem forwarded_headers:
  assumes "gomap_wf (rq_Header r)"
  shows "map_of (extractHeaders U r) k =
      (if ToLower U k \<in> {''bssm-dev-token'', ''bssm-dev-secret'', ''host''} then None
       else Option.bind (map_of (rq_Header r) k) (\<lambda>vs. if vs = [] then None else Some (hd vs)))
    \<and> gomap_wf (extractHeaders U r)"
proof -
  have "gomap_wf (extractHeaders U r)"
    unfolding extractHeaders_def by (rule fold_extract_wf) simp
  moreover have "map_of (extractHeaders U r) k =
    (case map_of (rq_Header r) k of
       Some (v # vs) \<Rightarrow> if ToLower U k \<in> set filteredRequestHeaders then None else Some v
     | _ \<Rightarrow> None)"
    using map_of_fold_extract [OF assms, of U "[]" k] by (simp add: extractHeaders_def split: option.splits list.splits)
  ultimately show ?thesis
    by (auto simp: filteredRequestHeaders_def split: option.splits list.splits)
qed

definition demo_request :: http_request where
  "demo_request =
     \<lparr>rq_Method = ''GET'', rq_Scheme = '''', rq_Host = ''proxy'', rq_Path = ''/proxy-browser//v1/users'',
      rq_RawQuery = ''page=2'',
      rq_Header = [(''Bssm-Dev-Token'', [''secret'']), (''Accept'', [''application/json'', ''text/plain''])],
      rq_RemoteAddr = ''192.0.2.1:1234''\<rparr>"

theorem forwarded_headers_witness:
  "map_of (extractHeaders ascii_tables demo_request) ''Accept'' = Some ''application/json''
    \<and> map_of (extractHeaders ascii_tables demo_request) ''Bssm-Dev-Token'' = None"
proof -
  have low: "ToLower ascii_tables ''Accept'' = ''accept''"
    "ToLower ascii_tables ''Bssm-Dev-Token'' = ''bssm-dev-token''"
    by (subst ToLower_ascii; simp add: is_ascii_def lower_byte_def byte_def char_of_eq_iff)+
  have wf: "gomap_wf (rq_Header demo_request)" by (simp add: demo_request_def)
  show ?thesis
    using forwarded_headers [OF wf, of ascii_tables "''Accept''"]
      forwarded_headers [OF wf, of ascii_tables "''Bssm-Dev-Token''"] low
    by (simp add: demo_request_def)
qed

lemma dropWhile_no_prefix: "dropWhile (\<lambda>x. x = c) s = c # t \<Longrightarrow> P"
  using hd_dropWhile [of "\<lambda>x. x = c" s] by auto

text \<open>The endpoint is the path after the proxy's own prefix, followed by \<open>?\<close> and the raw query when
  there is one; leading slashes are collapsed to one, so that the endpoint never starts with \<open>//\<close>
  (which would name another host), and a path without doubled slashes is not changed.\<close>

theorem endpoint_of_path:
  assumes "pre \<in> {''/proxy-browser'', ''/proxy-server''}" "rq_Path r = pre @ rest"
  shows "\<not> HasPrefix (extractEndpoint r) ''//''
    \<and> (\<exists>e. extractEndpoint r = e @ (if rq_RawQuery r = [] then [] else ''?'' @ rq_RawQuery r)
        \<and> (if HasPrefix rest ''//'' then HasPrefix e ''/'' \<and> HasSuffix rest e
           else e = rest))"
proof -
  have base: "resolveBasePath (pre @ rest) = pre"
    using assms(1) by (auto simp: resolveBasePath_def HasPrefix_def BrowserBasePath_def ServerBasePath_def)
  define e where "e = (if HasPrefix rest ''//'' then ''/'' @ TrimLeftByte rest CHR ''/'' else rest)"
  have form: "extractEndpoint r = e @ (if rq_RawQuery r = [] then [] else ''?'' @ rq_RawQuery r)"
    using assms(2) base by (simp add: extractEndpoint_def e_def Let_def)
  have no: "\<not> HasPrefix (e @ t) ''//''" if "t = [] \<or> hd t \<noteq> CHR ''/''" for t
  proof
    assume prefix: "HasPrefix (e @ t) ''//''"
    show False
    proof (cases "HasPrefix rest ''//''")
      case True
      then obtain s where s: "e = CHR ''/'' # TrimLeftByte rest CHR ''/''" by (simp add: e_def)
      show False
      proof (cases "TrimLeftByte rest CHR ''/''")
        case Nil
        then show False using prefix s that by (cases t) (auto simp: HasPrefix_def)
      next
        case (Cons c cs)
        then have "c = CHR ''/''" using prefix s by (simp add: HasPrefix_def)
        then show False using Cons dropWhile_no_prefix by (simp add: TrimLeftByte_def)
      qed
    next
      case False
      then have "e = rest" by (simp add: e_def)
      with prefix that False show False
        by (cases rest; cases t; cases "tl rest") (auto simp: HasPrefix_def)
    qed
  qed
  have "HasSuffix rest e" if two: "HasPrefix rest ''//''"
  proof -
    obtain u where u: "rest = CHR ''/'' # CHR ''/'' # u" using two by (auto simp: HasPrefix_iff)
    have "rest = takeWhile (\<lambda>x. x = CHR ''/'') rest @ TrimLeftByte rest CHR ''/''"
      by (simp add: TrimLeftByte_def)
    moreover have "takeWhile (\<lambda>x. x = CHR ''/'') rest \<noteq> []" using u by simp
    moreover have "last (takeWhile (\<lambda>x. x = CHR ''/'') rest) = CHR ''/''"
      using calculation(2) last_in_set set_takeWhileD by fastforce
    ultimately have "rest = butlast (takeWhile (\<lambda>x. x = CHR ''/'') rest) @ ''/'' @ TrimLeftByte rest CHR ''/''"
      using append_butlast_last_id [of "takeWhile (\<lambda>x. x = CHR ''/'') rest"]
      by (metis append.assoc)
    then have "rest = butlast (takeWhile (\<lambda>x. x = CHR ''/'') rest) @ e"
      unfolding e_def by (simp only: two if_True)
    then show ?thesis unfolding HasSuffix_iff by blast
  qed
  moreover have "HasPrefix e ''/''" if "HasPrefix rest ''//''"
    using that by (simp add: e_def HasPrefix_def)
  moreover have "e = rest" if "\<not> HasPrefix rest ''//''"
    using that by (simp add: e_def)
  ultimately have "if HasPrefix rest ''//'' then HasPrefix e ''/'' \<and> HasSuffix rest e else e = rest"
    by simp
  moreover have "\<not> HasPrefix (extractEndpoint r) ''//''"
    unfolding form by (rule no) simp
  ultimately show ?thesis using form by blast
qed

theorem endpoint_of_path_witness: "\<not> HasPrefix (extractEndpoint demo_request) ''//''"
  using endpoint_of_path [of "''/proxy-browser''" demo_request "''//v1/users''"]
  by (simp add: demo_request_def)

end
