(* ===== verification/GoURL.thy ===== *)
theory GoURL
  imports GoNet
begin

text \<open>
  \<open>url.Parse\<close> and \<open>URL.Hostname\<close> of Go's package \<open>net/url\<close> (Go 1.23), as far as scheme and host are
  concerned: \<open>None\<close> is a parse error. The other components only matter for the errors their
  unescaping can give.
\<close>

subsection \<open>Cutting strings\<close>

definition cut_before :: "gostring \<Rightarrow> char \<Rightarrow> gostring" where
  "cut_before s c = takeWhile (\<lambda>x. x \<noteq> c) s"

definition cut_after :: "gostring \<Rightarrow> char \<Rightarrow> gostring" where
  "cut_after s c = drop 1 (dropWhile (\<lambda>x. x \<noteq> c) s)"

text \<open>What follows the last \<open>c\<close>, all of \<open>s\<close> when there is none; and what precedes it.\<close>

definition last_after :: "gostring \<Rightarrow> char \<Rightarrow> gostring" where
  "last_after s c = rev (takeWhile (\<lambda>x. x \<noteq> c) (rev s))"

definition last_before :: "gostring \<Rightarrow> char \<Rightarrow> gostring" where
  "last_before s c = rev (drop 1 (dropWhile (\<lambda>x. x \<noteq> c) (rev s)))"

subsection \<open>Percent encoding\<close>

datatype url_encoding = EncodePath | EncodeHost | EncodeZone | EncodeUserPassword | EncodeFragment

definition is_alpha :: "char \<Rightarrow> bool" where
  "is_alpha c \<longleftrightarrow> (0x61 \<le> byte c \<and> byte c \<le> 0x7A) \<or> (0x41 \<le> byte c \<and> byte c \<le> 0x5A)"

text \<open>\<open>shouldEscape\<close> for the two host modes, which treat all bytes alike.\<close>

definition shouldEscape_host :: "char \<Rightarrow> bool" where
  "shouldEscape_host c \<longleftrightarrow>
     \<not> (is_alpha c \<or> is_digit c \<or> c \<in> set ''!$&()*+,;=:[]<>-_.~'' \<or> byte c \<in> {0x22, 0x27})"

definition unhex2 :: "char \<Rightarrow> char \<Rightarrow> char" where
  "unhex2 a b = char_of (hex_value a * 16 + hex_value b)"

text \<open>\<open>unescape\<close>; a plus sign is only special in query components, which the parser leaves alone.\<close>

function unescape :: "url_encoding \<Rightarrow> gostring \<Rightarrow> gostring option" where
  "unescape mode s =
     (case s of
        [] \<Rightarrow> Some []
      | c # cs \<Rightarrow>
          if c = CHR ''%'' then
            (case cs of
               a # b # rest \<Rightarrow>
                 if \<not> is_hex a \<or> \<not> is_hex b then None
                 else if mode = EncodeHost \<and> hex_value a < 8 \<and> [a, b] \<noteq> ''25'' then None
                 else if mode = EncodeZone \<and> [a, b] \<noteq> ''25'' \<and> unhex2 a b \<noteq> CHR '' ''
                     \<and> shouldEscape_host (unhex2 a b) then None
                 else map_option ((#) (unhex2 a b)) (unescape mode rest)
             | _ \<Rightarrow> None)
          else if (mode = EncodeHost \<or> mode = EncodeZone) \<and> is_ascii c \<and> shouldEscape_host c then None
          else map_option ((#) c) (unescape mode cs))"
  by pat_completeness auto
termination
  by (relation "measure (\<lambda>(mode, s). length s)") auto

declare unescape.simps [simp del]

subsection \<open>The authority\<close>

definition validOptionalPort :: "gostring \<Rightarrow> bool" where
  "validOptionalPort port \<longleftrightarrow>
     port = [] \<or> (hd port = CHR '':'' \<and> list_all is_digit (tl port))"

fun index_of :: "gostring \<Rightarrow> gostring \<Rightarrow> nat option" where
  "index_of [] p = (if p = [] then Some 0 else None)"
| "index_of (c # cs) p =
     (if HasPrefix (c # cs) p then Some 0 else map_option Suc (index_of cs p))"

definition parseHost :: "gostring \<Rightarrow> gostring option" where
  "parseHost host =
     (if HasPrefix host ''['' then
        if CHR '']'' \<notin> set host then None
        else let colonPort = last_after host CHR '']''; before = last_before host CHR '']'' in
          if \<not> validOptionalPort colonPort then None
          else
            (case index_of before ''%25'' of
               Some zone \<Rightarrow>
                 Option.bind (unescape EncodeHost (take zone before)) (\<lambda>host1.
                 Option.bind (unescape EncodeZone (drop zone before)) (\<lambda>host2.
                 map_option (\<lambda>host3. host1 @ host2 @ host3)
                   (unescape EncodeHost ('']'' @ colonPort))))
             | None \<Rightarrow> unescape EncodeHost host)
      else if CHR '':'' \<in> set host \<and> \<not> validOptionalPort ('':'' @ last_after host CHR '':'') then None
      else unescape EncodeHost host)"

definition userinfo_rune :: "char \<Rightarrow> bool" where
  "userinfo_rune c \<longleftrightarrow>
     is_alpha c \<or> is_digit c \<or> c \<in> set ''-._:~!$&()*+,;=%@'' \<or> byte c = 0x27"

definition unescape_user :: "gostring \<Rightarrow> bool" where
  "unescape_user userinfo \<longleftrightarrow>
     (if CHR '':'' \<notin> set userinfo then unescape EncodeUserPassword userinfo \<noteq> None
      else unescape EncodeUserPassword (cut_before userinfo CHR '':'') \<noteq> None
        \<and> unescape EncodeUserPassword (cut_after userinfo CHR '':'') \<noteq> None)"

definition parseAuthority :: "gostring \<Rightarrow> gostring option" where
  "parseAuthority authority =
     (if CHR ''@'' \<notin> set authority then parseHost authority
      else
        (case parseHost (last_after authority CHR ''@'') of
           None \<Rightarrow> None
         | Some host \<Rightarrow>
             let userinfo = last_before authority CHR ''@'' in
             if \<not> list_all userinfo_rune userinfo then None
             else if \<not> unescape_user userinfo then None
             else Some host))"

subsection \<open>The URL\<close>

record url =
  url_Scheme :: gostring
  url_Host :: gostring

definition scheme_char :: "char \<Rightarrow> bool" where
  "scheme_char c \<longleftrightarrow> is_alpha c \<or> is_digit c \<or> c \<in> set ''+-.''"

text \<open>\<open>getScheme\<close>: the scheme (empty when there is none) and the rest.\<close>

definition getScheme :: "gostring \<Rightarrow> (gostring \<times> gostring) option" where
  "getScheme s =
     (case dropWhile scheme_char s of
        c # rest \<Rightarrow>
          if c = CHR '':'' then
            if hd s = CHR '':'' then None
            else if is_alpha (hd s) then Some (takeWhile scheme_char s, rest)
            else Some ([], s)
          else Some ([], s)
      | [] \<Rightarrow> Some ([], s))"

definition ctl_byte :: "char \<Rightarrow> bool" where
  "ctl_byte c \<longleftrightarrow> byte c < 0x20 \<or> byte c = 0x7F"

definition parse_rest :: "gostring \<Rightarrow> gostring \<Rightarrow> url option" where
  "parse_rest scheme rest0 =
     (let rest = cut_before rest0 CHR ''?''; lower = map lower_byte scheme in
      if \<not> HasPrefix rest ''/'' \<and> scheme \<noteq> [] then Some \<lparr>url_Scheme = lower, url_Host = []\<rparr>
      else if \<not> HasPrefix rest ''/'' \<and> CHR '':'' \<in> set (cut_before rest CHR ''/'') then None
      else if (scheme \<noteq> [] \<or> \<not> HasPrefix rest ''///'') \<and> HasPrefix rest ''//'' then
        (case parseAuthority (cut_before (drop 2 rest) CHR ''/'') of
           None \<Rightarrow> None
         | Some host \<Rightarrow>
             if unescape EncodePath (dropWhile (\<lambda>x. x \<noteq> CHR ''/'') (drop 2 rest)) = None then None
             else Some \<lparr>url_Scheme = lower, url_Host = host\<rparr>)
      else if unescape EncodePath rest = None then None
      else Some \<lparr>url_Scheme = lower, url_Host = []\<rparr>)"

definition url_Parse :: "gostring \<Rightarrow> url option" where
  "url_Parse rawURL =
     (let u = cut_before rawURL CHR ''#''; frag = cut_after rawURL CHR ''#'' in
      if list_ex ctl_byte u then None
      else if unescape EncodeFragment frag = None then None
      else if u = ''*'' then Some \<lparr>url_Scheme = [], url_Host = []\<rparr>
      else Option.bind (getScheme u) (\<lambda>(scheme, rest). parse_rest scheme rest))"

definition Hostname :: "url \<Rightarrow> gostring" where
  "Hostname u =
     (let hostPort = url_Host u;
          host = (if CHR '':'' \<in> set hostPort \<and> validOptionalPort ('':'' @ last_after hostPort CHR '':'')
                  then last_before hostPort CHR '':'' else hostPort) in
      if HasPrefix host ''['' \<and> HasSuffix host '']'' then take (length host - 2) (drop 1 host) else host)"

subsection \<open>Appending a path to a URL\<close>

lemma takeWhile_append_cases:
  "takeWhile P (s @ t) = (if \<exists>x \<in> set s. \<not> P x then takeWhile P s else s @ takeWhile P t)"
  by (simp add: takeWhile_append)

lemma cut_before_append:
  "cut_before (s @ t) c = (if c \<in> set s then cut_before s c else s @ cut_before t c)"
  by (auto simp: cut_before_def takeWhile_append_cases)

lemma cut_before_id: "c \<notin> set s \<Longrightarrow> cut_before s c = s"
  by (simp add: cut_before_def takeWhile_eq_all_conv) blast

text \<open>
  Appending text that starts with a slash leaves what the parser sees of a URL with a host
  unchanged up to the end of the authority: \<open>tail\<close> is what the appended text adds after cutting.
\<close>

lemma getScheme_append:
  assumes "getScheme s = Some (scheme, rest)" "scheme \<noteq> []"
  shows "getScheme (s @ t) = Some (scheme, rest @ t)"
proof -
  obtain r where drop: "dropWhile scheme_char s = CHR '':'' # r"
    and s: "is_alpha (hd s)" "hd s \<noteq> CHR '':''" "scheme = takeWhile scheme_char s" "rest = r"
    using assms by (auto simp: getScheme_def split: list.splits if_splits)
  obtain x where x: "x \<in> set s" "\<not> scheme_char x"
    using drop by (metis dropWhile_eq_Nil_conv list.distinct(1))
  then have "dropWhile scheme_char (s @ t) = CHR '':'' # r @ t"
    "takeWhile scheme_char (s @ t) = takeWhile scheme_char s"
    using drop by (metis append_Cons dropWhile_append1, metis takeWhile_append1)
  moreover have "hd (s @ t) = hd s" using x by (cases s) auto
  ultimately show ?thesis using s by (simp add: getScheme_def)
qed

lemma parse_rest_Host:
  assumes "parse_rest scheme rest = Some u" "url_Host u \<noteq> []"
  shows "\<exists>a r. cut_before rest CHR ''?'' = ''//'' @ r \<and> a = cut_before r CHR ''/''
    \<and> parseAuthority a = Some (url_Host u)"
  using assms
  by (auto simp: parse_rest_def Let_def HasPrefix_iff split: if_splits option.splits)

lemma parse_rest_append:
  assumes "parse_rest scheme rest = Some u" "url_Host u \<noteq> []" "scheme \<noteq> []"
    and "parse_rest scheme (rest @ CHR ''/'' # t) = Some u'"
  shows "url_Host u' = url_Host u"
proof -
  obtain r where r: "cut_before rest CHR ''?'' = ''//'' @ r"
    "parseAuthority (cut_before r CHR ''/'') = Some (url_Host u)"
    using parse_rest_Host [OF assms(1,2)] by blast
  define q where "q = (if CHR ''?'' \<in> set rest then [] else CHR ''/'' # cut_before t CHR ''?'')"
  have "cut_before (rest @ CHR ''/'' # t) CHR ''?'' = ''//'' @ r @ q"
    using r(1) cut_before_id [of "CHR ''?''" rest]
    by (auto simp: cut_before_append q_def) (simp_all add: cut_before_def)
  moreover have "cut_before (r @ q) CHR ''/'' = cut_before r CHR ''/''"
    using cut_before_id [of "CHR ''/''" r] by (auto simp: cut_before_append q_def) (simp_all add: cut_before_def)
  ultimately show ?thesis
    using assms(3,4) r(2) by (auto simp: parse_rest_def Let_def HasPrefix_def split: if_splits option.splits)
qed

lemma url_Parse_append:
  assumes "url_Parse d = Some u" "url_Host u \<noteq> []" "url_Scheme u \<noteq> []"
    and "url_Parse (d @ CHR ''/'' # e) = Some u'"
  shows "url_Host u' = url_Host u"
proof -
  define d0 where "d0 = cut_before d CHR ''#''"
  obtain scheme rest where g: "getScheme d0 = Some (scheme, rest)" "parse_rest scheme rest = Some u"
    using assms(1,2)
    by (auto simp: url_Parse_def Let_def d0_def split: if_splits bind_splits)
  have "url_Scheme u = map lower_byte scheme"
    using g(2) assms(2) by (auto simp: parse_rest_def Let_def split: if_splits option.splits)
  then have scheme: "scheme \<noteq> []" using assms(3) by auto
  define q where "q = (if CHR ''#'' \<in> set d then [] else CHR ''/'' # cut_before e CHR ''#'')"
  have cut: "cut_before (d @ CHR ''/'' # e) CHR ''#'' = d0 @ q"
    using cut_before_id [of "CHR ''#''" d]
    by (auto simp: cut_before_append d0_def q_def) (simp_all add: cut_before_def)
  have "getScheme (d0 @ q) = Some (scheme, rest @ q)" by (rule getScheme_append [OF g(1) scheme])
  moreover have "d0 @ q \<noteq> ''*''"
    using g(1) scheme by (cases d0) (auto simp: getScheme_def scheme_char_def is_alpha_def is_digit_def byte_def split: if_splits list.splits)
  ultimately have "parse_rest scheme (rest @ q) = Some u'"
    using assms(4) unfolding url_Parse_def Let_def cut by (auto split: if_splits)
  then show ?thesis
    using parse_rest_append [OF g(2) assms(2) scheme] g(2) by (auto simp: q_def split: if_splits)
qed

end
