(* ===== verification/DomainValidator.thy ===== *)
theory DomainValidator
  imports GoURL External
begin

text \<open>
  \<open>internal/validator/domain_validator.go\<close>: the check of a domain URL against requests to internal
  services. DNS (\<open>net.LookupHost\<close>) and the cache of results are parameters.
\<close>

subsection \<open>Private networks\<close>

definition private_cidrs :: "gostring list" where
  "private_cidrs =
     [''10.0.0.0/8'', ''172.16.0.0/12'', ''192.168.0.0/16'', ''100.64.0.0/10'', ''169.254.0.0/16'',
      ''192.0.0.0/24'', ''198.51.100.0/24'', ''203.0.113.0/24'', ''240.0.0.0/4'', ''0.0.0.0/8'',
      ''fc00::/7'', ''fe80::/10'', ''::1/128'']"

text \<open>The loop of \<open>init\<close>, which appends every block that parses.\<close>

fun append_networks :: "gostring list \<Rightarrow> ip_net list \<Rightarrow> ip_net list" where
  "append_networks [] networks = networks"
| "append_networks (cidr # cidrs) networks =
     append_networks cidrs
       (case ParseCIDR cidr of Some network \<Rightarrow> networks @ [network] | None \<Rightarrow> networks)"

definition privateNetworks :: "ip_net list" where
  "privateNetworks = append_networks private_cidrs []"

definition isPrivateIP :: "ip \<Rightarrow> bool" where
  "isPrivateIP ip =
     (if IsLoopback ip \<or> IsLinkLocalUnicast ip \<or> IsLinkLocalMulticast ip then True
      else list_ex (\<lambda>network. net_Contains network ip) privateNetworks)"

subsection \<open>The checks\<close>

definition blockedHostnamePatterns :: "gostring list" where
  "blockedHostnamePatterns = [''localhost'']"

definition blockedHostnameSuffixes :: "gostring list" where
  "blockedHostnameSuffixes = [''.local'', ''.internal'', ''.intranet'', ''.corp'', ''.lan'']"

definition validateHostname :: "unicode_tables \<Rightarrow> gostring \<Rightarrow> unit result" where
  "validateHostname U hostname =
     (if hostname = [] then Err (ProxyErr ErrInvalidDomainURL)
      else if ParseIP hostname \<noteq> None then Err (ProxyErr ErrBlockedInternalDomain)
      else if HasPrefix hostname ''['' then Err (ProxyErr ErrBlockedInternalDomain)
      else
        let lower = ToLower U hostname in
        if list_ex (\<lambda>pattern. lower = pattern) blockedHostnamePatterns
        then Err (ProxyErr ErrBlockedInternalDomain)
        else if list_ex (\<lambda>suffix. HasSuffix lower suffix) blockedHostnameSuffixes
        then Err (ProxyErr ErrBlockedInternalDomain)
        else Ok ())"

record 'e domain_validator =
  dv_cache :: "('e, unit result) go_cache"
  dv_LookupHost :: "gostring \<Rightarrow> ('e, gostring list result) action"

fun check_addrs :: "gostring list \<Rightarrow> unit result" where
  "check_addrs [] = Ok ()"
| "check_addrs (addr # addrs) =
     (case ParseIP addr of
        None \<Rightarrow> check_addrs addrs
      | Some ip \<Rightarrow>
          if isPrivateIP ip then Err (ProxyErr ErrBlockedInternalDomain) else check_addrs addrs)"

definition validateResolvedIP :: "'e domain_validator \<Rightarrow> gostring \<Rightarrow> ('e, unit result) action" where
  "validateResolvedIP v hostname e =
     (case dv_LookupHost v hostname e of
        (Err err, e') \<Rightarrow> (Err (ProxyErr ErrInvalidDomainURL), e')
      | (Ok addrs, e') \<Rightarrow> (check_addrs addrs, e'))"

definition Validate ::
  "unicode_tables \<Rightarrow> 'e domain_validator \<Rightarrow> gostring \<Rightarrow> ('e, unit result) action" where
  "Validate U v domainURL e =
     (if TrimSpace domainURL = [] then (Err (ProxyErr ErrInvalidDomainURL), e)
      else
        (case url_Parse domainURL of
           None \<Rightarrow> (Err (ProxyErr ErrInvalidDomainURL), e)
         | Some parsed \<Rightarrow>
             if url_Host parsed = [] then (Err (ProxyErr ErrInvalidDomainURL), e)
             else if \<not> EqualFold U (url_Scheme parsed) ''https''
             then (Err (ProxyErr ErrInvalidDomainURL), e)
             else
               let hostname = Hostname parsed in
               (case validateHostname U hostname of
                  Err err \<Rightarrow> (Err err, e)
                | Ok _ \<Rightarrow>
                    (case gc_Get (dv_cache v) hostname e of
                       Some cached \<Rightarrow> (cached, e)
                     | None \<Rightarrow>
                         (case validateResolvedIP v hostname e of
                            (result, e') \<Rightarrow> (result, gc_Set (dv_cache v) hostname result e'))))))"

subsection \<open>The networks, byte by byte\<close>

lemma cidr_1: "ParseCIDR ''10.0.0.0/8'' = Some \<lparr>net_IP = [10, 0, 0, 0], net_Mask = [255, 0, 0, 0]\<rparr>"
  by code_simp

lemma cidr_2: "ParseCIDR ''172.16.0.0/12'' = Some \<lparr>net_IP = [172, 16, 0, 0], net_Mask = [255, 240, 0, 0]\<rparr>"
  by code_simp

lemma cidr_3: "ParseCIDR ''192.168.0.0/16'' = Some \<lparr>net_IP = [192, 168, 0, 0], net_Mask = [255, 255, 0, 0]\<rparr>"
  by code_simp

lemma cidr_4: "ParseCIDR ''100.64.0.0/10'' = Some \<lparr>net_IP = [100, 64, 0, 0], net_Mask = [255, 192, 0, 0]\<rparr>"
  by code_simp

lemma cidr_5: "ParseCIDR ''169.254.0.0/16'' = Some \<lparr>net_IP = [169, 254, 0, 0], net_Mask = [255, 255, 0, 0]\<rparr>"
  by code_simp

lemma cidr_6: "ParseCIDR ''192.0.0.0/24'' = Some \<lparr>net_IP = [192, 0, 0, 0], net_Mask = [255, 255, 255, 0]\<rparr>"
  by code_simp

lemma cidr_7: "ParseCIDR ''198.51.100.0/24'' = Some \<lparr>net_IP = [198, 51, 100, 0], net_Mask = [255, 255, 255, 0]\<rparr>"
  by code_simp

lemma cidr_8: "ParseCIDR ''203.0.113.0/24'' = Some \<lparr>net_IP = [203, 0, 113, 0], net_Mask = [255, 255, 255, 0]\<rparr>"
  by code_simp

lemma cidr_9: "ParseCIDR ''240.0.0.0/4'' = Some \<lparr>net_IP = [240, 0, 0, 0], net_Mask = [240, 0, 0, 0]\<rparr>"
  by code_simp

lemma cidr_10: "ParseCIDR ''0.0.0.0/8'' = Some \<lparr>net_IP = [0, 0, 0, 0], net_Mask = [255, 0, 0, 0]\<rparr>"
  by code_simp

lemma cidr_11: "ParseCIDR ''fc00::/7'' = Some \<lparr>net_IP = 252 # replicate 15 0, net_Mask = 254 # replicate 15 0\<rparr>"
  by code_simp

lemma cidr_12: "ParseCIDR ''fe80::/10'' = Some \<lparr>net_IP = 254 # 128 # replicate 14 0, net_Mask = 255 # 192 # replicate 14 0\<rparr>"
  by code_simp

lemma cidr_13: "ParseCIDR ''::1/128'' = Some \<lparr>net_IP = replicate 15 0 @ [1], net_Mask = replicate 16 255\<rparr>"
  by code_simp

lemmas cidrs = cidr_1 cidr_2 cidr_3 cidr_4 cidr_5 cidr_6 cidr_7 cidr_8 cidr_9 cidr_10 cidr_11 cidr_12 cidr_13

lemma privateNetworks_eq:
  "privateNetworks =
     [\<lparr>net_IP = [10, 0, 0, 0], net_Mask = [255, 0, 0, 0]\<rparr>,
      \<lparr>net_IP = [172, 16, 0, 0], net_Mask = [255, 240, 0, 0]\<rparr>,
      \<lparr>net_IP = [192, 168, 0, 0], net_Mask = [255, 255, 0, 0]\<rparr>,
      \<lparr>net_IP = [100, 64, 0, 0], net_Mask = [255, 192, 0, 0]\<rparr>,
      \<lparr>net_IP = [169, 254, 0, 0], net_Mask = [255, 255, 0, 0]\<rparr>,
      \<lparr>net_IP = [192, 0, 0, 0], net_Mask = [255, 255, 255, 0]\<rparr>,
      \<lparr>net_IP = [198, 51, 100, 0], net_Mask = [255, 255, 255, 0]\<rparr>,
      \<lparr>net_IP = [203, 0, 113, 0], net_Mask = [255, 255, 255, 0]\<rparr>,
      \<lparr>net_IP = [240, 0, 0, 0], net_Mask = [240, 0, 0, 0]\<rparr>,
      \<lparr>net_IP = [0, 0, 0, 0], net_Mask = [255, 0, 0, 0]\<rparr>,
      \<lparr>net_IP = 252 # replicate 15 0, net_Mask = 254 # replicate 15 0\<rparr>,
      \<lparr>net_IP = 254 # 128 # replicate 14 0, net_Mask = 255 # 192 # replicate 14 0\<rparr>,
      \<lparr>net_IP = replicate 15 0 @ [1], net_Mask = replicate 16 255\<rparr>]"
  unfolding privateNetworks_def private_cidrs_def
  by (simp only: append_networks.simps cidrs option.case append_Nil append_Cons)

unbundle bit_operations_syntax

lemma and_high_bits:
  fixes w :: "8 word"
  shows "unat (w AND NOT (mask k)) = unat w div 2 ^ k * 2 ^ k"
proof -
  have w: "unat w < 2 ^ 8" using unsigned_less [of w] by simp
  have "w AND NOT (mask k) = push_bit k (drop_bit k w)"
    by (rule bit_word_eqI) (auto simp: bit_simps)
  moreover have "unat (push_bit k (drop_bit k w)) = take_bit 8 (push_bit k (drop_bit k (unat w)))"
    using w by (simp add: unsigned_push_bit_eq unsigned_drop_bit_eq take_bit_nat_eq_self)
  moreover have "push_bit k (drop_bit k (unat w)) = unat w div 2 ^ k * 2 ^ k"
    by (simp add: push_bit_eq_mult drop_bit_eq_div)
  moreover have "unat w div 2 ^ k * 2 ^ k < 2 ^ 8"
    by (rule le_less_trans [OF div_times_less_eq_dividend w])
  ultimately show ?thesis by (simp add: take_bit_nat_eq_self)
qed

lemma high_masks:
  "(240 :: 8 word) = NOT (mask 4)" "(192 :: 8 word) = NOT (mask 6)" "(254 :: 8 word) = NOT (mask 1)"
  by code_simp+

lemma byte_ranges:
  fixes w :: "8 word"
  shows "w AND 240 = 16 \<longleftrightarrow> 16 \<le> unat w \<and> unat w \<le> 31"
    "w AND 192 = 64 \<longleftrightarrow> 64 \<le> unat w \<and> unat w \<le> 127"
    "w AND 192 = 128 \<longleftrightarrow> 128 \<le> unat w \<and> unat w \<le> 191"
    "w AND 240 = 240 \<longleftrightarrow> 240 \<le> unat w"
    "w AND 254 = 252 \<longleftrightarrow> unat w = 252 \<or> unat w = 253"
proof -
  have and_eq: "unat (w AND 240) = unat w div 16 * 16" "unat (w AND 192) = unat w div 64 * 64"
    "unat (w AND 254) = unat w div 2 * 2"
    unfolding high_masks and_high_bits by simp_all
  have w: "unat w < 256" using unsigned_less [of w] by simp
  show "w AND 240 = 16 \<longleftrightarrow> 16 \<le> unat w \<and> unat w \<le> 31"
    unfolding word_unat_eq_iff and_eq by auto
  show "w AND 192 = 64 \<longleftrightarrow> 64 \<le> unat w \<and> unat w \<le> 127"
    unfolding word_unat_eq_iff and_eq by auto
  show "w AND 192 = 128 \<longleftrightarrow> 128 \<le> unat w \<and> unat w \<le> 191"
    unfolding word_unat_eq_iff and_eq by auto
  show "w AND 240 = 240 \<longleftrightarrow> 240 \<le> unat w"
    unfolding word_unat_eq_iff and_eq using w by auto
  show "w AND 254 = 252 \<longleftrightarrow> unat w = 252 \<or> unat w = 253"
    unfolding word_unat_eq_iff and_eq by auto
qed

lemma and_255 [simp]: "(w :: 8 word) AND 255 = w"
proof -
  have "(255 :: 8 word) = - 1" by code_simp
  then show ?thesis by (metis and.right_neutral)
qed

lemma list_ex_rec: "list_ex P [] = False" "list_ex P (x # xs) = (P x \<or> list_ex P xs)"
  by simp_all

text \<open>Membership in the networks, with the case split on the form of the address done.\<close>

lemma private_v4_cases:
  fixes a b c d :: "8 word"
  shows "isPrivateIP (v4InV6Prefix @ [a, b, c, d]) \<longleftrightarrow>
     a = 127 \<or> (a = 169 \<and> b = 254) \<or> (a = 224 \<and> b = 0 \<and> c = 0) \<or> a = 10
     \<or> (a = 172 \<and> b AND 240 = 16) \<or> (a = 192 \<and> b = 168) \<or> (a = 100 \<and> b AND 192 = 64)
     \<or> (a = 169 \<and> b = 254) \<or> (a = 192 \<and> b = 0 \<and> c = 0) \<or> (a = 198 \<and> b = 51 \<and> c = 100)
     \<or> (a = 203 \<and> b = 0 \<and> c = 113) \<or> a AND 240 = 240 \<or> a = 0"
proof -
  have to4: "To4 (v4InV6Prefix @ [a, b, c, d]) = Some [a, b, c, d]"
    by (simp add: To4_def v4InV6Prefix_def)
  have c4: "net_Contains \<lparr>net_IP = [n1, n2, n3, n4], net_Mask = [m1, m2, m3, m4]\<rparr>
      (v4InV6Prefix @ [a, b, c, d]) \<longleftrightarrow>
      a AND m1 = n1 AND m1 \<and> b AND m2 = n2 AND m2 \<and> c AND m3 = n3 AND m3 \<and> d AND m4 = n4 AND m4"
    for n1 n2 n3 n4 m1 m2 m3 m4
    unfolding net_Contains_def networkNumberAndMask_def to4 by (auto simp: To4_def)
  have c16: "\<not> net_Contains \<lparr>net_IP = x # xs, net_Mask = m\<rparr> (v4InV6Prefix @ [a, b, c, d])"
    if "length xs = 15" "x # take 11 xs \<noteq> v4InV6Prefix" for x xs m
    unfolding net_Contains_def networkNumberAndMask_def to4 Let_def using that by (simp add: To4_def)
  have v6: "length (replicate 15 0 :: 8 word list) = 15"
    "252 # take 11 (replicate 15 0) \<noteq> v4InV6Prefix"
    "length (128 # replicate 14 0 :: 8 word list) = 15"
    "254 # take 11 (128 # replicate 14 0) \<noteq> v4InV6Prefix"
    "length (replicate 14 0 @ [1] :: 8 word list) = 15"
    "0 # take 11 (replicate 14 0 @ [1]) \<noteq> v4InV6Prefix"
    by code_simp+
  have one: "(replicate 15 0 @ [1] :: 8 word list) = 0 # replicate 14 0 @ [1]"
    by (simp add: eval_nat_numeral)
  have if_or: "(if P then True else Q) \<longleftrightarrow> P \<or> Q" for P Q
    by simp
  have masks: "(16 :: 8 word) AND 240 = 16" "(64 :: 8 word) AND 192 = 64"
    "(240 :: 8 word) AND 240 = 240" by code_simp+
  show ?thesis
    unfolding isPrivateIP_def privateNetworks_eq IsLoopback_def IsLinkLocalUnicast_def
      IsLinkLocalMulticast_def to4 one
    by (simp only: list_ex_rec c4 masks c16 [OF v6(1,2)] c16 [OF v6(3,4)] c16 [OF v6(5,6)]
        and_255 and_zero_eq option.case nth_Cons_0 nth_Cons_Suc One_nat_def numeral_2_eq_2
        simp_thms if_or disj_assoc)
qed

lemma private_v6_cases:
  assumes len: "length rest = 14" and not4: "x # y # take 10 rest \<noteq> v4InV6Prefix"
  shows "isPrivateIP (x # y # rest) \<longleftrightarrow>
     x # y # rest = replicate 15 0 @ [1] \<or> (x = 254 \<and> y AND 192 = 128)
     \<or> (x = 255 \<and> y AND 15 = 2) \<or> x AND 254 = 252"
proof -
  have to4: "To4 (x # y # rest) = None"
    using len not4 by (simp add: To4_def)
  have c4: "\<not> net_Contains \<lparr>net_IP = [n1, n2, n3, n4], net_Mask = [m1, m2, m3, m4]\<rparr> (x # y # rest)"
    for n1 n2 n3 n4 m1 m2 m3 m4
    unfolding net_Contains_def networkNumberAndMask_def to4 Let_def using len by (simp add: To4_def)
  have zeros: "list_all (\<lambda>((a, k), b). a AND k = b AND k) (zip (zip (replicate n 0) (replicate n 0)) r)"
    for n and r :: "8 word list"
  proof (induction n arbitrary: r)
    case (Suc n)
    then show ?case by (cases r) simp_all
  qed simp
  have fc: "net_Contains \<lparr>net_IP = 252 # replicate 15 0, net_Mask = 254 # replicate 15 0\<rparr> (x # y # rest)
      \<longleftrightarrow> x AND 254 = 252"
  proof -
    have "To4 (252 # replicate 15 0) = None" by code_simp
    moreover have "(252 :: 8 word) AND 254 = 252" by code_simp
    ultimately show ?thesis
      unfolding net_Contains_def networkNumberAndMask_def to4 Let_def
      using len zeros [of 15 "y # rest"] by (auto simp: eq_commute [of 252])
  qed
  have fe: "net_Contains \<lparr>net_IP = 254 # 128 # replicate 14 0, net_Mask = 255 # 192 # replicate 14 0\<rparr>
      (x # y # rest) \<longleftrightarrow> x = 254 \<and> y AND 192 = 128"
  proof -
    have "To4 (254 # 128 # replicate 14 0) = None" by code_simp
    moreover have "(128 :: 8 word) AND 192 = 128" by code_simp
    ultimately show ?thesis
      unfolding net_Contains_def networkNumberAndMask_def to4 Let_def
      using len zeros [of 14 rest] by (auto simp: eq_commute [of 128] eq_commute [of 254])
  qed
  have one: "net_Contains \<lparr>net_IP = replicate 15 0 @ [1], net_Mask = replicate 16 255\<rparr> (x # y # rest)
      \<longleftrightarrow> x # y # rest = replicate 15 0 @ [1]"
  proof -
    have "To4 (replicate 15 0 @ [1]) = None" by code_simp
    moreover have "list_all (\<lambda>((a, k), b). a AND k = b AND k) (zip (zip xs (replicate (length xs) 255)) ys)
        \<longleftrightarrow> ys = xs" if "length xs = length ys" for xs ys :: "8 word list"
      using that by (induction xs ys rule: list_induct2) auto
    from this [of "replicate 15 0 @ [1]" "x # y # rest"]
    have "list_all (\<lambda>((a, k), b). a AND k = b AND k)
        (zip (zip (replicate 15 0 @ [1]) (replicate 16 255)) (x # y # rest))
        \<longleftrightarrow> x # y # rest = replicate 15 0 @ [1]"
      using len by (simp only: length_append length_replicate list.size) simp
    ultimately show ?thesis
      unfolding net_Contains_def networkNumberAndMask_def to4 Let_def using len by simp
  qed
  have if_or: "(if P then True else Q) \<longleftrightarrow> P \<or> Q" for P Q
    by simp
  have len16: "length (x # y # rest) = 16" using len by simp
  show ?thesis
    unfolding isPrivateIP_def privateNetworks_eq IsLoopback_def IsLinkLocalUnicast_def
      IsLinkLocalMulticast_def to4
    by (simp only: list_ex_rec c4 fc fe one len16 option.case nth_Cons_0 nth_Cons_Suc One_nat_def
        simp_thms if_or disj_assoc) blast
qed

subsection \<open>Properties\<close>

text \<open>C38: Which IPv4 addresses count as private: exactly those of the twelve blocks the file lists or Go's
  predicates name, given by ranges of their bytes, for IPv4 addresses as \<open>ParseIP\<close> returns them
  (so also for IPv4-mapped IPv6 literals).\<close>

theorem private_ipv4_iff:
  "isPrivateIP (v4InV6Prefix @ [a, b, c, d]) \<longleftrightarrow>
     unat a \<in> {0, 10, 127} \<or> 240 \<le> unat a
     \<or> (unat a = 100 \<and> unat b \<in> {64..127}) \<or> (unat a = 169 \<and> unat b = 254)
     \<or> (unat a = 172 \<and> unat b \<in> {16..31})
     \<or> (unat a = 192 \<and> (unat b = 168 \<or> (unat b = 0 \<and> unat c = 0)))
     \<or> (unat a = 198 \<and> unat b = 51 \<and> unat c = 100)
     \<or> (unat a = 203 \<and> unat b = 0 \<and> unat c = 113)
     \<or> (unat a = 224 \<and> unat b = 0 \<and> unat c = 0)"
proof -
  have consts_unat: "unat (10 :: 8 word) = 10" "unat (51 :: 8 word) = 51" "unat (100 :: 8 word) = 100" "unat (113 :: 8 word) = 113" "unat (127 :: 8 word) = 127"
    "unat (168 :: 8 word) = 168" "unat (169 :: 8 word) = 169" "unat (172 :: 8 word) = 172" "unat (192 :: 8 word) = 192"
    "unat (198 :: 8 word) = 198" "unat (203 :: 8 word) = 203" "unat (224 :: 8 word) = 224" "unat (254 :: 8 word) = 254"
    by code_simp+
  have zero: "unat (0 :: 8 word) = 0" by simp
  show ?thesis
    unfolding private_v4_cases byte_ranges unfolding word_unat_eq_iff consts_unat zero
      insert_iff empty_iff atLeastAtMost_iff
    by (rule iffI; elim disjE conjE; simp)
qed

text \<open>An IPv6 address that is not a mapped IPv4 one counts as private exactly when it is the loopback
  address, link-local unicast (\<open>fe80::/10\<close>), link-local multicast, or unique local (\<open>fc00::/7\<close>).
  In particular the unspecified address \<open>::\<close>, which connects to the local host, does not count as
  private, while its IPv4 counterpart \<open>0.0.0.0\<close> does.\<close>

theorem private_ipv6_iff:
  assumes "length rest = 14" "x # y # take 10 rest \<noteq> v4InV6Prefix"
  shows "isPrivateIP (x # y # rest) \<longleftrightarrow>
     x # y # rest = replicate 15 0 @ [1]
     \<or> (x = 254 \<and> unat y \<in> {128..191}) \<or> (x = 255 \<and> y AND 15 = 2) \<or> unat x \<in> {252, 253}"
  unfolding private_v6_cases [OF assms] byte_ranges by simp

theorem private_ipv6_iff_witness:
  "ParseIP ''::'' = Some (replicate 16 0) \<and> \<not> isPrivateIP (replicate 16 0)"
proof -
  have "ParseIP ''::'' = Some (replicate 16 0)" by code_simp
  moreover have "isPrivateIP (0 # 0 # replicate 14 0) \<longleftrightarrow>
     (0 :: 8 word) # 0 # replicate 14 0 = replicate 15 0 @ [1]
     \<or> ((0 :: 8 word) = 254 \<and> unat (0 :: 8 word) \<in> {128..191}) \<or> ((0 :: 8 word) = 255 \<and> (0 :: 8 word) AND 15 = 2)
     \<or> unat (0 :: 8 word) \<in> {252, 253}"
    by (rule private_ipv6_iff) (simp, code_simp)
  moreover have "(0 :: 8 word) # 0 # replicate 14 0 \<noteq> replicate 15 0 @ [1]"
    "(0 :: 8 word) \<noteq> 254" "(0 :: 8 word) \<noteq> 255" by code_simp+
  moreover have "(0 :: 8 word) # 0 # replicate 14 0 = replicate 16 0" by code_simp
  ultimately show ?thesis by simp
qed

lemma check_addrs_Ok:
  "check_addrs addrs = Ok () \<longleftrightarrow> (\<forall>addr \<in> set addrs. \<forall>ip. ParseIP addr = Some ip \<longrightarrow> \<not> isPrivateIP ip)"
  by (induction addrs) (auto split: option.splits)

lemma validateHostname_Ok:
  "validateHostname U h = Ok () \<longleftrightarrow>
     h \<noteq> [] \<and> ParseIP h = None \<and> \<not> HasPrefix h ''['' \<and> ToLower U h \<noteq> ''localhost''
     \<and> (\<forall>suffix \<in> {''.local'', ''.internal'', ''.intranet'', ''.corp'', ''.lan''}. \<not> HasSuffix (ToLower U h) suffix)"
  by (simp add: validateHostname_def blockedHostnamePatterns_def blockedHostnameSuffixes_def Let_def)

text \<open>The URL part of the check, which needs neither DNS nor the cache.\<close>

definition url_checked :: "unicode_tables \<Rightarrow> gostring \<Rightarrow> url option" where
  "url_checked U domainURL =
     (if TrimSpace domainURL = [] then None
      else Option.bind (url_Parse domainURL) (\<lambda>parsed.
        if url_Host parsed \<noteq> [] \<and> EqualFold U (url_Scheme parsed) ''https''
          \<and> validateHostname U (Hostname parsed) = Ok () then Some parsed else None))"

lemma Validate_cases:
  "Validate U v domainURL e =
     (case url_checked U domainURL of
        None \<Rightarrow> (Err (ProxyErr (if TrimSpace domainURL \<noteq> [] \<and> (\<exists>u. url_Parse domainURL = Some u
            \<and> url_Host u \<noteq> [] \<and> EqualFold U (url_Scheme u) ''https'' \<and> Hostname u \<noteq> [])
            then ErrBlockedInternalDomain else ErrInvalidDomainURL)), e)
      | Some u \<Rightarrow>
          (case gc_Get (dv_cache v) (Hostname u) e of
             Some cached \<Rightarrow> (cached, e)
           | None \<Rightarrow> (case validateResolvedIP v (Hostname u) e of
               (result, e') \<Rightarrow> (result, gc_Set (dv_cache v) (Hostname u) result e'))))"
proof -
  have host: "validateHostname U h \<noteq> Ok () \<Longrightarrow> validateHostname U h =
      Err (ProxyErr (if h = [] then ErrInvalidDomainURL else ErrBlockedInternalDomain))" for h
    unfolding validateHostname_def Let_def by (auto split: if_splits)
  show ?thesis
  proof (cases "url_Parse domainURL")
    case None
    then show ?thesis by (simp add: Validate_def url_checked_def)
  next
    case (Some u)
    show ?thesis
    proof (cases "validateHostname U (Hostname u) = Ok ()")
      case True
      then have "Hostname u \<noteq> []" by (simp add: validateHostname_Ok)
      with True Some show ?thesis by (simp add: Validate_def url_checked_def Let_def)
    next
      case False
      then show ?thesis using Some host [OF False]
        by (simp add: Validate_def url_checked_def Let_def)
    qed
  qed
qed

type_synonym demo_dns = "(gostring, unit result) gomap"

definition demo_validator :: "demo_dns domain_validator" where
  "demo_validator =
     \<lparr>dv_cache = table_cache id (\<lambda>t e. t), dv_LookupHost = (\<lambda>h e. (Ok [''93.184.216.34''], e))\<rparr>"

definition demo_url :: url where
  "demo_url = \<lparr>url_Scheme = ''https'', url_Host = ''api.example.com''\<rparr>"

lemma demo_checked: "url_checked ascii_tables ''https://api.example.com'' = Some demo_url"
  by code_simp

lemma demo_hostname: "Hostname demo_url = ''api.example.com''"
  by code_simp

lemma demo_addr: "check_addrs [''93.184.216.34''] = Ok ()"
proof -
  have "ParseIP ''93.184.216.34'' = Some (v4InV6Prefix @ [93, 184, 216, 34])" by code_simp
  moreover have "\<not> isPrivateIP (v4InV6Prefix @ [93, 184, 216, 34])"
    unfolding private_v4_cases by code_simp
  ultimately show ?thesis by simp
qed

lemma demo_validate:
  "Validate ascii_tables demo_validator ''https://api.example.com'' [] =
     (Ok (), [(''api.example.com'', Ok ())])"
  unfolding Validate_cases
  by (simp add: demo_checked demo_hostname demo_validator_def table_cache_def validateResolvedIP_def
      demo_addr del: check_addrs.simps)

text \<open>C6: Only safe targets pass: when \<open>Validate\<close> accepts a domain URL, the URL parses, its scheme is https
  and its host is not empty; the host name is neither an IP literal nor \<open>localhost\<close> nor in one of
  the internal suffixes; and either an earlier acceptance is still in the cache, or DNS answered and
  no address of the answer is private.\<close>

theorem validate_accepts_only_safe:
  assumes "Validate U v domainURL e = (Ok (), e')"
  shows "\<exists>u. url_Parse domainURL = Some u \<and> url_Host u \<noteq> [] \<and> EqualFold U (url_Scheme u) ''https''
    \<and> Hostname u \<noteq> [] \<and> ParseIP (Hostname u) = None \<and> ToLower U (Hostname u) \<noteq> ''localhost''
    \<and> (\<forall>suffix \<in> {''.local'', ''.internal'', ''.intranet'', ''.corp'', ''.lan''}.
         \<not> HasSuffix (ToLower U (Hostname u)) suffix)
    \<and> (gc_Get (dv_cache v) (Hostname u) e = Some (Ok ())
       \<or> (\<exists>addrs e1. dv_LookupHost v (Hostname u) e = (Ok addrs, e1)
            \<and> (\<forall>addr \<in> set addrs. \<forall>ip. ParseIP addr = Some ip \<longrightarrow> \<not> isPrivateIP ip)))"
proof -
  obtain u where u: "url_checked U domainURL = Some u"
    using assms unfolding Validate_cases by (cases "url_checked U domainURL") auto
  then have parsed: "url_Parse domainURL = Some u" "url_Host u \<noteq> []"
    "EqualFold U (url_Scheme u) ''https''" "validateHostname U (Hostname u) = Ok ()"
    by (auto simp: url_checked_def split: if_splits bind_splits)
  have "gc_Get (dv_cache v) (Hostname u) e = Some (Ok ())
     \<or> (\<exists>addrs e1. dv_LookupHost v (Hostname u) e = (Ok addrs, e1) \<and> check_addrs addrs = Ok ())"
    using assms u unfolding Validate_cases
    by (auto simp: validateResolvedIP_def split: option.splits sum.splits prod.splits)
  then show ?thesis
    using parsed unfolding validateHostname_Ok check_addrs_Ok by blast
qed

theorem validate_accepts_only_safe_witness:
  "\<exists>u. url_Parse ''https://api.example.com'' = Some u \<and> ParseIP (Hostname u) = None"
  using validate_accepts_only_safe [OF demo_validate] by blast

text \<open>The verdict on a host is remembered: when the cache keeps what it is told, asking again for the
  same domain right after \<open>Validate\<close> gives the same answer, and neither DNS nor anything else
  outside is touched.\<close>

theorem validate_cached:
  assumes "cache_laws (dv_cache v)" "Validate U v domainURL e = (r, e')"
  shows "Validate U v domainURL e' = (r, e')"
proof (cases "url_checked U domainURL")
  case None
  then show ?thesis using assms(2) unfolding Validate_cases by auto
next
  case (Some u)
  show ?thesis
  proof (cases "gc_Get (dv_cache v) (Hostname u) e")
    case None
    then have "gc_Get (dv_cache v) (Hostname u) e' = Some r"
      using assms Some unfolding Validate_cases
      by (auto simp: cache_lawsD split: prod.splits)
    then show ?thesis using Some unfolding Validate_cases by simp
  next
    case (Some cached)
    then show ?thesis using assms(2) \<open>url_checked U domainURL = Some u\<close> unfolding Validate_cases by auto
  qed
qed

theorem validate_cached_witness:
  "Validate ascii_tables demo_validator ''https://api.example.com'' [(''api.example.com'', Ok ())] =
     (Ok (), [(''api.example.com'', Ok ())])"
  by (rule validate_cached [OF _ demo_validate])
    (simp add: demo_validator_def table_cache_laws)

end
