(* ===== verification/Requester.thy ===== *)
theory Requester
  imports RequestInfo DomainValidator
begin

text \<open>
  \<open>internal/requester\<close>: the call to the registered API (\<open>http_requester.go\<close>) and the filtering of
  its response (\<open>response_sanitizer.go\<close>). Sending a request is the parameter \<open>hd_Do\<close>; the pool of
  clients is part of the outside state, read and written through \<open>hd_pool\<close>.
\<close>

subsection \<open>Responses\<close>

record proxy_response =
  pr_StatusCode :: int
  pr_Headers :: http_header
  pr_Body :: bytes

text \<open>The body of a response as a stream: the bytes that can be read, and the error that ends them.\<close>

record http_response =
  hr_StatusCode :: int
  hr_Header :: http_header
  hr_Body :: bytes
  hr_BodyErr :: "go_error option"

definition allowedContentTypes :: "gostring list" where
  "allowedContentTypes =
     [''application/json'', ''text/plain'', ''text/xml'', ''application/xml'',
      ''application/x-www-form-urlencoded'']"

definition hopByHopHeaders :: "gostring list" where
  "hopByHopHeaders =
     [''connection'', ''keep-alive'', ''proxy-authenticate'', ''proxy-authorization'', ''te'',
      ''trailer'', ''transfer-encoding'', ''upgrade'']"

definition excludedResponseHeaders :: "gostring list" where
  "excludedResponseHeaders =
     [''access-control-allow-origin'', ''access-control-allow-credentials'',
      ''access-control-allow-headers'', ''access-control-allow-methods'',
      ''access-control-expose-headers'', ''access-control-max-age'', ''vary'', ''content-disposition'']"

definition validateContentType :: "unicode_tables \<Rightarrow> http_header \<Rightarrow> unit result" where
  "validateContentType U header =
     (let ct = Header_Get header ''Content-Type'' in
      if ct = [] then Ok ()
      else
        let baseType = TrimSpace (ToLower U (SplitFirst ct CHR '';'')) in
        if list_ex (\<lambda>allowed. EqualFold U baseType allowed) allowedContentTypes then Ok ()
        else Err (ProxyErr ErrBlockedContentType))"

fun filter_headers :: "unicode_tables \<Rightarrow> http_header \<Rightarrow> http_header" where
  "filter_headers U [] = []"
| "filter_headers U ((name, values) # hs) =
     (let lower = ToLower U name in
      if lower \<in> set hopByHopHeaders then filter_headers U hs
      else if lower \<in> set excludedResponseHeaders then filter_headers U hs
      else (name, values) # filter_headers U hs)"

definition sanitize :: "unicode_tables \<Rightarrow> http_response \<Rightarrow> bytes \<Rightarrow> proxy_response result" where
  "sanitize U resp body =
     (case validateContentType U (hr_Header resp) of
        Err err \<Rightarrow> Err err
      | Ok _ \<Rightarrow>
          Ok \<lparr>pr_StatusCode = hr_StatusCode resp, pr_Headers = filter_headers U (hr_Header resp),
             pr_Body = body\<rparr>)"

subsection \<open>Clients\<close>

text \<open>The settings of a client; durations in nanoseconds. \<open>hc_follow\<close>: whether redirects are followed.\<close>

record http_client =
  hc_DialTimeout :: int
  hc_KeepAlive :: int
  hc_MaxIdleConns :: nat
  hc_MaxIdleConnsPerHost :: nat
  hc_IdleConnTimeout :: int
  hc_ResponseHeaderTimeout :: int
  hc_TLSHandshakeTimeout :: int
  hc_Timeout :: int
  hc_follow :: bool

definition newClient :: http_client where
  "newClient =
     \<lparr>hc_DialTimeout = 10 * time_Second, hc_KeepAlive = 30 * time_Second, hc_MaxIdleConns = 100,
      hc_MaxIdleConnsPerHost = 10, hc_IdleConnTimeout = 90 * time_Second,
      hc_ResponseHeaderTimeout = 30 * time_Second, hc_TLSHandshakeTimeout = 10 * time_Second,
      hc_Timeout = 30 * time_Second, hc_follow = False\<rparr>"

text \<open>A request ready to be sent, with the host of its URL.\<close>

record out_request =
  or_Method :: gostring
  or_URL :: gostring
  or_Host :: gostring
  or_Header :: http_header
  or_Body :: bytes

record 'e http_deps =
  hd_validator :: "'e domain_validator"
  hd_pool :: "'e \<Rightarrow> (gostring, http_client) gomap"
  hd_set_pool :: "(gostring, http_client) gomap \<Rightarrow> 'e \<Rightarrow> 'e"
  hd_Do :: "http_client \<Rightarrow> out_request \<Rightarrow> ('e, http_response result) action"
  hd_request_error :: "gostring \<Rightarrow> gostring \<Rightarrow> gostring"

definition getOrCreateClient :: "'e http_deps \<Rightarrow> gostring \<Rightarrow> ('e, http_client) action" where
  "getOrCreateClient d domain e =
     (case map_of (hd_pool d e) domain of
        Some client \<Rightarrow> (client, e)
      | None \<Rightarrow> (newClient, hd_set_pool d (AList.update domain newClient (hd_pool d e)) e))"

subsection \<open>Building the request\<close>

definition token_char :: "char \<Rightarrow> bool" where
  "token_char c \<longleftrightarrow> is_alpha c \<or> is_digit c \<or> c \<in> set ''!#$%&*+-.^_|~'' \<or> byte c \<in> {0x27, 0x60}"

definition removeEmptyPort :: "gostring \<Rightarrow> gostring" where
  "removeEmptyPort host = (if HasSuffix host '':'' then butlast host else host)"

text \<open>
  \<open>http.NewRequestWithContext\<close>: it fails on a method that is no token and on a URL that does not
  parse; \<open>msg\<close> is the text of that error.
\<close>

definition NewRequest ::
  "(gostring \<Rightarrow> gostring \<Rightarrow> gostring) \<Rightarrow> gostring \<Rightarrow> gostring \<Rightarrow> bytes \<Rightarrow> out_request result" where
  "NewRequest msg method0 url body =
     (let meth = (if method0 = [] then ''GET'' else method0) in
      if \<not> list_all token_char meth then Err (OpaqueErr ''*errors.errorString'' (msg method0 url))
      else
        (case url_Parse url of
           None \<Rightarrow> Err (OpaqueErr ''*url.Error'' (msg method0 url))
         | Some u \<Rightarrow>
             Ok \<lparr>or_Method = meth, or_URL = url, or_Host = removeEmptyPort (url_Host u),
                or_Header = [], or_Body = body\<rparr>))"

fun set_headers :: "(gostring, gostring) gomap \<Rightarrow> out_request \<Rightarrow> out_request" where
  "set_headers [] req = req"
| "set_headers ((k, v) # hs) req =
     set_headers hs (req\<lparr>or_Header := Header_Set (or_Header req) k v\<rparr>)"

definition maxBodySize :: nat where
  "maxBodySize = 16 * 1024 * 1024"

text \<open>\<open>io.ReadAll\<close> of a \<open>LimitReader\<close>: an error behind the limit is never seen.\<close>

definition read_limited :: "nat \<Rightarrow> http_response \<Rightarrow> bytes result" where
  "read_limited n resp =
     (if n \<le> length (hr_Body resp) then Ok (take n (hr_Body resp))
      else (case hr_BodyErr resp of None \<Rightarrow> Ok (hr_Body resp) | Some err \<Rightarrow> Err err))"

text \<open>\<open>Request\<close> up to the call of \<open>client.Do\<close>, and from its reply on.\<close>

definition prepare_request ::
  "unicode_tables \<Rightarrow> 'e http_deps \<Rightarrow> gostring \<Rightarrow> request_info
    \<Rightarrow> ('e, (http_client \<times> out_request) result) action" where
  "prepare_request U d domain info e =
     (case Validate U (hd_validator d) domain e of
        (Err err, e1) \<Rightarrow> (Err err, e1)
      | (Ok _, e1) \<Rightarrow>
          let targetURL = domain @ ri_Endpoint info in
          (case NewRequest (hd_request_error d) (ri_Method info) targetURL (ri_Body info) of
             Err err \<Rightarrow> (Err (ExternalErr (NewExternalAPIError 0 (error_text err))), e1)
           | Ok req \<Rightarrow>
               let req' = set_headers (ri_Headers info) req in
               (case getOrCreateClient d domain e1 of (client, e2) \<Rightarrow> (Ok (client, req'), e2))))"

definition finish_request :: "unicode_tables \<Rightarrow> http_response result \<Rightarrow> proxy_response result" where
  "finish_request U reply =
     (case reply of
        Err err \<Rightarrow> Err (ExternalErr (NewExternalAPIError 0 (error_text err)))
      | Ok resp \<Rightarrow>
          (case read_limited maxBodySize resp of
             Err err \<Rightarrow> Err (ExternalErr (NewExternalAPIError (hr_StatusCode resp) (error_text err)))
           | Ok body \<Rightarrow>
               if 400 \<le> hr_StatusCode resp
               then Err (ExternalErr (NewExternalAPIError (hr_StatusCode resp) body))
               else sanitize U resp body))"

definition Request :: "unicode_tables \<Rightarrow> 'e http_deps \<Rightarrow> gostring \<Rightarrow> request_info
    \<Rightarrow> ('e, proxy_response result) action" where
  "Request U d domain info e =
     (case prepare_request U d domain info e of
        (Err err, e2) \<Rightarrow> (Err err, e2)
      | (Ok (client, req), e2) \<Rightarrow>
          (case hd_Do d client req e2 of (reply, e3) \<Rightarrow> (finish_request U reply, e3)))"

subsection \<open>Properties\<close>

lemma filter_headers_eq:
  "filter_headers U hs =
     filter (\<lambda>(k, vs). ToLower U k \<notin> set hopByHopHeaders \<union> set excludedResponseHeaders) hs"
  by (induction U hs rule: filter_headers.induct) (simp_all add: Let_def)

text \<open>A response that is passed on has an admissible content type or none, the status and the body of
  the upstream response, and exactly those of its headers, unchanged, that are neither hop-by-hop nor
  on the list of excluded ones, in whatever case they are written.\<close>

theorem sanitize_filters:
  assumes "sanitize U resp body = Ok r"
  shows "pr_StatusCode r = hr_StatusCode resp \<and> pr_Body r = body
    \<and> map_of (pr_Headers r) k =
        (if ToLower U k \<in> set hopByHopHeaders \<union> set excludedResponseHeaders then None
         else map_of (hr_Header resp) k)
    \<and> (Header_Get (hr_Header resp) ''Content-Type'' = []
       \<or> (\<exists>allowed \<in> set allowedContentTypes.
            EqualFold U (TrimSpace (ToLower U (SplitFirst (Header_Get (hr_Header resp) ''Content-Type'')
              CHR '';''))) allowed))"
  using assms map_of_filter_key [of "\<lambda>k. ToLower U k \<notin> set hopByHopHeaders \<union> set excludedResponseHeaders"
      "hr_Header resp" k]
  by (auto simp: sanitize_def validateContentType_def filter_headers_eq Let_def list_ex_iff
      split: if_splits sum.splits)

definition demo_response :: http_response where
  "demo_response =
     \<lparr>hr_StatusCode = 200, hr_Header = [(''Vary'', [''Origin'']), (''Etag'', [''1''])], hr_Body = ''ok'',
      hr_BodyErr = None\<rparr>"

lemma demo_sanitize:
  "sanitize ascii_tables demo_response ''ok'' =
     Ok \<lparr>pr_StatusCode = 200, pr_Headers = [(''Etag'', [''1''])], pr_Body = ''ok''\<rparr>"
  by code_simp

theorem sanitize_filters_witness:
  "\<exists>r. sanitize ascii_tables demo_response ''ok'' = Ok r
    \<and> map_of (pr_Headers r) ''Vary'' = None \<and> map_of (pr_Headers r) ''Etag'' = Some [''1'']
    \<and> map_of (hr_Header demo_response) ''Vary'' \<noteq> None"
proof -
  have "ToLower ascii_tables ''Vary'' \<in> set hopByHopHeaders \<union> set excludedResponseHeaders"
    and "ToLower ascii_tables ''Etag'' \<notin> set hopByHopHeaders \<union> set excludedResponseHeaders" by code_simp+
  then show ?thesis
    using sanitize_filters [OF demo_sanitize, of "''Vary''"] sanitize_filters [OF demo_sanitize, of "''Etag''"]
    by (simp add: demo_sanitize) (simp add: demo_response_def)
qed


subsection \<open>The interface \<open>Requester\<close>\<close>

text \<open>
  What the services rely on when they call a \<open>Requester\<close>: a result that is no error has a status
  below 400 and a body of at most 16 MB.
\<close>

locale requester =
  fixes request :: "gostring \<Rightarrow> request_info \<Rightarrow> ('e, proxy_response result) action"
  assumes success: "request domain info e = (Ok resp, e') \<Longrightarrow>
    pr_StatusCode resp < 400 \<and> length (pr_Body resp) \<le> 16777216"
begin

lemma success_cases:
  obtains (refused) err e' where "request domain info e = (Err err, e')"
  | (answered) resp e' where "request domain info e = (Ok resp, e')" "pr_StatusCode resp < 400"
      "length (pr_Body resp) \<le> 16777216"
proof -
  obtain res e' where run: "request domain info e = (res, e')" by (metis surj_pair)
  show ?thesis
  proof (cases res)
    case (Inl err)
    then show ?thesis using refused run by simp
  next
    case (Inr resp)
    then show ?thesis using answered run success by simp
  qed
qed

end

lemma finish_request_Ok:
  assumes "finish_request U reply = Ok r"
  shows "pr_StatusCode r < 400 \<and> length (pr_Body r) \<le> 16777216"
  using assms
  by (auto simp: finish_request_def read_limited_def maxBodySize_def sanitize_def
      split: sum.splits if_splits option.splits)

interpretation http: requester "Request U d" for U d
proof
  fix domain info e resp e'
  assume "Request U d domain info e = (Ok resp, e')"
  then show "pr_StatusCode resp < 400 \<and> length (pr_Body resp) \<le> 16777216"
    using finish_request_Ok by (auto simp: Request_def split: prod.splits sum.splits)
qed

lemma https_nonempty: "EqualFold U s ''https'' \<Longrightarrow> s \<noteq> []"
proof
  assume "EqualFold U s ''https''" "s = []"
  moreover have "range_runes ''https'' = map byte ''https''"
    by (rule range_runes_ascii) (simp add: is_ascii_def byte_def)
  ultimately show False by (simp add: EqualFold_def range_runes_def)
qed

lemma Validate_checked:
  assumes "Validate U v domain e = (Ok x, e')"
  obtains u where "url_checked U domain = Some u"
  using assms unfolding Validate_cases by (cases "url_checked U domain") auto

lemma url_checked_host:
  "url_checked U domain = Some u \<Longrightarrow> url_Parse domain = Some u \<and> url_Host u \<noteq> [] \<and> url_Scheme u \<noteq> []"
  using https_nonempty [of U "url_Scheme u"]
  by (auto simp: url_checked_def split: if_splits bind_splits)

lemma set_headers_host [simp]:
  "or_Host (set_headers hs req) = or_Host req" "or_URL (set_headers hs req) = or_URL req"
  by (induction hs req rule: set_headers.induct) simp_all

lemma NewRequest_Ok:
  "NewRequest msg m url b = Ok req \<Longrightarrow>
     \<exists>u. url_Parse url = Some u \<and> or_Host req = removeEmptyPort (url_Host u) \<and> or_URL req = url"
  by (auto simp: NewRequest_def Let_def split: if_splits option.splits)

text \<open>A request is only ever sent after \<open>Validate\<close> has accepted its domain, and when its endpoint
  starts with a slash, it goes to the very host that was validated.\<close>

lemma prepared_request_host:
  assumes "prepare_request U d domain info e = (Ok (client, req), e2)"
  shows "(\<exists>u. url_Parse domain = Some u \<and> fst (Validate U (hd_validator d) domain e) = Ok ()
      \<and> or_URL req = domain @ ri_Endpoint info
      \<and> (HasPrefix (ri_Endpoint info) ''/'' \<longrightarrow> or_Host req = removeEmptyPort (url_Host u)))"
proof -
  obtain e1 where v: "Validate U (hd_validator d) domain e = (Ok (), e1)"
    using assms by (cases "Validate U (hd_validator d) domain e")
      (auto simp: prepare_request_def split: sum.splits)
  then obtain u where u: "url_Parse domain = Some u" "url_Host u \<noteq> []" "url_Scheme u \<noteq> []"
    using Validate_checked url_checked_host by metis
  obtain req0 where r0: "NewRequest (hd_request_error d) (ri_Method info) (domain @ ri_Endpoint info)
      (ri_Body info) = Ok req0" and req: "req = set_headers (ri_Headers info) req0"
    using assms v by (auto simp: prepare_request_def Let_def split: sum.splits prod.splits)
  obtain u' where u': "url_Parse (domain @ ri_Endpoint info) = Some u'"
    "or_Host req = removeEmptyPort (url_Host u')" "or_URL req = domain @ ri_Endpoint info"
    using NewRequest_Ok [OF r0] req by auto
  have "url_Host u' = url_Host u" if "HasPrefix (ri_Endpoint info) ''/''"
    using url_Parse_append [OF u] u'(1) that by (auto simp: HasPrefix_iff)
  then show ?thesis using u(1) u'(2,3) v by auto
qed

type_synonym demo_world = "(gostring, unit result) gomap"

definition demo_http :: "demo_world http_deps" where
  "demo_http =
     \<lparr>hd_validator = demo_validator, hd_pool = (\<lambda>e. []), hd_set_pool = (\<lambda>p e. e),
      hd_Do = (\<lambda>c r e. (Ok demo_response, e)), hd_request_error = (\<lambda>m u. [])\<rparr>"

definition demo_info :: "gostring \<Rightarrow> request_info" where
  "demo_info endpoint =
     \<lparr>ri_Headers = [], ri_Body = [], ri_Endpoint = endpoint, ri_Method = ''GET''\<rparr>"

lemma demo_prepare:
  assumes "url_Parse (''https://api.example.com'' @ endpoint) = Some u"
  shows "prepare_request ascii_tables demo_http ''https://api.example.com'' (demo_info endpoint) [] =
     (Ok (newClient,
        \<lparr>or_Method = ''GET'', or_URL = ''https://api.example.com'' @ endpoint,
         or_Host = removeEmptyPort (url_Host u), or_Header = [], or_Body = []\<rparr>),
      [(''api.example.com'', Ok ())])"
proof -
  have "list_all token_char ''GET''" by code_simp
  then show ?thesis
    using assms
    by (simp add: prepare_request_def demo_http_def demo_validate demo_info_def NewRequest_def
        getOrCreateClient_def Let_def)
qed

lemma set_update_cases: "(x, y) \<in> set (AList.update k v m) \<Longrightarrow> (x, y) = (k, v) \<or> (x, y) \<in> set m"
  by (induction m) (auto split: if_splits)

text \<open>Every client in the pool was made by \<open>newClient\<close>, so no request ever follows a redirect and each
  is given up after thirty seconds; taking a client for a domain keeps it that way, keeps the clients
  of the other domains, and gives the same client the next time.\<close>

theorem pool_clients:
  assumes "\<And>p e. hd_pool d (hd_set_pool d p e) = p"
    and "\<forall>(dom, c) \<in> set (hd_pool d e). c = newClient"
    and "getOrCreateClient d domain e = (client, e')"
  shows "\<not> hc_follow client \<and> hc_Timeout client = 30000000000
    \<and> (\<forall>(dom, c) \<in> set (hd_pool d e'). c = newClient)
    \<and> (\<forall>x. x \<noteq> domain \<longrightarrow> map_of (hd_pool d e') x = map_of (hd_pool d e) x)
    \<and> getOrCreateClient d domain e' = (client, e')"
proof (cases "map_of (hd_pool d e) domain")
  case None
  then have c: "client = newClient" "hd_pool d e' = AList.update domain newClient (hd_pool d e)"
    using assms(1,3) by (auto simp: getOrCreateClient_def)
  have "c' = newClient" if "(x, c') \<in> set (AList.update domain newClient (hd_pool d e))" for x c'
    using set_update_cases [OF that] assms(2) by auto
  then show ?thesis
    using c by (auto simp: getOrCreateClient_def update_conv' newClient_def time_Second_def)
next
  case (Some c)
  then have "(domain, c) \<in> set (hd_pool d e)" by (rule map_of_SomeD)
  then show ?thesis
    using Some assms(2,3) by (auto simp: getOrCreateClient_def newClient_def time_Second_def)
qed

definition demo_pool :: "(gostring, http_client) gomap http_deps" where
  "demo_pool =
     \<lparr>hd_validator = \<lparr>dv_cache = table_cache (\<lambda>e. []) (\<lambda>t e. e), dv_LookupHost = (\<lambda>h e. (Ok [], e))\<rparr>,
      hd_pool = id, hd_set_pool = (\<lambda>p e. p), hd_Do = (\<lambda>c r e. (Ok demo_response, e)),
      hd_request_error = (\<lambda>m u. [])\<rparr>"

theorem pool_clients_witness:
  "getOrCreateClient demo_pool ''d'' [(''d'', newClient)] = (newClient, [(''d'', newClient)])"
  using pool_clients [of demo_pool "[(''d'', newClient)]" "''d''" newClient "[(''d'', newClient)]"]
  by (simp add: demo_pool_def getOrCreateClient_def)

end
