(* ===== verification/LogSanitizer.thy ===== *)
theory LogSanitizer
  imports GoStrings
begin

text \<open>
  \<open>internal/log/service/body_truncator.go\<close> and \<open>header_sanitizer.go\<close>: what is cut off and masked
  before a request or a response is logged.
\<close>

subsection \<open>Bodies\<close>

definition maxBodyBytes :: nat where
  "maxBodyBytes = 2048"

record body_truncate_result =
  tr_Body :: gostring
  tr_Truncated :: bool
  tr_ContentLength :: int

definition truncateAtRuneBoundary :: "bytes \<Rightarrow> nat \<Rightarrow> gostring" where
  "truncateAtRuneBoundary b maxLen =
     (if length b \<le> maxLen then b else ToValidUTF8_drop (take maxLen b))"

definition TruncateBody :: "bytes \<Rightarrow> body_truncate_result" where
  "TruncateBody body =
     (if body = [] then \<lparr>tr_Body = [], tr_Truncated = False, tr_ContentLength = 0\<rparr>
      else if \<not> utf8_valid body then
        \<lparr>tr_Body = ''[binary data]'', tr_Truncated = False, tr_ContentLength = int (length body)\<rparr>
      else if length body \<le> maxBodyBytes then
        \<lparr>tr_Body = body, tr_Truncated = False, tr_ContentLength = int (length body)\<rparr>
      else
        \<lparr>tr_Body = truncateAtRuneBoundary body maxBodyBytes, tr_Truncated = True,
         tr_ContentLength = int (length body)\<rparr>)"

definition TruncateString :: "gostring \<Rightarrow> body_truncate_result" where
  "TruncateString text = TruncateBody text"

subsection \<open>Headers\<close>

definition sensitiveHeaderKeywords :: "gostring list" where
  "sensitiveHeaderKeywords = [''authorization'', ''cookie'', ''token'', ''secret'', ''credential'']"

definition isSensitive :: "unicode_tables \<Rightarrow> gostring \<Rightarrow> bool" where
  "isSensitive U headerName =
     (let lower = ToLower U headerName in list_ex (\<lambda>kw. Contains lower kw) sensitiveHeaderKeywords)"

definition MaskToken :: "gostring \<Rightarrow> gostring" where
  "MaskToken value =
     (if length value \<le> 6 then ''***''
      else take 3 value @ ''***'' @ drop (length value - 3) value)"

text \<open>The nil map is \<open>None\<close>; every other one is rebuilt key by key.\<close>

fun sanitize_entries :: "unicode_tables \<Rightarrow> (gostring, gostring) gomap \<Rightarrow> (gostring, gostring) gomap" where
  "sanitize_entries U [] = []"
| "sanitize_entries U ((k, v) # hs) =
     (k, if isSensitive U k then MaskToken v else v) # sanitize_entries U hs"

definition SanitizeHeaders :: "unicode_tables \<Rightarrow> (gostring, gostring) gomap option
    \<Rightarrow> (gostring, gostring) gomap" where
  "SanitizeHeaders U headers = (case headers of None \<Rightarrow> [] | Some hs \<Rightarrow> sanitize_entries U hs)"

subsection \<open>Properties\<close>

lemma TruncateBody_long:
  assumes "utf8_valid body" "2048 < length body"
  shows "\<exists>k \<le> 2048. 2045 \<le> k \<and> utf8_valid (take k body)
    \<and> TruncateBody body = \<lparr>tr_Body = take k body, tr_Truncated = True, tr_ContentLength = int (length body)\<rparr>"
proof -
  obtain k where "k \<le> 2048" "2048 \<le> k + 3" "ToValidUTF8_drop (take 2048 body) = take k body"
    "utf8_valid (take k body)"
    using ToValidUTF8_take [OF assms(1), of 2048] by blast
  then show ?thesis
    using assms by (intro exI [of _ k])
      (auto simp: TruncateBody_def maxBodyBytes_def truncateAtRuneBoundary_def)
qed

text \<open>C37: What the log stores of a body is bounded and well formed, whatever bytes the body has: it is valid
  UTF-8 of at most 2048 bytes, it is a prefix of the body when the body is valid UTF-8, and then
  at most three bytes (an incomplete last character) are lost beyond the limit; the content length
  is that of the whole body, and \<open>Truncated\<close> is set exactly for a valid body over the limit.\<close>

theorem truncate_body_sound:
  "utf8_valid (tr_Body (TruncateBody body)) \<and> length (tr_Body (TruncateBody body)) \<le> 2048
   \<and> tr_ContentLength (TruncateBody body) = int (length body)
   \<and> (tr_Truncated (TruncateBody body) \<longleftrightarrow> utf8_valid body \<and> 2048 < length body)
   \<and> (if utf8_valid body
      then prefix (tr_Body (TruncateBody body)) body
        \<and> min 2045 (length body) \<le> length (tr_Body (TruncateBody body))
      else tr_Body (TruncateBody body) = ''[binary data]'')"
proof (cases "utf8_valid body \<and> 2048 < length body")
  case True
  then show ?thesis using TruncateBody_long [of body] by (auto simp: take_is_prefix)
next
  case False
  have "utf8_valid ''[binary data]''"
    by (rule utf8_valid_ascii) (simp add: is_ascii_def byte_def)
  with False show ?thesis
    by (auto simp: TruncateBody_def maxBodyBytes_def)
qed

lemma map_fst_sanitize [simp]: "map fst (sanitize_entries U hs) = map fst hs"
  by (induction hs) auto

lemma map_of_sanitize:
  "map_of (sanitize_entries U hs) k =
     map_option (\<lambda>v. if isSensitive U k then MaskToken v else v) (map_of hs k)"
  by (induction hs) auto

lemma MaskToken_cases:
  "MaskToken v = (if length v \<le> 6 then ''***'' else take 3 v @ ''***'' @ drop (length v - 3) v)"
  by (simp add: MaskToken_def)

lemma MaskToken_middle:
  assumes "length a = 3" "length b = 3" "m \<noteq> []"
  shows "MaskToken (a @ m @ b) = a @ ''***'' @ b"
proof -
  have "\<not> length (a @ m @ b) \<le> 6" using assms by (cases m) auto
  moreover have "drop (length (a @ m @ b) - 3) (a @ m @ b) = b" "take 3 (a @ m @ b) = a"
    using assms by simp_all
  ultimately show ?thesis by (simp only: MaskToken_def if_False)
qed

text \<open>Two values of a sensitive header that agree in their first three and last three bytes, both longer
  than six bytes, are logged identically, and values of at most six bytes are all logged as
  \<open>***\<close>; the result has at most nine bytes. So nothing of the secret but these six bytes, not even
  its length, reaches the log.\<close>

theorem mask_hides_middle:
  assumes "length a = 3" "length b = 3" "m \<noteq> []" "m' \<noteq> []"
  shows "MaskToken (a @ m @ b) = MaskToken (a @ m' @ b)
    \<and> MaskToken (a @ m @ b) = a @ ''***'' @ b
    \<and> (\<forall>v. length (MaskToken v) \<le> 9 \<and> (length v \<le> 6 \<longrightarrow> MaskToken v = ''***''))"
  using MaskToken_middle [OF assms(1,2,3)] MaskToken_middle [OF assms(1,2,4)] by (auto simp: MaskToken_def)

theorem mask_hides_middle_witness:
  "MaskToken ''abcSECRETxyz'' = MaskToken ''abc?xyz''"
  using mask_hides_middle [of "''abc''" "''xyz''" "''SECRET''" "''?''"] by simp

text \<open>Sanitising headers keeps the names and their order, replaces the value of every header whose
  lower-cased name contains one of the keywords by its mask, and leaves every other value alone.\<close>

theorem sanitize_headers_lookup:
  "map fst (SanitizeHeaders U (Some hs)) = map fst hs
   \<and> SanitizeHeaders U None = []
   \<and> map_of (SanitizeHeaders U (Some hs)) k =
      map_option
        (\<lambda>v. if \<exists>kw \<in> {''authorization'', ''cookie'', ''token'', ''secret'', ''credential''}.
                  \<exists>a b. ToLower U k = a @ kw @ b
             then MaskToken v else v)
        (map_of hs k)"
  by (simp add: SanitizeHeaders_def map_of_sanitize isSensitive_def sensitiveHeaderKeywords_def
      Contains_iff Let_def)

end
