(* ===== verification/LogPublisher.thy ===== *)
theory LogPublisher
  imports ApiToken Requester LogSanitizer
begin

text \<open>
  \<open>internal/log\<close>: the document that is logged for each proxied request (\<open>model/proxy_log.go\<close>), how it
  is built and put into the buffered channel (\<open>service/log_publisher.go\<close>), and the worker goroutines
  that take documents out of the channel and save them (\<open>repository/log_repository.go\<close>). MongoDB, the
  clock, the time zone database and the generators of ids are parameters.
\<close>

subsection \<open>The document\<close>

record request_log =
  ql_Method :: gostring
  ql_Scheme :: gostring
  ql_Host :: gostring
  ql_Path :: gostring
  ql_Query :: gostring
  ql_Headers :: "(gostring, gostring) gomap"
  ql_IP :: gostring
  ql_UserAgent :: gostring
  ql_Body :: gostring
  ql_BodyTruncated :: bool
  ql_ContentLength :: int

record response_log =
  sl_Status :: int
  sl_Headers :: "(gostring, gostring) gomap"
  sl_Body :: gostring
  sl_BodyTruncated :: bool
  sl_ContentLength :: int

record origin_log =
  ol_Referer :: gostring
  ol_ForwardedFor :: gostring
  ol_Geo :: gostring

record error_log =
  el_Type :: gostring
  el_Message :: gostring
  el_Code :: int
  el_Stack :: gostring

text \<open>A pointer that may be nil is an \<open>option\<close>; the time stamp is in nanoseconds.\<close>

record proxy_log =
  px_ID :: gostring
  px_TraceID :: gostring
  px_Timestamp :: int
  px_Timezone :: gostring
  px_Direction :: gostring
  px_Request :: request_log
  px_Response :: "response_log option"
  px_LatencyMs :: int
  px_TokenID :: int
  px_UserID :: int
  px_Origin :: origin_log
  px_Result :: gostring
  px_Error :: "error_log option"

definition ResultSuccess :: gostring where
  "ResultSuccess = ''SUCCESS''"

definition ResultError :: gostring where
  "ResultError = ''ERROR''"

definition DirectionBrowserToServer :: gostring where
  "DirectionBrowserToServer = ''BROWSER_TO_SERVER''"

definition DirectionServerToServer :: gostring where
  "DirectionServerToServer = ''SERVER_TO_SERVER''"

definition logBufferSize :: nat where
  "logBufferSize = 512"

definition zoneKST :: gostring where
  "zoneKST = ''Asia/Seoul''"

subsection \<open>Building it\<close>

definition extractIP :: "http_request \<Rightarrow> gostring" where
  "extractIP r =
     (let xff = Header_Get (rq_Header r) ''X-Forwarded-For'' in
      if xff \<noteq> [] then xff
      else if rq_RemoteAddr r \<noteq> [] then SplitHostPort_host (rq_RemoteAddr r)
      else [])"

definition buildRequestLog :: "unicode_tables \<Rightarrow> request_info \<Rightarrow> http_request \<Rightarrow> request_log" where
  "buildRequestLog U info r =
     (let body = TruncateBody (ri_Body info) in
      \<lparr>ql_Method = ri_Method info, ql_Scheme = rq_Scheme r, ql_Host = rq_Host r, ql_Path = rq_Path r,
       ql_Query = rq_RawQuery r, ql_Headers = SanitizeHeaders U (Some (ri_Headers info)),
       ql_IP = extractIP r, ql_UserAgent = Header_Get (rq_Header r) ''User-Agent'',
       ql_Body = tr_Body body, ql_BodyTruncated = tr_Truncated body,
       ql_ContentLength = tr_ContentLength body\<rparr>)"

text \<open>The loop of \<open>buildResponseLog\<close>: the first value of every header that has one.\<close>

fun first_values :: "http_header \<Rightarrow> (gostring, gostring) gomap" where
  "first_values [] = []"
| "first_values ((k, vs) # hs) =
     (case vs of [] \<Rightarrow> first_values hs | v # _ \<Rightarrow> (k, v) # first_values hs)"

definition buildResponseLog :: "proxy_response \<Rightarrow> response_log" where
  "buildResponseLog resp =
     (let body = TruncateBody (pr_Body resp) in
      \<lparr>sl_Status = pr_StatusCode resp, sl_Headers = first_values (pr_Headers resp),
       sl_Body = tr_Body body, sl_BodyTruncated = tr_Truncated body,
       sl_ContentLength = tr_ContentLength body\<rparr>)"

definition buildOriginLog :: "http_request \<Rightarrow> origin_log" where
  "buildOriginLog r =
     \<lparr>ol_Referer = Header_Get (rq_Header r) ''Referer'',
      ol_ForwardedFor = Header_Get (rq_Header r) ''X-Forwarded-For'',
      ol_Geo = Header_Get (rq_Header r) ''CF-IPCountry''\<rparr>"

text \<open>The type assertions look at the error itself, not at what it wraps.\<close>

definition buildErrorLog :: "go_error option \<Rightarrow> error_log option" where
  "buildErrorLog err =
     (case err of
        None \<Rightarrow> None
      | Some e \<Rightarrow>
          let code = (case e of
              ProxyErr pe \<Rightarrow> pe_StatusCode pe
            | ExternalErr x \<Rightarrow> ee_UpstreamStatusCode x
            | _ \<Rightarrow> 500)
          in Some \<lparr>el_Type = error_type_name e, el_Message = error_text e, el_Code = code, el_Stack = []\<rparr>)"

text \<open>
  The publisher's surroundings. The channel is a part of the outside state; \<open>lp_LoadLocation\<close> tells
  whether the time zone is known. Its error is ignored, and \<open>In\<close> of a nil location panics: then
  \<open>buildLog\<close> gives \<open>None\<close>.
\<close>

record 'e log_publisher =
  lp_ch :: "'e \<Rightarrow> proxy_log list"
  lp_set_ch :: "proxy_log list \<Rightarrow> 'e \<Rightarrow> 'e"
  lp_LoadLocation :: "gostring \<Rightarrow> 'e \<Rightarrow> bool"
  lp_Now :: "('e, int) action"
  lp_NewObjectID :: "('e, gostring) action"
  lp_NewUUID :: "('e, gostring) action"

definition UnixMilli :: "int \<Rightarrow> int" where
  "UnixMilli t = t div 1000000"

definition buildLog ::
  "unicode_tables \<Rightarrow> 'e log_publisher \<Rightarrow> gostring \<Rightarrow> api_token \<Rightarrow> request_info \<Rightarrow> http_request \<Rightarrow> int
    \<Rightarrow> ('e, proxy_log option) action" where
  "buildLog U p direction token info r startedAt e =
     (case lp_Now p e of (now, e1) \<Rightarrow>
        if \<not> lp_LoadLocation p zoneKST e then (None, e1)
        else
          (case lp_NewObjectID p e1 of (oid, e2) \<Rightarrow>
           (case lp_NewUUID p e2 of (uuid, e3) \<Rightarrow>
           (case lp_Now p e3 of (ended, e4) \<Rightarrow>
              (Some \<lparr>px_ID = oid, px_TraceID = uuid, px_Timestamp = now, px_Timezone = zoneKST,
                 px_Direction = direction, px_Request = buildRequestLog U info r, px_Response = None,
                 px_LatencyMs = UnixMilli ended - startedAt, px_TokenID = ApiTokenID token,
                 px_UserID = UserID token, px_Origin = buildOriginLog r, px_Result = [],
                 px_Error = None\<rparr>,
               e4)))))"

subsection \<open>Publishing\<close>

text \<open>The non-blocking send to the channel, which drops the document when the buffer is full.\<close>

definition send_or_drop :: "'l \<Rightarrow> 'l list \<Rightarrow> 'l list" where
  "send_or_drop x ch = (if length ch < logBufferSize then ch @ [x] else ch)"

definition publish :: "'e log_publisher \<Rightarrow> proxy_log \<Rightarrow> 'e \<Rightarrow> 'e" where
  "publish p x e = lp_set_ch p (send_or_drop x (lp_ch p e)) e"

text \<open>The result tells whether the call returned (it panics otherwise).\<close>

definition PublishSuccess ::
  "unicode_tables \<Rightarrow> 'e log_publisher \<Rightarrow> gostring \<Rightarrow> api_token \<Rightarrow> request_info \<Rightarrow> http_request
    \<Rightarrow> proxy_response \<Rightarrow> int \<Rightarrow> ('e, bool) action" where
  "PublishSuccess U p direction token info r resp startedAt e =
     (case buildLog U p direction token info r startedAt e of
        (None, e1) \<Rightarrow> (False, e1)
      | (Some x, e1) \<Rightarrow>
          let x1 = x\<lparr>px_Result := ResultSuccess\<rparr>;
              x2 = x1\<lparr>px_Response := Some (buildResponseLog resp)\<rparr>
          in (True, publish p x2 e1))"

definition PublishError ::
  "unicode_tables \<Rightarrow> 'e log_publisher \<Rightarrow> gostring \<Rightarrow> api_token \<Rightarrow> request_info \<Rightarrow> http_request
    \<Rightarrow> go_error \<Rightarrow> int \<Rightarrow> ('e, bool) action" where
  "PublishError U p direction token info r err startedAt e =
     (case buildLog U p direction token info r startedAt e of
        (None, e1) \<Rightarrow> (False, e1)
      | (Some x, e1) \<Rightarrow>
          let x1 = x\<lparr>px_Result := ResultError\<rparr>;
              x2 = x1\<lparr>px_Error := buildErrorLog (Some err)\<rparr>;
              (status, body) =
                (case err of
                   ExternalErr ext \<Rightarrow> (ee_UpstreamStatusCode ext, ee_UpstreamBody ext)
                 | _ \<Rightarrow> (500, []));
              x3 = x2\<lparr>px_Response := Some \<lparr>sl_Status = status, sl_Headers = [], sl_Body = body,
                        sl_BodyTruncated = False, sl_ContentLength = 0\<rparr>\<rparr>
          in (True, publish p x3 e1))"

subsection \<open>Properties of publishing\<close>

text \<open>
  The channel is what was put into it last, no clock or generator of ids touches it, and the time
  zone is known.
\<close>

definition publisher_law :: "'e log_publisher \<Rightarrow> bool" where
  "publisher_law p \<longleftrightarrow>
     (\<forall>c e. lp_ch p (lp_set_ch p c e) = c) \<and> (\<forall>e. lp_LoadLocation p zoneKST e)
     \<and> (\<forall>e. lp_ch p (snd (lp_Now p e)) = lp_ch p e)
     \<and> (\<forall>e. lp_ch p (snd (lp_NewObjectID p e)) = lp_ch p e)
     \<and> (\<forall>e. lp_ch p (snd (lp_NewUUID p e)) = lp_ch p e)"

lemma buildLog_Some:
  assumes "publisher_law p"
  obtains x e' where "buildLog U p direction token info r startedAt e = (Some x, e')"
    "lp_ch p e' = lp_ch p e" "px_Direction x = direction" "px_TokenID x = ApiTokenID token"
    "px_UserID x = UserID token" "px_Request x = buildRequestLog U info r"
proof -
  obtain now e1 where a: "lp_Now p e = (now, e1)" by (cases "lp_Now p e")
  obtain oid e2 where b: "lp_NewObjectID p e1 = (oid, e2)" by (cases "lp_NewObjectID p e1")
  obtain uuid e3 where c: "lp_NewUUID p e2 = (uuid, e3)" by (cases "lp_NewUUID p e2")
  obtain ended e4 where d: "lp_Now p e3 = (ended, e4)" by (cases "lp_Now p e3")
  have "lp_ch p e4 = lp_ch p e"
    using assms a b c d unfolding publisher_law_def by (metis snd_conv)
  moreover have "lp_LoadLocation p zoneKST e" using assms by (simp add: publisher_law_def)
  ultimately show ?thesis using that a b c d by (simp add: buildLog_def)
qed

lemma publish_ch: "publisher_law p \<Longrightarrow> lp_ch p (publish p x e) = send_or_drop x (lp_ch p e)"
  by (simp add: publish_def publisher_law_def)

lemma TruncateBody_bound: "length (tr_Body (TruncateBody b)) \<le> 2048"
proof (cases "utf8_valid b \<and> 2048 < length b")
  case True
  then show ?thesis using TruncateBody_long [of b] by auto
next
  case False
  then show ?thesis by (auto simp: TruncateBody_def maxBodyBytes_def)
qed

lemma request_log_headers:
  "map_of (ql_Headers (buildRequestLog U info r)) k =
     map_option (\<lambda>v. if isSensitive U k then MaskToken v else v) (map_of (ri_Headers info) k)"
  by (simp add: buildRequestLog_def SanitizeHeaders_def map_of_sanitize Let_def)

lemma request_log_body: "length (ql_Body (buildRequestLog U info r)) \<le> 2048"
  by (simp add: buildRequestLog_def Let_def TruncateBody_bound)

lemma first_values_map_of:
  assumes "gomap_wf hs"
  shows "map_of (first_values hs) k = Option.bind (map_of hs k) (\<lambda>vs. if vs = [] then None else Some (hd vs))"
proof -
  have none: "map_of (first_values hs) k = None" if "k \<notin> fst ` set hs" for hs :: http_header
    using that by (induction hs) (auto split: list.splits)
  show ?thesis using assms none by (induction hs) (auto split: list.splits)
qed

text \<open>A success is logged once, without waiting, and without secrets: the call returns, it appends one
  document to a buffer that has room and drops it otherwise (so the buffer never exceeds 512), and
  the document carries the direction, the token and its owner, the result SUCCESS, the status of the
  response, the request headers with every sensitive value masked, and at most 2048 bytes of each
  body.\<close>

theorem success_log_published:
  assumes "publisher_law p" "length (lp_ch p e) \<le> 512"
  shows "\<exists>x e'. PublishSuccess U p direction token info r resp startedAt e = (True, e')
    \<and> lp_ch p e' = (if length (lp_ch p e) < 512 then lp_ch p e @ [x] else lp_ch p e)
    \<and> length (lp_ch p e') \<le> 512
    \<and> px_Direction x = direction \<and> px_TokenID x = ApiTokenID token \<and> px_UserID x = UserID token
    \<and> px_Result x = ''SUCCESS''
    \<and> map_option sl_Status (px_Response x) = Some (pr_StatusCode resp)
    \<and> (\<forall>k. map_of (ql_Headers (px_Request x)) k =
          map_option (\<lambda>v. if isSensitive U k then MaskToken v else v) (map_of (ri_Headers info) k))
    \<and> length (ql_Body (px_Request x)) \<le> 2048
    \<and> (\<forall>y. px_Response x = Some y \<longrightarrow> length (sl_Body y) \<le> 2048)"
proof -
  obtain x e1 where x: "buildLog U p direction token info r startedAt e = (Some x, e1)"
    "lp_ch p e1 = lp_ch p e" "px_Direction x = direction" "px_TokenID x = ApiTokenID token"
    "px_UserID x = UserID token" "px_Request x = buildRequestLog U info r"
    using buildLog_Some [OF assms(1)] by metis
  let ?x = "x\<lparr>px_Result := ResultSuccess, px_Response := Some (buildResponseLog resp)\<rparr>"
  have "PublishSuccess U p direction token info r resp startedAt e = (True, publish p ?x e1)"
    using x(1) by (simp add: PublishSuccess_def Let_def)
  moreover have "lp_ch p (publish p ?x e1) =
      (if length (lp_ch p e) < 512 then lp_ch p e @ [?x] else lp_ch p e)"
    using x(2) by (simp add: publish_ch [OF assms(1)] send_or_drop_def logBufferSize_def)
  ultimately show ?thesis
    using x assms(2)
    by (intro exI [of _ ?x] exI [of _ "publish p ?x e1"])
      (simp add: request_log_headers request_log_body buildResponseLog_def Let_def TruncateBody_bound
        ResultSuccess_def)
qed

text \<open>A publisher over a table: the channel is the state, the clock stands still.\<close>

definition demo_publisher :: "proxy_log list log_publisher" where
  "demo_publisher =
     \<lparr>lp_ch = id, lp_set_ch = (\<lambda>c e. c), lp_LoadLocation = (\<lambda>z e. True), lp_Now = (\<lambda>e. (0, e)),
      lp_NewObjectID = (\<lambda>e. (''id'', e)), lp_NewUUID = (\<lambda>e. (''uuid'', e))\<rparr>"

lemma demo_publisher_law: "publisher_law demo_publisher"
  by (simp add: publisher_law_def demo_publisher_def)

definition log_token :: api_token where
  "log_token =
     \<lparr>ApiTokenID = 7, UserID = 1, ApiTokenName = ''app'', ApiTokenUUID = ''client'',
      SecretKey = ''hash'', State = StateNormal\<rparr>"

theorem success_log_published_witness:
  "\<exists>x. PublishSuccess ascii_tables demo_publisher DirectionServerToServer log_token
      (demo_info ''/v1'') demo_request \<lparr>pr_StatusCode = 200, pr_Headers = [], pr_Body = ''ok''\<rparr> 0 [] = (True, [x])
    \<and> px_Result x = ''SUCCESS'' \<and> px_TokenID x = 7"
  using success_log_published [OF demo_publisher_law, of "[]" ascii_tables DirectionServerToServer log_token
      "demo_info ''/v1''" demo_request "\<lparr>pr_StatusCode = 200, pr_Headers = [], pr_Body = ''ok''\<rparr>" 0]
  by (auto simp: demo_publisher_def log_token_def)

text \<open>An error is logged with the status that belongs to it: an upstream failure with the status and the
  whole body of the upstream answer (0 when there was none), any other error with status 500 and no
  body, and the error entry has the code of the error itself: the upstream status, the status of an
  error of the proxy, or 500. Unlike every other body that is logged, the upstream body is not
  truncated.\<close>

theorem error_log_published:
  assumes "publisher_law p" "length (lp_ch p e) < 512"
  shows "\<exists>x y z e'. PublishError U p direction token info r err startedAt e = (True, e')
    \<and> lp_ch p e' = lp_ch p e @ [x] \<and> px_Result x = ''ERROR''
    \<and> px_Response x = Some y \<and> px_Error x = Some z \<and> el_Message z = error_text err
    \<and> (case err of
         ProxyErr pe \<Rightarrow> sl_Status y = 500 \<and> sl_Body y = [] \<and> el_Code z = pe_StatusCode pe
       | ExternalErr ext \<Rightarrow> sl_Status y = ee_UpstreamStatusCode ext \<and> sl_Body y = ee_UpstreamBody ext
           \<and> el_Code z = ee_UpstreamStatusCode ext
       | _ \<Rightarrow> sl_Status y = 500 \<and> sl_Body y = [] \<and> el_Code z = 500)"
proof -
  obtain x e1 where x: "buildLog U p direction token info r startedAt e = (Some x, e1)"
    "lp_ch p e1 = lp_ch p e"
    using buildLog_Some [OF assms(1)] by metis
  show ?thesis
    using x assms publish_ch [OF assms(1)]
    by (cases err)
      (auto simp: PublishError_def Let_def buildErrorLog_def send_or_drop_def logBufferSize_def
        ResultError_def)
qed

theorem error_log_published_witness:
  "\<exists>x. PublishError ascii_tables demo_publisher DirectionServerToServer log_token (demo_info ''/v1'')
      demo_request (ExternalErr (NewExternalAPIError 503 ''down'')) 0 [] = (True, [x])
    \<and> map_option sl_Status (px_Response x) = Some 503"
  using error_log_published [OF demo_publisher_law, of "[]" ascii_tables DirectionServerToServer log_token
      "demo_info ''/v1''" demo_request "ExternalErr (NewExternalAPIError 503 ''down'')" 0]
  by (auto simp: demo_publisher_def NewExternalAPIError_def)

end
