(* ===== verification/PriorityService.thy ===== *)
theory PriorityService
  imports Config
begin

text \<open>
  \<open>internal/queue/priority_service.go\<close>: the priority of a client from the number of its recent
  failures, which Redis counts. \<open>float64\<close> is modelled by the real numbers.
\<close>

record priority_service =
  basePriority :: real
  priorityIncrement :: real
  maxPriority :: real

definition NewPriorityService :: "queue_config \<Rightarrow> priority_service" where
  "NewPriorityService cfg =
     \<lparr>basePriority = BasePriority cfg, priorityIncrement = PriorityIncrement cfg,
      maxPriority = MaxPriority cfg\<rparr>"

definition failureKeyPrefix :: gostring where
  "failureKeyPrefix = ''proxy:queue:failure:''"

definition failureKeyTTL :: int where
  "failureKeyTTL = time_Hour"

definition calculatePriority :: "priority_service \<Rightarrow> int \<Rightarrow> real" where
  "calculatePriority s failureCount =
     (let priority = basePriority s - real_of_int failureCount * priorityIncrement s in
      if priority < basePriority s - maxPriority s then basePriority s - maxPriority s else priority)"

text \<open>Both results of the method are meaningful: with an error it still returns the base priority.\<close>

definition GetPriority ::
  "'e redis_client \<Rightarrow> priority_service \<Rightarrow> gostring \<Rightarrow> ('e, real \<times> go_error option) action" where
  "GetPriority rc s clientID e =
     (if clientID = [] then ((basePriority s, None), e)
      else
        (case redis_GetInt rc (failureKeyPrefix @ clientID) e of
           (Err err, e') \<Rightarrow>
             if err = RedisNil then ((basePriority s, None), e') else ((basePriority s, Some err), e')
         | (Ok failures, e') \<Rightarrow> ((calculatePriority s failures, None), e')))"

definition IncrementFailure :: "'e redis_client \<Rightarrow> gostring \<Rightarrow> ('e, unit result) action" where
  "IncrementFailure rc clientID e =
     (if clientID = [] then (Ok (), e)
      else rd_IncrExpire rc (failureKeyPrefix @ clientID) failureKeyTTL e)"

definition ResetFailure :: "'e redis_client \<Rightarrow> gostring \<Rightarrow> ('e, unit result) action" where
  "ResetFailure rc clientID e =
     (if clientID = [] then (Ok (), e) else rd_Del rc (failureKeyPrefix @ clientID) e)"

subsection \<open>Properties\<close>

lemma calculatePriority_max:
  "calculatePriority s n =
     max (basePriority s - real_of_int n * priorityIncrement s) (basePriority s - maxPriority s)"
  by (simp add: calculatePriority_def Let_def)

lemma calculatePriority_antimono:
  "0 \<le> priorityIncrement s \<Longrightarrow> m \<le> n \<Longrightarrow> calculatePriority s n \<le> calculatePriority s m"
  by (simp add: calculatePriority_max mult_right_mono max.coboundedI1)

text \<open>The counter of a client as a call of \<open>GetPriority\<close> sees it.\<close>

definition failure_count :: "'e redis_client \<Rightarrow> gostring \<Rightarrow> 'e \<Rightarrow> int result" where
  "failure_count rc clientID e = fst (redis_GetInt rc (failureKeyPrefix @ clientID) e)"

text \<open>A priority always lies between \<open>basePriority - maxPriority\<close> and \<open>basePriority\<close>, whatever Redis
  answers, and more recorded failures never give a greater one; a client without a counter, without
  a name, or whose counter cannot be read gets the base priority.\<close>

theorem priority_bounds:
  assumes "0 \<le> priorityIncrement s" "0 \<le> maxPriority s"
    and "\<And>n. failure_count rc clientID e = Ok n \<Longrightarrow> 0 \<le> n"
  shows "basePriority s - maxPriority s \<le> fst (fst (GetPriority rc s clientID e))
    \<and> fst (fst (GetPriority rc s clientID e)) \<le> basePriority s
    \<and> (clientID = [] \<or> (\<exists>err. failure_count rc clientID e = Err err) \<longrightarrow>
         fst (fst (GetPriority rc s clientID e)) = basePriority s)
    \<and> (\<forall>m n. clientID \<noteq> [] \<and> failure_count rc clientID e = Ok n \<and> m \<le> n \<longrightarrow>
         fst (fst (GetPriority rc s clientID e)) \<le> calculatePriority s m)"
proof (cases "clientID = []")
  case True
  then show ?thesis using assms(2) by (simp add: GetPriority_def)
next
  case False
  obtain r e' where get: "redis_GetInt rc (failureKeyPrefix @ clientID) e = (r, e')" by fastforce
  then have count: "failure_count rc clientID e = r" by (simp add: failure_count_def)
  show ?thesis
  proof (cases r)
    case (Inl err)
    then show ?thesis using assms(2) get count False by (simp add: GetPriority_def)
  next
    case (Inr n)
    then have "0 \<le> n" using assms(3) count by simp
    then have "calculatePriority s n \<le> basePriority s"
      using assms(1,2) by (simp add: calculatePriority_max)
    moreover have "calculatePriority s n \<le> calculatePriority s m" if "m \<le> n" for m
      using calculatePriority_antimono assms(1) that by blast
    ultimately show ?thesis
      using get count Inr False by (auto simp: GetPriority_def calculatePriority_max)
  qed
qed

definition demo_priorities :: priority_service where
  "demo_priorities = \<lparr>basePriority = 1, priorityIncrement = 0.2, maxPriority = 3\<rparr>"

definition demo_redis :: "(gostring, bytes) gomap redis_client" where
  "demo_redis = table_redis id (\<lambda>t e. t)"

theorem priority_bounds_witness:
  "fst (fst (GetPriority demo_redis demo_priorities ''k'' [(failureKeyPrefix @ ''k'', show_int 100)])) \<le> 1"
proof -
  have "failure_count demo_redis ''k'' [(failureKeyPrefix @ ''k'', show_int 100)] = Ok 100"
    using ParseInt64_show [of 100] by (simp add: failure_count_def redis_GetInt_def demo_redis_def table_redis_def)
  then show ?thesis
    using priority_bounds [of demo_priorities demo_redis "''k''" "[(failureKeyPrefix @ ''k'', show_int 100)]"]
    by (simp add: demo_priorities_def)
qed

text \<open>One recorded failure lowers the priority the client gets next by the increment, down to the lower
  bound, and a reset brings it back to the base priority, when Redis keeps what it is told.\<close>

theorem priority_after_failure:
  assumes "rc = table_redis rd wr" "\<And>t e. rd (wr t e) = t"
    and "clientID \<noteq> []" "redis_number (map_of (rd e) (failureKeyPrefix @ clientID)) = n"
    and "0 \<le> n" "n < 2 ^ 63 - 1"
  shows "fst (fst (GetPriority rc s clientID (snd (IncrementFailure rc clientID e)))) =
      calculatePriority s (n + 1)
    \<and> fst (fst (GetPriority rc s clientID (snd (ResetFailure rc clientID e)))) = basePriority s"
proof -
  have "ParseInt64 (show_int (n + 1)) = Ok (n + 1)" using assms(5,6) by (intro ParseInt64_show) auto
  moreover have "snd (IncrementFailure rc clientID e) =
      wr (AList.update (failureKeyPrefix @ clientID) (show_int (n + 1)) (rd e)) e"
    using assms(1,3,4) by (simp add: IncrementFailure_def table_redis_def table_add_def Let_def)
  ultimately show ?thesis
    using assms(1,2,3)
    by (simp add: GetPriority_def ResetFailure_def redis_GetInt_def table_redis_def update_conv'
        map_of_remove_key)
qed

theorem priority_after_failure_witness:
  "fst (fst (GetPriority demo_redis demo_priorities ''k'' (snd (IncrementFailure demo_redis ''k'' [])))) = 0.8"
  using priority_after_failure [of demo_redis id "\<lambda>t e. t" "''k''" "[]" 0 demo_priorities]
  by (simp add: demo_redis_def redis_number_def calculatePriority_def demo_priorities_def)

end
