(* ===== verification/Pipeline.thy ===== *)
theory Pipeline
  imports RateLimiter LogPublisher PriorityService
begin

text \<open>
  \<open>internal/domain/api/service\<close>: the flow of a proxied request (\<open>pipeline.go\<close>), the two services that
  supply its access check (\<open>browser_service.go\<close>, \<open>server_service.go\<close>) and the health check
  (\<open>health_service.go\<close>). The \<open>go\<close> statements on the way are returned as tasks, in their order.
\<close>

subsection \<open>The pipeline\<close>

text \<open>How a call ends: it returns, or it panics (in the time zone lookup of the log).\<close>

datatype 'a outcome = Returned 'a | Panicked

record 'e pipeline =
  pl_query :: "'e query_deps"
  pl_httpReq :: "gostring \<Rightarrow> request_info \<Rightarrow> ('e, proxy_response result) action"
  pl_log :: "'e log_publisher"
  pl_limiter :: "'e rate_limiter"
  pl_state :: "'e repositories"

type_synonym 'e token_validator = "api_token \<Rightarrow> ('e, unit result \<times> task list) action"

definition Execute ::
  "unicode_tables \<Rightarrow> 'e pipeline \<Rightarrow> gostring \<Rightarrow> request_info \<Rightarrow> http_request \<Rightarrow> gostring
    \<Rightarrow> 'e token_validator \<Rightarrow> ('e, proxy_response result outcome \<times> task list) action" where
  "Execute U p clientID info r direction validator e =
     (case lp_Now (pl_log p) e of (now, e0) \<Rightarrow>
      let startedAt = UnixMilli now in
      (case FindByClientID (pl_query p) clientID e0 of
         ((Err err, ts), e1) \<Rightarrow> ((Returned (Err err), ts), e1)
       | ((Ok token, ts), e1) \<Rightarrow>
      (case validator token e1 of
         ((Err err, ts1), e2) \<Rightarrow> ((Returned (Err err), ts @ ts1), e2)
       | ((Ok _, ts1), e2) \<Rightarrow>
      (case ValidateNotBlocked token of
         Err err \<Rightarrow> ((Returned (Err err), ts @ ts1), e2)
       | Ok _ \<Rightarrow>
      let ts2 = ts @ ts1 @ [TrackRequest (ApiTokenID token)] in
      (case FindByTokenAndEndpoint (pl_query p) (ApiTokenID token) (ri_Endpoint info) e2 of
         ((Err err, ts3), e3) \<Rightarrow> ((Returned (Err err), ts2 @ ts3), e3)
       | ((Ok usage, ts3), e3) \<Rightarrow>
      (case pl_httpReq p (Domain usage) info e3 of (resp, e4) \<Rightarrow>
      let ts4 = ts2 @ ts3 @ [ReleaseRequest (ApiTokenID token)] in
      (case resp of
         Err err \<Rightarrow>
           (case PublishError U (pl_log p) direction token info r err startedAt e4 of
              (ok, e5) \<Rightarrow> ((if ok then Returned (Err err) else Panicked, ts4), e5))
       | Ok res \<Rightarrow>
           (case PublishSuccess U (pl_log p) direction token info r res startedAt e4 of
              (ok, e5) \<Rightarrow> ((if ok then Returned (Ok res) else Panicked, ts4), e5)))))))))"

definition trackRequest :: "'e pipeline \<Rightarrow> int \<Rightarrow> 'e \<Rightarrow> 'e" where
  "trackRequest p apiTokenID e =
     (case rl_IncrementConcurrent (pl_limiter p) apiTokenID e of (_, e1) \<Rightarrow>
      (case rl_IncrementAndGet (pl_limiter p) apiTokenID e1 of
         (Err err, e2) \<Rightarrow> e2
       | (Ok _, e2) \<Rightarrow> snd (rl_CheckAndUpdateState (pl_limiter p) (pl_state p) apiTokenID e2)))"

definition releaseRequest :: "'e pipeline \<Rightarrow> int \<Rightarrow> 'e \<Rightarrow> 'e" where
  "releaseRequest p apiTokenID e = snd (rl_DecrementConcurrent (pl_limiter p) apiTokenID e)"

text \<open>What the goroutines of the request path do when they run.\<close>

definition run_task :: "'e pipeline \<Rightarrow> task \<Rightarrow> 'e \<Rightarrow> 'e" where
  "run_task p t e =
     (case t of
        RedisSet key data ttl \<Rightarrow> snd (rd_Set (tc_redis (qd_cache (pl_query p))) key data ttl e)
      | TrackRequest i \<Rightarrow> trackRequest p i e
      | ReleaseRequest i \<Rightarrow> releaseRequest p i e
      | CountFailure clientID \<Rightarrow> snd (IncrementFailure (tc_redis (qd_cache (pl_query p))) clientID e))"

subsection \<open>The services\<close>

definition browser_validator ::
  "unicode_tables \<Rightarrow> 'e query_deps \<Rightarrow> gostring \<Rightarrow> 'e token_validator" where
  "browser_validator U q origin apiToken e =
     (case FindAllByTokenID q (ApiTokenID apiToken) e of
        ((Err err, ts), e') \<Rightarrow> ((Err err, ts), e')
      | ((Ok domains, ts), e') \<Rightarrow> ((ValidateBrowserAccess U apiToken origin domains, ts), e'))"

definition Browser_Handle ::
  "unicode_tables \<Rightarrow> 'e pipeline \<Rightarrow> gostring \<Rightarrow> http_request \<Rightarrow> bytes
    \<Rightarrow> ('e, proxy_response result outcome \<times> task list) action" where
  "Browser_Handle U p token r body =
     (let origin = Header_Get (rq_Header r) ''Origin'';
          info = NewRequestInfo U r body
      in Execute U p token info r DirectionBrowserToServer (browser_validator U (pl_query p) origin))"

definition server_validator :: "bcrypt_compare \<Rightarrow> gostring \<Rightarrow> 'e token_validator" where
  "server_validator cmp secretKey apiToken e = ((ValidateServerAccess cmp apiToken secretKey, []), e)"

definition Server_Handle ::
  "unicode_tables \<Rightarrow> bcrypt_compare \<Rightarrow> 'e pipeline \<Rightarrow> gostring \<Rightarrow> gostring \<Rightarrow> http_request \<Rightarrow> bytes
    \<Rightarrow> ('e, proxy_response result outcome \<times> task list) action" where
  "Server_Handle U cmp p secretKey token r body =
     (let info = NewRequestInfo U r body
      in Execute U p token info r DirectionServerToServer (server_validator cmp secretKey))"

record health_response =
  hs_Healthy :: bool
  hs_Body :: gostring

record 'e health_service =
  hv_httpReq :: "gostring \<Rightarrow> request_info \<Rightarrow> ('e, proxy_response result) action"
  hv_validator :: "'e domain_validator"

definition Health_Check ::
  "unicode_tables \<Rightarrow> 'e health_service \<Rightarrow> gostring \<Rightarrow> gostring \<Rightarrow> gostring \<Rightarrow> http_request \<Rightarrow> bytes
    \<Rightarrow> ('e, health_response result) action" where
  "Health_Check U s endpoint meth domain r body e =
     (case Validate U (hv_validator s) domain e of
        (Err err, e1) \<Rightarrow> (Err err, e1)
      | (Ok _, e1) \<Rightarrow>
          let info = (NewRequestInfo U r body)\<lparr>ri_Endpoint := endpoint, ri_Method := meth\<rparr> in
          (case hv_httpReq s domain info e1 of
             (Err err, e2) \<Rightarrow> (Ok \<lparr>hs_Healthy = False, hs_Body = []\<rparr>, e2)
           | (Ok resp, e2) \<Rightarrow>
               (Ok \<lparr>hs_Healthy = (pr_StatusCode resp < 400), hs_Body = pr_Body resp\<rparr>, e2)))"

subsection \<open>What a run of the pipeline went through\<close>

lemma blocked_iff: "ValidateNotBlocked t = Err err \<longleftrightarrow> State t = StateBlocked \<and> err = ProxyErr ErrApiTokenBlocked"
  by (auto simp: ValidateNotBlocked_def)

lemma not_blocked_iff: "ValidateNotBlocked t = Ok x \<longleftrightarrow> State t \<noteq> StateBlocked"
  by (auto simp: ValidateNotBlocked_def)

text \<open>The checks before the call, with what they return and the state they leave.\<close>

definition checks_passed ::
  "'e pipeline \<Rightarrow> gostring \<Rightarrow> request_info \<Rightarrow> 'e token_validator \<Rightarrow> 'e
    \<Rightarrow> api_token \<Rightarrow> api_usage \<Rightarrow> task list \<Rightarrow> task list \<Rightarrow> 'e \<Rightarrow> bool" where
  "checks_passed p clientID info validator e token usage ts ts3 e3 \<longleftrightarrow>
     (\<exists>ts0 e1 ts1 e2.
        FindByClientID (pl_query p) clientID (snd (lp_Now (pl_log p) e)) = ((Ok token, ts0), e1)
        \<and> validator token e1 = ((Ok (), ts1), e2) \<and> State token \<noteq> StateBlocked
        \<and> FindByTokenAndEndpoint (pl_query p) (ApiTokenID token) (ri_Endpoint info) e2 = ((Ok usage, ts3), e3)
        \<and> ts = ts0 @ ts1)"

lemma checks_passed_httpReq:
  "checks_passed (p\<lparr>pl_httpReq := f\<rparr>) = checks_passed p"
  by (intro ext) (simp add: checks_passed_def)

lemma Execute_passed:
  assumes "checks_passed p clientID info validator e token usage ts ts3 e3"
    and "pl_httpReq p (Domain usage) info e3 = (resp, e4)"
  shows "Execute U p clientID info r direction validator e =
    (case (case resp of
        Err err \<Rightarrow> PublishError U (pl_log p) direction token info r err (UnixMilli (fst (lp_Now (pl_log p) e))) e4
      | Ok res \<Rightarrow> PublishSuccess U (pl_log p) direction token info r res (UnixMilli (fst (lp_Now (pl_log p) e))) e4)
     of (ok, e5) \<Rightarrow>
       ((if ok then Returned resp else Panicked,
         ts @ [TrackRequest (ApiTokenID token)] @ ts3 @ [ReleaseRequest (ApiTokenID token)]), e5))"
proof -
  obtain now e0 where n: "lp_Now (pl_log p) e = (now, e0)" by (metis surj_pair)
  then obtain ts0 e1 ts1 e2 where
    "FindByClientID (pl_query p) clientID e0 = ((Ok token, ts0), e1)"
    "validator token e1 = ((Ok (), ts1), e2)" "ValidateNotBlocked token = Ok ()"
    "FindByTokenAndEndpoint (pl_query p) (ApiTokenID token) (ri_Endpoint info) e2 = ((Ok usage, ts3), e3)"
    "ts = ts0 @ ts1"
    using assms(1) by (auto simp: checks_passed_def not_blocked_iff)
  then show ?thesis
    using n assms(2) by (cases resp) (simp_all add: Execute_def Let_def case_prod_beta)
qed

text \<open>Otherwise the request is refused, whatever the upstream would do.\<close>

lemma Execute_refused:
  assumes "\<And>token usage ts ts3 e3. \<not> checks_passed p clientID info validator e token usage ts ts3 e3"
  shows "\<exists>err ts e'. \<forall>f g. Execute U (p\<lparr>pl_httpReq := f, pl_log := (pl_log p)\<lparr>lp_set_ch := g\<rparr>\<rparr>)
      clientID info r direction validator e = ((Returned (Err err), ts), e')"
proof -
  obtain now e0 where n: "lp_Now (pl_log p) e = (now, e0)" by (metis surj_pair)
  obtain res ts0 e1 where a: "FindByClientID (pl_query p) clientID e0 = ((res, ts0), e1)"
    by (metis surj_pair)
  show ?thesis
  proof (cases res)
    case (Inl err)
    then show ?thesis using n a by (simp add: Execute_def Let_def)
  next
    case token: (Inr token)
    obtain v ts1 e2 where b: "validator token e1 = ((v, ts1), e2)" by (metis surj_pair)
    show ?thesis
    proof (cases v)
      case (Inl err)
      then show ?thesis using n a b token by (simp add: Execute_def Let_def)
    next
      case ok: (Inr u)
      obtain fu ts3 e3 where c: "FindByTokenAndEndpoint (pl_query p) (ApiTokenID token) (ri_Endpoint info) e2
          = ((fu, ts3), e3)" by (metis surj_pair)
      show ?thesis
      proof (cases "State token = StateBlocked")
        case True
        then have "ValidateNotBlocked token = Err (ProxyErr ErrApiTokenBlocked)"
          by (simp add: blocked_iff)
        then show ?thesis using n a b token ok by (simp add: Execute_def Let_def)
      next
        case False
        have "fu \<noteq> Ok usage" for usage
          using assms [of token usage "ts0 @ ts1" ts3 e3] n a b c token ok False
          by (auto simp: checks_passed_def)
        then obtain err where "fu = Err err" by (cases fu) auto
        moreover have "ValidateNotBlocked token = Ok ()" using False by (simp add: not_blocked_iff)
        ultimately show ?thesis using n a b c token ok
          by (simp add: Execute_def Let_def)
      qed
    qed
  qed
qed

lemma Execute_refused_same:
  assumes "\<And>token usage ts ts3 e3. \<not> checks_passed p clientID info validator e token usage ts ts3 e3"
  obtains err ts e' where "Execute U p clientID info r direction validator e = ((Returned (Err err), ts), e')"
    "\<And>f g. Execute U (p\<lparr>pl_httpReq := f, pl_log := (pl_log p)\<lparr>lp_set_ch := g\<rparr>\<rparr>)
      clientID info r direction validator e = ((Returned (Err err), ts), e')"
proof -
  obtain err ts e' where *: "\<forall>f g. Execute U (p\<lparr>pl_httpReq := f, pl_log := (pl_log p)\<lparr>lp_set_ch := g\<rparr>\<rparr>)
      clientID info r direction validator e = ((Returned (Err err), ts), e')"
    using Execute_refused [OF assms] by blast
  from this [THEN spec, of "pl_httpReq p", THEN spec, of "lp_set_ch (pl_log p)"] show ?thesis using that * by simp
qed

lemma checks_passed_unique:
  assumes "checks_passed p c info v e token usage ts ts3 e3" "checks_passed p c info v e token' usage' ts' ts3' e3'"
  shows "token' = token \<and> usage' = usage \<and> ts' = ts \<and> ts3' = ts3 \<and> e3' = e3"
  using assms by (auto simp: checks_passed_def)

lemma Execute_Ok_checked:
  assumes "Execute U p clientID info r direction validator e = ((Returned (Ok res), ts), e')"
  obtains token usage ts0 ts3 e3 where "checks_passed p clientID info validator e token usage ts0 ts3 e3"
    "fst (pl_httpReq p (Domain usage) info e3) = Ok res"
proof (cases "\<exists>token usage ts ts3 e3. checks_passed p clientID info validator e token usage ts ts3 e3")
  case True
  then obtain token usage ts0 ts3 e3 where c: "checks_passed p clientID info validator e token usage ts0 ts3 e3"
    by blast
  obtain resp e4 where u: "pl_httpReq p (Domain usage) info e3 = (resp, e4)" by (metis surj_pair)
  have "resp = Ok res"
    using assms unfolding Execute_passed [OF c u] by (auto split: prod.splits if_splits)
  then show ?thesis using that [OF c] u by simp
next
  case False
  then obtain err ts e'' where "Execute U p clientID info r direction validator e = ((Returned (Err err), ts), e'')"
    using Execute_refused_same by metis
  then show ?thesis using assms by simp
qed

lemma browser_validator_Ok:
  assumes "browser_validator U q origin token e = ((Ok x, ts), e')"
  obtains domains d where "FindAllByTokenID q (ApiTokenID token) e = ((Ok domains, ts), e')"
    "origin \<noteq> []" "d \<in> set domains" "normalize U (Origin d) = normalize U origin"
proof -
  obtain domains where d: "FindAllByTokenID q (ApiTokenID token) e = ((Ok domains, ts), e')"
    "ValidateBrowserAccess U token origin domains = Ok ()"
    using assms by (auto simp: browser_validator_def split: prod.splits sum.splits)
  then show ?thesis
    using that by (auto simp: ValidateBrowserAccess_def match_any_domain_Ok MatchesOrigin_def split: if_splits)
qed

lemma FindBy_slash:
  assumes "FindByTokenAndEndpoint q tokenID endpoint e = ((Ok usage, ts), e')"
    and "Endpoint usage = render (Text (CHR ''/'' # s) # ps)"
    and "list_all piece_wf (Text (CHR ''/'' # s) # ps)"
  shows "HasPrefix endpoint ''/''"
proof -
  obtain us where "first_match (qd_regexp q) (SplitFirst endpoint CHR ''?'') us = Ok usage"
    using assms(1) by (auto simp: FindByTokenAndEndpoint_def Let_def split: prod.splits sum.splits)
  then have "matchesTemplate (qd_regexp q) (render (Text (CHR ''/'' # s) # ps)) (SplitFirst endpoint CHR ''?'')"
    using assms(2) by (auto simp: first_match_Ok)
  then have "HasPrefix (SplitFirst endpoint CHR ''?'') ''/''"
    using template_match_slash [OF assms(3)] by blast
  then show ?thesis by (cases endpoint) (auto simp: SplitFirst_def HasPrefix_def split: if_splits)
qed

subsection \<open>A concrete pipeline\<close>

record pipe_world = rate_world +
  pw_ch :: "proxy_log list"

definition demo_pipeline :: "pipe_world pipeline" where
  "demo_pipeline =
     \<lparr>pl_query = demo_query, pl_httpReq = (\<lambda>domain info e. (finish_request ascii_tables (Ok demo_response), e)),
      pl_log = \<lparr>lp_ch = pw_ch, lp_set_ch = (\<lambda>c e. e\<lparr>pw_ch := c\<rparr>), lp_LoadLocation = (\<lambda>z e. True),
        lp_Now = (\<lambda>e. (0, e)), lp_NewObjectID = (\<lambda>e. (''id'', e)), lp_NewUUID = (\<lambda>e. (''uuid'', e))\<rparr>,
      pl_limiter = redis_limiter (table_limiter 200), pl_state = demo_repo\<rparr>"

definition pipe_world0 :: pipe_world where
  "pipe_world0 =
     \<lparr>tb_local = [(TokenDomainKey 7, ''x'')], tb_redis = [], qw_token = demo_token, rw_now = noon, pw_ch = []\<rparr>"

lemma demo_pipeline_sel [simp]:
  "pl_query demo_pipeline = demo_query" "pl_limiter demo_pipeline = redis_limiter (table_limiter 200)"
  "pl_state demo_pipeline = demo_repo" "lp_Now (pl_log demo_pipeline) e = (0, e)"
  by (simp_all add: demo_pipeline_def)

lemma demo_finish:
  "finish_request ascii_tables (Ok demo_response) =
     Ok \<lparr>pr_StatusCode = 200, pr_Headers = [(''Etag'', [''1''])], pr_Body = ''ok''\<rparr>"
proof -
  have "read_limited maxBodySize demo_response = Ok ''ok''"
    by (simp add: read_limited_def maxBodySize_def demo_response_def)
  then show ?thesis
    using demo_sanitize by (simp add: finish_request_def demo_response_def)
qed

definition demo_request_to :: "gostring \<Rightarrow> http_request" where
  "demo_request_to path =
     \<lparr>rq_Method = ''GET'', rq_Scheme = [], rq_Host = ''proxy'', rq_Path = path, rq_RawQuery = [],
      rq_Header = [(''Origin'', [''https://app.kr''])], rq_RemoteAddr = ''192.0.2.1:1234''\<rparr>"

lemma demo_endpoint: "extractEndpoint (demo_request_to ''/proxy-server/users/42'') = ''/users/42''"
  by (simp add: extractEndpoint_def demo_request_to_def resolveBasePath_def HasPrefix_def
      BrowserBasePath_def ServerBasePath_def)

lemma demo_keys [simp]:
  "ApiTokenKey c \<noteq> ApiUsageListKey i" "ApiUsageListKey i \<noteq> ApiTokenKey c" "ApiTokenKey c \<noteq> TokenDomainKey i"
  "TokenDomainKey i \<noteq> ApiTokenKey c" "ApiUsageListKey i \<noteq> TokenDomainKey j"
  "TokenDomainKey i \<noteq> ApiUsageListKey j"
  by (simp_all add: key_defs)

lemma demo_token_lookup:
  "FindByClientID demo_query ''client'' pipe_world0 =
     ((Ok demo_token, [RedisSet (ApiTokenKey ''client'') ''x'' (10 * time_Minute)]),
      pipe_world0\<lparr>tb_local := [(TokenDomainKey 7, ''x''), (ApiTokenKey ''client'', ''x'')]\<rparr>)"
  by (simp add: FindByClientID_def GetOrFetch_def cache_lookup_def demo_query_defs pipe_world0_def
      demo_token_def)

lemma demo_usage_lookup:
  "FindByTokenAndEndpoint demo_query 7 ''/users/42'' (pipe_world0\<lparr>tb_local := t\<rparr>) =
     ((case map_of t (ApiUsageListKey 7) of None \<Rightarrow>
        ((Ok demo_usage, [RedisSet (ApiUsageListKey 7) ''x'' (10 * time_Minute)]),
         pipe_world0\<lparr>tb_local := AList.update (ApiUsageListKey 7) ''x'' t\<rparr>)
      | Some b \<Rightarrow> ((Ok demo_usage, []), pipe_world0\<lparr>tb_local := t\<rparr>)))"
proof -
  have "matchesTemplate (\<lambda>_ _. False) (Endpoint demo_usage) ''/users/42''"
    using users_match by (simp add: demo_usage_def users_render)
  moreover have "SplitFirst ''/users/42'' CHR ''?'' = ''/users/42''" by (simp add: SplitFirst_def)
  ultimately show ?thesis
    by (simp add: FindByTokenAndEndpoint_def GetOrFetchSlice_def GetOrFetch_def cache_lookup_def
        demo_query_defs pipe_world0_def split: option.splits)
qed

text \<open>The state in which the upstream is called.\<close>

definition pipe_world1 :: pipe_world where
  "pipe_world1 = pipe_world0\<lparr>tb_local :=
     [(TokenDomainKey 7, ''x''), (ApiTokenKey ''client'', ''x''), (ApiUsageListKey 7, ''x'')]\<rparr>"

lemma demo_checks:
  assumes "ri_Endpoint info = ''/users/42''" "\<And>t. validator demo_token (pipe_world0\<lparr>tb_local := (TokenDomainKey 7, ''x'') # t\<rparr>)
      = ((Ok (), []), pipe_world0\<lparr>tb_local := (TokenDomainKey 7, ''x'') # t\<rparr>)"
  shows "checks_passed demo_pipeline ''client'' info validator pipe_world0 demo_token demo_usage
    [RedisSet (ApiTokenKey ''client'') ''x'' (10 * time_Minute)]
    [RedisSet (ApiUsageListKey 7) ''x'' (10 * time_Minute)] pipe_world1"
proof -
  have id: "ApiTokenID demo_token = 7" "State demo_token \<noteq> StateBlocked" by (simp_all add: demo_token_def)
  have look: "FindByTokenAndEndpoint demo_query 7 ''/users/42''
      (pipe_world0\<lparr>tb_local := [(TokenDomainKey 7, ''x''), (ApiTokenKey ''client'', ''x'')]\<rparr>) =
      ((Ok demo_usage, [RedisSet (ApiUsageListKey 7) ''x'' (10 * time_Minute)]), pipe_world1)"
    unfolding demo_usage_lookup by (simp add: pipe_world1_def)
  show ?thesis
    unfolding checks_passed_def
    using assms(1) assms(2) [of "[(ApiTokenKey ''client'', ''x'')]"] look id demo_token_lookup by simp
qed

lemma demo_world_ch [simp]: "pw_ch pipe_world1 = []" "pw_ch pipe_world0 = []"
  by (simp_all add: pipe_world1_def pipe_world0_def)

lemma demo_log_law: "publisher_law (pl_log demo_pipeline)"
  by (simp add: publisher_law_def demo_pipeline_def)

lemma demo_execute:
  assumes "ri_Endpoint info = ''/users/42''" "\<And>t. validator demo_token (pipe_world0\<lparr>tb_local := (TokenDomainKey 7, ''x'') # t\<rparr>)
      = ((Ok (), []), pipe_world0\<lparr>tb_local := (TokenDomainKey 7, ''x'') # t\<rparr>)"
  shows "\<exists>e'. Execute U demo_pipeline ''client'' info r direction validator pipe_world0 =
    ((Returned (Ok \<lparr>pr_StatusCode = 200, pr_Headers = [(''Etag'', [''1''])], pr_Body = ''ok''\<rparr>),
      [RedisSet (ApiTokenKey ''client'') ''x'' (10 * time_Minute), TrackRequest 7,
       RedisSet (ApiUsageListKey 7) ''x'' (10 * time_Minute), ReleaseRequest 7]), e')"
proof -
  have call: "pl_httpReq demo_pipeline (Domain demo_usage) info pipe_world1 =
      (Ok \<lparr>pr_StatusCode = 200, pr_Headers = [(''Etag'', [''1''])], pr_Body = ''ok''\<rparr>, pipe_world1)"
    by (simp add: demo_pipeline_def demo_finish)
  have checks: "checks_passed demo_pipeline ''client'' info validator pipe_world0 demo_token demo_usage
    [RedisSet (ApiTokenKey ''client'') ''x'' (10 * time_Minute)]
    [RedisSet (ApiUsageListKey 7) ''x'' (10 * time_Minute)] pipe_world1"
    using assms by (rule demo_checks)
  obtain x e1 where "buildLog U (pl_log demo_pipeline) direction demo_token info r 0 pipe_world1 = (Some x, e1)"
    using buildLog_Some [OF demo_log_law] by metis
  then show ?thesis
    unfolding Execute_passed [OF checks call]
    by (simp add: PublishSuccess_def UnixMilli_def Let_def demo_token_def)
qed

lemma demo_server_validator:
  "server_validator (\<lambda>h s. s = ''key'') ''key'' demo_token e = ((Ok (), []), e)"
  by (simp add: server_validator_def ValidateServerAccess_def)

lemma demo_info_endpoint: "ri_Endpoint (NewRequestInfo U (demo_request_to ''/proxy-server/users/42'') b) = ''/users/42''"
  by (simp add: NewRequestInfo_def demo_endpoint)

lemma demo_server_run:
  "\<exists>ts e'. Server_Handle U (\<lambda>h s. s = ''key'') demo_pipeline ''key'' ''client''
      (demo_request_to ''/proxy-server/users/42'') [] pipe_world0 =
    ((Returned (Ok \<lparr>pr_StatusCode = 200, pr_Headers = [(''Etag'', [''1''])], pr_Body = ''ok''\<rparr>), ts), e')"
  unfolding Server_Handle_def Let_def
  using demo_execute [OF demo_info_endpoint, of "server_validator (\<lambda>h s. s = ''key'') ''key''"]
    demo_server_validator by metis

subsection \<open>Properties\<close>



lemma Browser_Handle_Ok:
  assumes "Browser_Handle U p clientID r body e = ((Returned (Ok res), ts), e')"
  shows "\<exists>token ts0 e1 domains ts1 e2 d usage ts2 e3.
    FindByClientID (pl_query p) clientID (snd (lp_Now (pl_log p) e)) = ((Ok token, ts0), e1)
    \<and> FindAllByTokenID (pl_query p) (ApiTokenID token) e1 = ((Ok domains, ts1), e2)
    \<and> Header_Get (rq_Header r) ''Origin'' \<noteq> [] \<and> d \<in> set domains
    \<and> normalize U (Origin d) = normalize U (Header_Get (rq_Header r) ''Origin'')
    \<and> State token \<noteq> StateBlocked
    \<and> FindByTokenAndEndpoint (pl_query p) (ApiTokenID token) (extractEndpoint r) e2 = ((Ok usage, ts2), e3)
    \<and> fst (pl_httpReq p (Domain usage) (NewRequestInfo U r body) e3) = Ok res"
proof -
  let ?v = "browser_validator U (pl_query p) (Header_Get (rq_Header r) ''Origin'')"
  obtain token usage ts0 ts3 e3 where c: "checks_passed p clientID (NewRequestInfo U r body) ?v e token usage ts0 ts3 e3"
    and res: "fst (pl_httpReq p (Domain usage) (NewRequestInfo U r body) e3) = Ok res"
    using Execute_Ok_checked assms unfolding Browser_Handle_def Let_def by metis
  obtain ts4 e1 ts5 e2 where
    l: "FindByClientID (pl_query p) clientID (snd (lp_Now (pl_log p) e)) = ((Ok token, ts4), e1)"
    and v: "?v token e1 = ((Ok (), ts5), e2)" and s: "State token \<noteq> StateBlocked"
    and f: "FindByTokenAndEndpoint (pl_query p) (ApiTokenID token) (ri_Endpoint (NewRequestInfo U r body)) e2
      = ((Ok usage, ts3), e3)"
    using c unfolding checks_passed_def by blast
  from browser_validator_Ok [OF v] obtain domains d where
    "FindAllByTokenID (pl_query p) (ApiTokenID token) e1 = ((Ok domains, ts5), e2)"
    "Header_Get (rq_Header r) ''Origin'' \<noteq> []" "d \<in> set domains"
    "normalize U (Origin d) = normalize U (Header_Get (rq_Header r) ''Origin'')" .
  moreover have "ri_Endpoint (NewRequestInfo U r body) = extractEndpoint r" by (simp add: NewRequestInfo_def)
  ultimately show ?thesis using l s f res by metis
qed

text \<open>Only a registered origin gets an answer through the browser path: when the request succeeds, it has an
  \<open>Origin\<close> header that agrees, up to the normal form, with a domain registered for the client's
  token, the token is not blocked, and the answer is that of the upstream of the token's first usage
  whose template matches the endpoint of the request.\<close>

theorem browser_request_authorised:
  assumes "Browser_Handle U p clientID r body e = ((Returned (Ok res), ts), e')"
  shows "\<exists>token ts0 e1 domains ts1 e2 d usage ts2 e3.
    FindByClientID (pl_query p) clientID (snd (lp_Now (pl_log p) e)) = ((Ok token, ts0), e1)
    \<and> FindAllByTokenID (pl_query p) (ApiTokenID token) e1 = ((Ok domains, ts1), e2)
    \<and> Header_Get (rq_Header r) ''Origin'' \<noteq> [] \<and> d \<in> set domains
    \<and> normalize U (Origin d) = normalize U (Header_Get (rq_Header r) ''Origin'')
    \<and> State token \<noteq> StateBlocked
    \<and> FindByTokenAndEndpoint (pl_query p) (ApiTokenID token) (extractEndpoint r) e2 = ((Ok usage, ts2), e3)
    \<and> fst (pl_httpReq p (Domain usage) (NewRequestInfo U r body) e3) = Ok res"
  by (rule Browser_Handle_Ok [OF assms])

lemma demo_browser_validator:
  "browser_validator U demo_query ''https://app.kr'' demo_token
      (pipe_world0\<lparr>tb_local := (TokenDomainKey 7, ''x'') # t\<rparr>) =
    ((Ok (), []), pipe_world0\<lparr>tb_local := (TokenDomainKey 7, ''x'') # t\<rparr>)"
  by (simp add: browser_validator_def FindAllByTokenID_def GetOrFetchSlice_def GetOrFetch_def
      cache_lookup_def demo_query_defs pipe_world0_def demo_token_def demo_domain_def
      ValidateBrowserAccess_def MatchesOrigin_def)

lemma demo_origin: "Header_Get (rq_Header (demo_request_to path)) ''Origin'' = ''https://app.kr''"
proof -
  have "CanonicalHeaderKey ''Origin'' = ''Origin''" by code_simp
  then show ?thesis by (simp add: Header_Get_def demo_request_to_def)
qed

lemma demo_browser_run:
  "\<exists>ts e'. Browser_Handle ascii_tables demo_pipeline ''client''
      (demo_request_to ''/proxy-server/users/42'') [] pipe_world0 =
    ((Returned (Ok \<lparr>pr_StatusCode = 200, pr_Headers = [(''Etag'', [''1''])], pr_Body = ''ok''\<rparr>), ts), e')"
  unfolding Browser_Handle_def Let_def demo_origin demo_pipeline_sel
  using demo_execute [OF demo_info_endpoint, of "browser_validator ascii_tables demo_query ''https://app.kr''"]
    demo_browser_validator by metis

theorem browser_request_authorised_witness:
  "\<exists>token ts0 e1 domains ts1 e2 d.
    FindByClientID demo_query ''client'' pipe_world0 = ((Ok token, ts0), e1)
    \<and> FindAllByTokenID demo_query (ApiTokenID token) e1 = ((Ok domains, ts1), e2)
    \<and> d \<in> set domains
    \<and> normalize ascii_tables (Origin d) = normalize ascii_tables ''https://app.kr''"
proof -
  obtain ts e' where "Browser_Handle ascii_tables demo_pipeline ''client''
      (demo_request_to ''/proxy-server/users/42'') [] pipe_world0 =
    ((Returned (Ok \<lparr>pr_StatusCode = 200, pr_Headers = [(''Etag'', [''1''])], pr_Body = ''ok''\<rparr>), ts), e')"
    using demo_browser_run by blast
  from browser_request_authorised [OF this] show ?thesis
    unfolding demo_origin demo_pipeline_sel snd_conv by metis
qed

lemma Server_Handle_Ok:
  assumes "Server_Handle U cmp p secretKey clientID r body e = ((Returned (Ok res), ts), e')"
  shows "\<exists>token ts0 e1 usage ts2 e3.
    FindByClientID (pl_query p) clientID (snd (lp_Now (pl_log p) e)) = ((Ok token, ts0), e1)
    \<and> secretKey \<noteq> [] \<and> cmp (SecretKey token) secretKey \<and> State token \<noteq> StateBlocked
    \<and> FindByTokenAndEndpoint (pl_query p) (ApiTokenID token) (extractEndpoint r) e1 = ((Ok usage, ts2), e3)
    \<and> fst (pl_httpReq p (Domain usage) (NewRequestInfo U r body) e3) = Ok res"
proof -
  let ?v = "server_validator cmp secretKey"
  obtain token usage ts0 ts3 e3 where c: "checks_passed p clientID (NewRequestInfo U r body) ?v e token usage ts0 ts3 e3"
    and res: "fst (pl_httpReq p (Domain usage) (NewRequestInfo U r body) e3) = Ok res"
    using Execute_Ok_checked assms unfolding Server_Handle_def Let_def by metis
  obtain ts4 e1 where
    "FindByClientID (pl_query p) clientID (snd (lp_Now (pl_log p) e)) = ((Ok token, ts4), e1)"
    "ValidateServerAccess cmp token secretKey = Ok ()" "State token \<noteq> StateBlocked"
    "FindByTokenAndEndpoint (pl_query p) (ApiTokenID token) (ri_Endpoint (NewRequestInfo U r body)) e1
      = ((Ok usage, ts3), e3)"
    using c by (auto simp: checks_passed_def server_validator_def)
  moreover from this(2) have "secretKey \<noteq> [] \<and> cmp (SecretKey token) secretKey"
    by (auto simp: ValidateServerAccess_def split: if_splits)
  moreover have "ri_Endpoint (NewRequestInfo U r body) = extractEndpoint r" by (simp add: NewRequestInfo_def)
  ultimately show ?thesis using res by metis
qed

text \<open>Only the holder of a secret gets an answer through the server path: when the request succeeds, it
  carries a nonempty secret that bcrypt accepts against the hash stored for the client's token, the
  token is not blocked, and the answer is that of the upstream of the token's first usage whose
  template matches the endpoint of the request.\<close>

theorem server_request_authorised:
  assumes "Server_Handle U cmp p secretKey clientID r body e = ((Returned (Ok res), ts), e')"
  shows "\<exists>token ts0 e1 usage ts2 e3.
    FindByClientID (pl_query p) clientID (snd (lp_Now (pl_log p) e)) = ((Ok token, ts0), e1)
    \<and> secretKey \<noteq> [] \<and> cmp (SecretKey token) secretKey \<and> State token \<noteq> StateBlocked
    \<and> FindByTokenAndEndpoint (pl_query p) (ApiTokenID token) (extractEndpoint r) e1 = ((Ok usage, ts2), e3)
    \<and> fst (pl_httpReq p (Domain usage) (NewRequestInfo U r body) e3) = Ok res"
  by (rule Server_Handle_Ok [OF assms])

theorem server_request_authorised_witness:
  "\<exists>token ts0 e1. FindByClientID demo_query ''client'' pipe_world0 = ((Ok token, ts0), e1)
    \<and> State token \<noteq> StateBlocked"
proof -
  obtain ts e' where "Server_Handle ascii_tables (\<lambda>h s. s = ''key'') demo_pipeline ''key'' ''client''
      (demo_request_to ''/proxy-server/users/42'') [] pipe_world0 =
    ((Returned (Ok \<lparr>pr_StatusCode = 200, pr_Headers = [(''Etag'', [''1''])], pr_Body = ''ok''\<rparr>), ts), e')"
    using demo_server_run by blast
  from server_request_authorised [OF this] show ?thesis
    unfolding demo_pipeline_sel snd_conv by metis
qed

text \<open>C5: A proxied request goes to the registered host and to no other: when a usage was chosen by a template
  whose fixed text starts with a slash, the request that is sent has the URL of the registered domain
  followed by the endpoint, the domain has passed the validator, and the host the request is sent to
  is the host of the domain, whatever path and query the client wrote.\<close>

theorem forwarded_to_registered_host:
  assumes "FindByTokenAndEndpoint q tokenID (ri_Endpoint info) e = ((Ok usage, ts), e1)"
    and "Endpoint usage = render (Text (CHR ''/'' # s) # ps)"
    and "list_all piece_wf (Text (CHR ''/'' # s) # ps)"
    and "prepare_request U d (Domain usage) info e1 = (Ok (client, req), e2)"
  shows "\<exists>u. url_Parse (Domain usage) = Some u
    \<and> fst (Validate U (hd_validator d) (Domain usage) e1) = Ok ()
    \<and> or_URL req = Domain usage @ ri_Endpoint info
    \<and> or_Host req = removeEmptyPort (url_Host u)"
  using prepared_request_host [OF assms(4)] FindBy_slash [OF assms(1-3)] by blast

text \<open>Surroundings of the requester in which the verdict on every host is cached.\<close>

definition trusting_http :: "'e http_deps" where
  "trusting_http =
     \<lparr>hd_validator =
        \<lparr>dv_cache = \<lparr>gc_Get = (\<lambda>k e. Some (Ok ())), gc_Set = (\<lambda>k v e. e), gc_Delete = (\<lambda>k e. e)\<rparr>,
         dv_LookupHost = (\<lambda>h e. (Ok [], e))\<rparr>,
      hd_pool = (\<lambda>e. []), hd_set_pool = (\<lambda>p e. e),
      hd_Do = (\<lambda>c r e.
        (Ok (if or_Host r = ''169.254.169.254'' then demo_response\<lparr>hr_Header := [], hr_Body := ''internal''\<rparr>
             else demo_response), e)),
      hd_request_error = (\<lambda>m u. [])\<rparr>"

lemma trusting_validate:
  "Validate ascii_tables (hd_validator trusting_http) ''https://api.example.com'' e = (Ok (), e)"
  unfolding Validate_cases by (simp add: demo_checked demo_hostname trusting_http_def)

lemma trusting_prepare:
  assumes "url_Parse (''https://api.example.com'' @ endpoint) = Some u"
  shows "prepare_request ascii_tables trusting_http ''https://api.example.com'' (demo_info endpoint) e =
     (Ok (newClient,
        \<lparr>or_Method = ''GET'', or_URL = ''https://api.example.com'' @ endpoint,
         or_Host = removeEmptyPort (url_Host u), or_Header = [], or_Body = []\<rparr>), e)"
proof -
  have "list_all token_char ''GET''" by code_simp
  moreover have "hd_pool trusting_http e = []" "hd_set_pool trusting_http p e = e" for p
    by (simp_all add: trusting_http_def)
  ultimately show ?thesis
    using assms
    by (simp add: prepare_request_def trusting_validate demo_info_def NewRequest_def
        getOrCreateClient_def Let_def)
qed

theorem forwarded_to_registered_host_witness:
  "\<exists>e1 client req. prepare_request ascii_tables trusting_http (Domain demo_usage) (demo_info ''/users/42'')
      (e1 :: pipe_world) = (Ok (client, req), e1)
    \<and> or_URL req = ''https://api.example.com/users/42'' \<and> or_Host req = ''api.example.com''"
proof -
  have p: "url_Parse (''https://api.example.com'' @ ''/users/42'') =
    Some \<lparr>url_Scheme = ''https'', url_Host = ''api.example.com''\<rparr>"
    and q: "url_Parse ''https://api.example.com'' = Some \<lparr>url_Scheme = ''https'', url_Host = ''api.example.com''\<rparr>"
    and host: "removeEmptyPort ''api.example.com'' = ''api.example.com''" by code_simp+
  have d: "Domain demo_usage = ''https://api.example.com''" "Endpoint demo_usage = ''/users/{id}''"
    by (simp_all add: demo_usage_def)
  obtain ts and e1 :: pipe_world where f: "FindByTokenAndEndpoint demo_query 7 (ri_Endpoint (demo_info ''/users/42''))
      (pipe_world0\<lparr>tb_local := []\<rparr>) = ((Ok demo_usage, ts), e1)"
    by (simp add: demo_usage_lookup demo_info_def)
  have e: "Endpoint demo_usage = render (Text (CHR ''/'' # ''users/'') # [Param ''id''])"
    using users_render d by (simp add: users_template_def)
  have w: "list_all piece_wf (Text (CHR ''/'' # ''users/'') # [Param ''id''])"
    using users_wf by (simp add: users_template_def)
  define req where "req = \<lparr>or_Method = ''GET'', or_URL = ''https://api.example.com'' @ ''/users/42'',
    or_Host = removeEmptyPort (url_Host \<lparr>url_Scheme = ''https'', url_Host = ''api.example.com''\<rparr>),
    or_Header = [], or_Body = []\<rparr>"
  have prep: "prepare_request ascii_tables trusting_http (Domain demo_usage) (demo_info ''/users/42'') e1 =
      (Ok (newClient, req), e1)"
    unfolding d(1) req_def by (rule trusting_prepare [OF p])
  obtain u where u: "url_Parse (Domain demo_usage) = Some u" "or_Host req = removeEmptyPort (url_Host u)"
    and url: "or_URL req = Domain demo_usage @ ri_Endpoint (demo_info ''/users/42'')"
    using forwarded_to_registered_host [OF f e w prep] by blast
  then have "u = \<lparr>url_Scheme = ''https'', url_Host = ''api.example.com''\<rparr>" using d(1) q by simp
  then have "or_Host req = ''api.example.com''" using u(2) host by simp
  moreover have "or_URL req = ''https://api.example.com/users/42''" using url d(1) by (simp add: demo_info_def)
  ultimately show ?thesis using prep by blast
qed

subsection \<open>The counter of concurrent requests along the pipeline\<close>

lemma counter_other: "k' \<noteq> k \<Longrightarrow> counter k' (set_counter k n e) = counter k' e"
  by (simp add: counter_def)

lemma CheckAndUpdateState_redis:
  "tb_redis (snd (CheckAndUpdateState (table_limiter k) demo_repo i e)) = tb_redis e"
proof -
  have get: "snd (redis_GetInt (table_redis tb_redis (\<lambda>t e. e\<lparr>tb_redis := t\<rparr>)) key w) = w"
    for key and w :: "'a rate_world_scheme"
    by (simp add: table_GetInt split: option.splits)
  have c: "snd (GetConcurrent (table_limiter k) i e) = e"
    using get [of "concurrentKey i" e]
    by (auto simp: GetConcurrent_def split: prod.splits sum.splits if_splits)
  have t: "tb_redis (snd (TransitionState demo_repo i w)) = tb_redis w" for w :: "'a rate_world_scheme"
    by (auto simp: TransitionState_demo split: prod.splits if_splits)
  show ?thesis
    using c get [of "bucketKey (table_limiter k) i e" e] t
    by (auto simp: CheckAndUpdateState_def Let_def split: prod.splits sum.splits if_splits)
      (metis snd_conv)+
qed

lemma trackRequest_counter:
  fixes e :: "'a rate_world_scheme"
  assumes "pl_limiter p = redis_limiter (table_limiter k)" "pl_state p = demo_repo"
    and "counter (concurrentKey i) e = c" "0 \<le> c" "c < 2 ^ 62"
  shows "counter (concurrentKey i) (trackRequest p i e) = c + 1"
proof -
  define e1 where "e1 = set_counter (concurrentKey i) (c + 1) e"
  have "\<exists>n. fst (IncrementAndGet (table_limiter k) i e1) = Ok n"
    by (simp add: IncrementAndGet_def table_redis_def table_add_def Let_def)
  then obtain n e2 where n: "IncrementAndGet (table_limiter k) i e1 = (Ok n, e2)"
    by (metis prod.collapse)
  have c2: "counter (concurrentKey i) e2 = c + 1"
  proof -
    have "e2 = set_counter (bucketKey (table_limiter k) i e1) (counter (bucketKey (table_limiter k) i e1) e1 + 1) e1"
      using IncrementAndGet_table [of k i e1] n by simp
    moreover have "concurrentKey i \<noteq> bucketKey (table_limiter k) i e1"
      by (simp add: bucketKey_def concurrentKey_def rateLimitKeyPrefix_def concurrentKeyPrefix_def)
    ultimately have "counter (concurrentKey i) e2 = counter (concurrentKey i) e1"
      by (simp add: counter_other)
    then show ?thesis using assms(4,5) by (simp add: e1_def counter_set_counter)
  qed
  have "trackRequest p i e = snd (CheckAndUpdateState (table_limiter k) demo_repo i e2)"
    using assms(1-3) n IncrementConcurrent_table [of k i e]
    by (simp add: trackRequest_def redis_limiter_def e1_def)
  then show ?thesis
    using CheckAndUpdateState_redis [of k i e2] c2 by (simp add: counter_def)
qed

lemma releaseRequest_counter:
  fixes e :: "'a rate_world_scheme"
  assumes "pl_limiter p = redis_limiter (table_limiter k)"
    and "counter (concurrentKey i) e = c" "0 \<le> c" "c < 2 ^ 62"
  shows "counter (concurrentKey i) (releaseRequest p i e) = max 0 (c - 1)"
  using concurrent_counter_values(4) [OF assms(2-4), where k = k and key = "concurrentKey i"] assms(1)
  by (simp add: releaseRequest_def redis_limiter_def)

lemma GetOrFetch_tasks:
  assumes "GetOrFetch c cd key fetch dest e = ((r, d, ts), e')" "t \<in> set ts"
  shows "\<exists>b ttl. t = RedisSet key b ttl"
  using assms by (auto simp: GetOrFetch_def Let_def split: prod.splits bool.splits sum.splits)

lemma query_tasks:
  "FindByClientID q clientID e = ((res, ts), e') \<Longrightarrow> ReleaseRequest i \<notin> set ts"
  "FindByTokenAndEndpoint q tokenID endpoint e = ((res', ts), e') \<Longrightarrow> ReleaseRequest i \<notin> set ts"
  unfolding FindByClientID_def FindByTokenAndEndpoint_def GetOrFetchSlice_def Let_def
  by (auto split: prod.splits sum.splits if_splits dest!: GetOrFetch_tasks)


lemma demo_miss: "\<not> matchesTemplate (\<lambda>_ _. False) ''/users/{id}'' ''/unknown''"
  by code_simp


text \<open>The counter of concurrent requests depends on the order of two goroutines: when the request is
  counted before it is released, the counter ends where it was; when the release overtakes the
  counting on an idle token, the counter ends at one although no request is in flight, because a
  release never takes it below zero.\<close>

theorem tracking_order:
  fixes p :: "'a rate_world_scheme pipeline"
  assumes "pl_limiter p = redis_limiter (table_limiter k)" "pl_state p = demo_repo"
    and "counter (concurrentKey i) e = c" "0 \<le> c" "c < 2 ^ 60"
  shows "counter (concurrentKey i) (fold (run_task p) [TrackRequest i, ReleaseRequest i] e) = c
    \<and> counter (concurrentKey i) (fold (run_task p) [ReleaseRequest i, TrackRequest i] e) = max 1 c"
proof -
  have "counter (concurrentKey i) (trackRequest p i e) = c + 1"
    using trackRequest_counter [OF assms(1-4)] assms(5) by simp
  then have "counter (concurrentKey i) (releaseRequest p i (trackRequest p i e)) = c"
    using releaseRequest_counter [OF assms(1), of i "trackRequest p i e" "c + 1"] assms(4,5) by simp
  moreover have "counter (concurrentKey i) (releaseRequest p i e) = max 0 (c - 1)"
    using releaseRequest_counter [OF assms(1,3,4)] assms(5) by simp
  then have "counter (concurrentKey i) (trackRequest p i (releaseRequest p i e)) = max 0 (c - 1) + 1"
    using trackRequest_counter [OF assms(1,2), of i "releaseRequest p i e" "max 0 (c - 1)"] assms(4,5) by simp
  ultimately show ?thesis by (simp add: run_task_def)
qed

theorem tracking_order_witness:
  "counter (concurrentKey 7) (fold (run_task demo_pipeline) [ReleaseRequest 7, TrackRequest 7] pipe_world0) = 1"
proof -
  have "counter (concurrentKey 7) pipe_world0 = 0"
    by (simp add: counter_def pipe_world0_def redis_number_def)
  then show ?thesis
    using tracking_order [of demo_pipeline 200 7 pipe_world0 0] by simp
qed

subsection \<open>The health check\<close>

context requester
begin

lemma health_outcome:
  assumes "hv_httpReq s = request" "Validate U (hv_validator s) domain e = (Ok x, e1)"
  shows "\<exists>h e2. Health_Check U s endpoint meth domain r body e = (Ok h, e2)
    \<and> (case fst (request domain ((NewRequestInfo U r body)\<lparr>ri_Endpoint := endpoint, ri_Method := meth\<rparr>) e1) of
         Ok resp \<Rightarrow> hs_Healthy h \<and> hs_Body h = pr_Body resp \<and> length (hs_Body h) \<le> 16777216
       | Err err \<Rightarrow> \<not> hs_Healthy h \<and> hs_Body h = [])"
  using assms
  by (cases rule: success_cases
      [of domain "(NewRequestInfo U r body)\<lparr>ri_Endpoint := endpoint, ri_Method := meth\<rparr>" e1])
    (simp_all add: Health_Check_def)

end

text \<open>The health check reports what the call did: it is an error exactly when the validator refuses the
  domain; otherwise the API is healthy exactly when the call returned no error (so never for an
  answer of 400 or more, one that is too slow, or one with a content type that is not allowed), and the
  body of at most 16 MB is that of the call, empty when it is not healthy.\<close>

theorem health_check_outcome:
  assumes "hv_httpReq s = Request U d" "Validate U (hv_validator s) domain e = (v, e1)"
    and "Health_Check U s endpoint meth domain r body e = (res, e2)"
  shows "case v of
      Err err \<Rightarrow> res = Err err
    | Ok _ \<Rightarrow> \<exists>h. res = Ok h \<and>
        (case fst (Request U d domain ((NewRequestInfo U r body)\<lparr>ri_Endpoint := endpoint, ri_Method := meth\<rparr>) e1) of
           Ok resp \<Rightarrow> hs_Healthy h \<and> hs_Body h = pr_Body resp \<and> length (hs_Body h) \<le> 16777216
         | Err err \<Rightarrow> \<not> hs_Healthy h \<and> hs_Body h = [])"
proof (cases v)
  case (Inl err)
  then show ?thesis using assms(2,3) by (simp add: Health_Check_def)
next
  case (Inr x)
  then have "Validate U (hv_validator s) domain e = (Ok x, e1)" using assms(2) by simp
  from http.health_outcome [OF assms(1) this, where endpoint = endpoint and meth = meth and r = r and body = body]
  show ?thesis using Inr assms(3) by auto
qed

definition trusting_health :: "'e health_service" where
  "trusting_health =
     \<lparr>hv_httpReq = Request ascii_tables trusting_http, hv_validator = hd_validator trusting_http\<rparr>"

lemma trusting_request:
  assumes "url_Parse (''https://api.example.com'' @ endpoint) = Some u"
  shows "\<exists>req. or_Host req = removeEmptyPort (url_Host u) \<and>
    Request ascii_tables trusting_http ''https://api.example.com'' (demo_info endpoint) e =
      (finish_request ascii_tables (fst (hd_Do (trusting_http :: 'e http_deps) newClient req e)), e)"
  using trusting_prepare [OF assms, of e]
  by (intro exI [of _ "\<lparr>or_Method = ''GET'', or_URL = ''https://api.example.com'' @ endpoint,
         or_Host = removeEmptyPort (url_Host u), or_Header = [], or_Body = []\<rparr>"])
    (simp add: Request_def trusting_http_def)

definition plain_request :: http_request where
  "plain_request =
     \<lparr>rq_Method = ''POST'', rq_Scheme = [], rq_Host = ''proxy'', rq_Path = ''/healthy'', rq_RawQuery = [],
      rq_Header = [], rq_RemoteAddr = []\<rparr>"

lemma plain_info:
  "(NewRequestInfo U plain_request [])\<lparr>ri_Endpoint := endpoint, ri_Method := ''GET''\<rparr> = demo_info endpoint"
  by (simp add: NewRequestInfo_def plain_request_def extractHeaders_def demo_info_def)

theorem health_check_outcome_witness:
  "\<exists>h e2. Health_Check ascii_tables trusting_health ''/users/42'' ''GET'' ''https://api.example.com'' plain_request []
      () = (Ok h, e2) \<and> hs_Healthy h \<and> hs_Body h = ''ok''"
proof -
  have p: "url_Parse (''https://api.example.com'' @ ''/users/42'') =
    Some \<lparr>url_Scheme = ''https'', url_Host = ''api.example.com''\<rparr>" by code_simp
  have host: "removeEmptyPort ''api.example.com'' = ''api.example.com''" by code_simp
  obtain req where req: "or_Host req = ''api.example.com''"
    "Request ascii_tables trusting_http ''https://api.example.com'' (demo_info ''/users/42'') () =
      (finish_request ascii_tables (fst (hd_Do (trusting_http :: unit http_deps) newClient req ())), ())"
    using trusting_request [OF p, of "()"] host by auto
  then have call: "fst (Request ascii_tables trusting_http ''https://api.example.com'' (demo_info ''/users/42'') ()) =
      Ok \<lparr>pr_StatusCode = 200, pr_Headers = [(''Etag'', [''1''])], pr_Body = ''ok''\<rparr>"
    using demo_finish by (simp add: trusting_http_def)
  obtain res e2 where run: "Health_Check ascii_tables trusting_health ''/users/42'' ''GET'' ''https://api.example.com''
      plain_request [] () = (res, e2)" by (metis surj_pair)
  show ?thesis
    using health_check_outcome [OF _ _ run, of trusting_http "Ok ()" "()"] run call trusting_validate [of "()"]
    by (auto simp: trusting_health_def plain_info)
qed


end
