(* ===== verification/Handlers.thy ===== *)
theory Handlers
  imports Pipeline
begin

text \<open>
  \<open>internal/domain/api/handler\<close>: the gin handlers of proxied requests (\<open>proxy_handler.go\<close>) and of the
  health check (\<open>health_handler.go\<close>). Gin is not modelled: a handler is described by the calls it makes
  on its \<open>gin.Context\<close>, in their order, and by how it ends. The body of the request is given by what
  \<open>io.ReadAll\<close> returns for it.
\<close>

subsection \<open>Calls on the context\<close>

text \<open>\<open>gin.H\<close> as a list of fields; \<open>C_AbortJSON\<close> is \<open>AbortWithStatusJSON\<close>.\<close>

datatype json = JInt int | JStr gostring | JBool bool | JObj "(gostring \<times> json) list"

datatype gin_call =
    C_Header gostring gostring
  | C_JSON int json
  | C_Data int gostring bytes
  | C_AbortJSON int json

text \<open>
  What a handler did: its calls, whether it ended with a panic, the errors it left in \<open>c.Errors\<close>, the
  goroutines it started, and the fields it wrote to the debug log.
\<close>

record reply =
  re_calls :: "gin_call list"
  re_panic :: bool
  re_errors :: "go_error list"
  re_tasks :: "task list"
  re_debug :: "(gostring \<times> gostring) list"

definition reply_with :: "gin_call list \<Rightarrow> reply" where
  "reply_with calls =
     \<lparr>re_calls = calls, re_panic = False, re_errors = [], re_tasks = [], re_debug = []\<rparr>"

subsection \<open>Answers\<close>

definition tokenHeader :: gostring where
  "tokenHeader = ''bssm-dev-token''"

definition secretHeader :: gostring where
  "secretHeader = ''bssm-dev-secret''"

definition errorResponse :: "proxy_error \<Rightarrow> json" where
  "errorResponse e = JObj [(''statusCode'', JInt (pe_StatusCode e)), (''message'', JStr (pe_Message e))]"

definition internal_error :: json where
  "internal_error = JObj [(''statusCode'', JInt 500), (''message'', JStr ''Internal server error'')]"

definition body_read_error :: json where
  "body_read_error =
     JObj [(''message'',
        JStr (utf8 [0xC694, 0xCCAD] @ '' '' @ utf8 [0xBCF8, 0xBB38] @ '' '' @ utf8 [0xC77D, 0xAE30]
          @ '' '' @ utf8 [0xC2E4, 0xD328]))]"

text \<open>The two loops over the headers of the upstream response, one call per value.\<close>

fun header_calls :: "http_header \<Rightarrow> gin_call list" where
  "header_calls [] = []"
| "header_calls ((key, values) # hs) = map (C_Header key) values @ header_calls hs"

definition writeProxyResponse :: "proxy_response \<Rightarrow> gin_call list" where
  "writeProxyResponse resp =
     (let contentType0 = Header_Get (pr_Headers resp) ''Content-Type'';
          contentType = (if contentType0 = [] then ''application/octet-stream'' else contentType0)
      in header_calls (pr_Headers resp) @ [C_Data (pr_StatusCode resp) contentType (pr_Body resp)])"

definition writeError :: "go_error \<Rightarrow> gin_call list" where
  "writeError err =
     (case as_ProxyError err of
        Some proxyErr \<Rightarrow> [C_JSON (pe_StatusCode proxyErr) (errorResponse proxyErr)]
      | None \<Rightarrow>
          (case as_ExternalAPIError err of
             Some extErr \<Rightarrow>
               [C_JSON (pe_StatusCode (ee_ProxyError extErr)) (errorResponse (ee_ProxyError extErr))]
           | None \<Rightarrow> [C_JSON 500 internal_error]))"

text \<open>The debug line; \<open>enabled\<close> tells whether the logger's level asks for it.\<close>

definition logRequest :: "bool \<Rightarrow> http_request \<Rightarrow> gostring \<Rightarrow> gostring \<Rightarrow> (gostring \<times> gostring) list" where
  "logRequest enabled r token secretKey =
     (if \<not> enabled then []
      else
        let pathWithQuery =
              (if rq_RawQuery r \<noteq> [] then rq_Path r @ ''?'' @ rq_RawQuery r else rq_Path r)
        in [(''type'', if secretKey \<noteq> [] then ''Server'' else ''Browser''),
            (''method'', rq_Method r), (''path'', pathWithQuery), (''token'', MaskToken token),
            (''remoteAddr'', rq_RemoteAddr r),
            (''userAgent'', Header_Get (rq_Header r) ''User-Agent'')])"

subsection \<open>The handlers\<close>

record 'e proxy_handler =
  ph_pipeline :: "'e pipeline"
  ph_bcrypt :: bcrypt_compare
  ph_debug :: bool

definition Proxy_Handle ::
  "unicode_tables \<Rightarrow> 'e proxy_handler \<Rightarrow> http_request \<Rightarrow> bytes result \<Rightarrow> ('e, reply) action" where
  "Proxy_Handle U h r read_body e =
     (let token = Header_Get (rq_Header r) tokenHeader in
      if token = [] then (reply_with [C_JSON 400 (errorResponse ErrApiTokenNotFound)], e)
      else
        let secretKey = Header_Get (rq_Header r) secretHeader in
        (case read_body of
           Err _ \<Rightarrow> (reply_with [C_JSON 500 body_read_error], e)
         | Ok body \<Rightarrow>
             let debug = logRequest (ph_debug h) r token secretKey in
             (case (if secretKey \<noteq> []
                    then Server_Handle U (ph_bcrypt h) (ph_pipeline h) secretKey token r body e
                    else Browser_Handle U (ph_pipeline h) token r body e) of
                ((outcome, ts), e1) \<Rightarrow>
                  (case outcome of
                     Panicked \<Rightarrow>
                       (\<lparr>re_calls = [], re_panic = True, re_errors = [], re_tasks = ts, re_debug = debug\<rparr>, e1)
                   | Returned (Err err) \<Rightarrow>
                       (\<lparr>re_calls = writeError err, re_panic = False, re_errors = [], re_tasks = ts,
                         re_debug = debug\<rparr>, e1)
                   | Returned (Ok resp) \<Rightarrow>
                       (\<lparr>re_calls = writeProxyResponse resp, re_panic = False, re_errors = [],
                         re_tasks = ts, re_debug = debug\<rparr>, e1)))))"

text \<open>The JSON of \<open>HealthCheckResponse\<close>: \<open>body\<close> is omitted when empty.\<close>

definition health_json :: "health_response \<Rightarrow> json" where
  "health_json s =
     JObj ((''healthy'', JBool (hs_Healthy s)) # (if hs_Body s = [] then [] else [(''body'', JStr (hs_Body s))]))"

text \<open>\<open>qry\<close> is \<open>c.Query\<close>, the value of a parameter of the query or the empty string.\<close>

definition Health_Handle ::
  "unicode_tables \<Rightarrow> 'e health_service \<Rightarrow> (http_request \<Rightarrow> gostring \<Rightarrow> gostring) \<Rightarrow> http_request
    \<Rightarrow> bytes result \<Rightarrow> ('e, reply) action" where
  "Health_Handle U svc qry r read_body e =
     (let endpoint = qry r ''endpoint''; meth = qry r ''method''; domain = qry r ''domain'' in
      (case read_body of
         Err _ \<Rightarrow> (reply_with [C_JSON 500 body_read_error], e)
       | Ok body \<Rightarrow>
           (case Health_Check U svc endpoint meth domain r body e of
              (Err err, e1) \<Rightarrow> (reply_with (writeError err), e1)
            | (Ok result, e1) \<Rightarrow>
                (reply_with [C_JSON 200
                   (JObj [(''message'', JStr ''health check ok''), (''data'', health_json result)])], e1))))"

end
