(* ===== verification/Middleware.thy ===== *)
theory Middleware
  imports Handlers Config
begin

text \<open>
  \<open>internal/middleware\<close> and the router of \<open>cmd/main.go\<close>: the middlewares that run around a handler, the
  routes, and the check of the \<open>Origin\<close> header for CORS. A handler is a function from the outside state
  to a \<open>reply\<close>; a middleware takes the rest of the chain, which \<open>c.Next()\<close> runs, as an argument.
\<close>

subsection \<open>Queue\<close>

text \<open>The interface \<open>RequestQueue\<close> of \<open>internal/queue/queue.go\<close>.\<close>

record 'e request_queue =
  qu_Acquire :: "gostring \<Rightarrow> real \<Rightarrow> ('e, bool \<times> go_error option) action"
  qu_Release :: "'e \<Rightarrow> 'e"

record 'e queue_middleware =
  qm_queue :: "'e request_queue"
  qm_priority :: priority_service
  qm_redis :: "'e redis_client"

text \<open>The deferred \<open>Release\<close> runs however the rest of the chain ends.\<close>

definition Queue_Handle :: "'e queue_middleware \<Rightarrow> http_request \<Rightarrow> ('e, reply) action \<Rightarrow> ('e, reply) action" where
  "Queue_Handle m r next_handler e =
     (let clientID = Header_Get (rq_Header r) ''bssm-dev-token'' in
      if clientID = [] then next_handler e
      else
        (case GetPriority (qm_redis m) (qm_priority m) clientID e of ((prio, prio_err), e1) \<Rightarrow>
         let priority = (if prio_err \<noteq> None then 1 else prio) in
         (case qu_Acquire (qm_queue m) clientID priority e1 of ((acquired, err), e2) \<Rightarrow>
            if err \<noteq> None \<or> \<not> acquired
            then ((reply_with [C_AbortJSON 429 (errorResponse ErrTooManyRequests)])
                    \<lparr>re_tasks := (if err = None then [CountFailure clientID] else [])\<rparr>, e2)
            else (case next_handler e2 of (rep, e3) \<Rightarrow> (rep, qu_Release (qm_queue m) e3)))))"

subsection \<open>Errors\<close>

text \<open>\<open>written\<close> is \<open>c.Writer.Written()\<close> after the calls.\<close>

definition Error_Handle :: "(gin_call list \<Rightarrow> bool) \<Rightarrow> ('e, reply) action \<Rightarrow> ('e, reply) action" where
  "Error_Handle written next_handler e =
     (case next_handler e of (rep, e1) \<Rightarrow>
        if re_panic rep
        then (rep\<lparr>re_panic := False,
                 re_calls := re_calls rep @ (if written (re_calls rep) then [] else [C_JSON 500 internal_error])\<rparr>, e1)
        else if re_errors rep \<noteq> [] \<and> \<not> written (re_calls rep)
        then (case as_ProxyError (last (re_errors rep)) of
                Some proxyErr \<Rightarrow>
                  (rep\<lparr>re_calls := re_calls rep @ [C_JSON (pe_StatusCode proxyErr) (errorResponse proxyErr)]\<rparr>, e1)
              | None \<Rightarrow> (rep\<lparr>re_calls := re_calls rep @ [C_JSON 500 internal_error]\<rparr>, e1))
        else (rep, e1))"

text \<open>What this middleware writes to the log of the program: lines with a level, a message and fields.\<close>

datatype log_value = LogStr gostring | LogInt int

record log_line =
  ln_Level :: gostring
  ln_Message :: gostring
  ln_Fields :: "(gostring \<times> log_value) list"

definition method_and_path :: "http_request \<Rightarrow> (gostring \<times> log_value) list" where
  "method_and_path r = [(''method'', LogStr (rq_Method r)), (''path'', LogStr (rq_Path r))]"

definition masked_token :: "http_request \<Rightarrow> gostring \<times> log_value" where
  "masked_token r = (''token'', LogStr (MaskToken (Header_Get (rq_Header r) ''bssm-dev-token'')))"

definition logProxyError :: "http_request \<Rightarrow> proxy_error \<Rightarrow> log_line" where
  "logProxyError r err =
     \<lparr>ln_Level = ''warn'', ln_Message = ''proxy error'',
      ln_Fields = [(''code'', LogStr (pe_Code err)), (''status'', LogInt (pe_StatusCode err)),
          (''message'', LogStr (pe_Message err))]
        @ method_and_path r @ [(''origin'', LogStr (Header_Get (rq_Header r) ''Origin'')), masked_token r]\<rparr>"

text \<open>The lines for what the rest of the chain left; \<open>panic_text\<close> is the value of a panic as the logger
  prints it.\<close>

definition Error_log :: "(gin_call list \<Rightarrow> bool) \<Rightarrow> http_request \<Rightarrow> gostring \<Rightarrow> reply \<Rightarrow> log_line list" where
  "Error_log written r panic_text rep =
     (if re_panic rep
      then [\<lparr>ln_Level = ''error'', ln_Message = ''panic recovered'',
             ln_Fields = (''error'', LogStr panic_text) # method_and_path r\<rparr>]
      else if re_errors rep \<noteq> [] \<and> \<not> written (re_calls rep)
      then (case as_ProxyError (last (re_errors rep)) of
              Some proxyErr \<Rightarrow> [logProxyError r proxyErr]
            | None \<Rightarrow>
                [\<lparr>ln_Level = ''error'', ln_Message = ''unhandled error'',
                  ln_Fields = (''error'', LogStr (error_text (last (re_errors rep)))) # method_and_path r
                    @ [masked_token r]\<rparr>])
      else [])"

subsection \<open>CORS\<close>

definition AllowOriginFunc :: "unicode_tables \<Rightarrow> cors_config \<Rightarrow> gostring \<Rightarrow> bool" where
  "AllowOriginFunc U cfg origin =
     (if list_ex (\<lambda>allowed. EqualFold U origin allowed) (AllowedOrigins cfg) then True
      else if HasPrefix origin ''http://localhost:'' \<or> HasPrefix origin ''https://localhost:'' then True
      else False)"

text \<open>The configuration that is given to the CORS library.\<close>

record cors_settings =
  cs_AllowOriginFunc :: "gostring \<Rightarrow> bool"
  cs_AllowMethods :: "gostring list"
  cs_AllowHeaders :: "gostring list"
  cs_AllowCredentials :: bool
  cs_MaxAge :: int

definition newCORSMiddleware :: "unicode_tables \<Rightarrow> cors_config \<Rightarrow> cors_settings" where
  "newCORSMiddleware U cfg =
     \<lparr>cs_AllowOriginFunc = AllowOriginFunc U cfg,
      cs_AllowMethods = [''GET'', ''POST'', ''PUT'', ''PATCH'', ''DELETE'', ''OPTIONS''],
      cs_AllowHeaders = [''*''], cs_AllowCredentials = True, cs_MaxAge = 12 * time_Hour\<rparr>"

subsection \<open>Routes\<close>

datatype endpoint_handler = HealthCheck | ProxyRequest

datatype middleware_kind = Recovery | CORSPolicy | ErrorMW | QueueMW

record router =
  ro_middlewares :: "middleware_kind list"
  ro_routes :: "(gostring \<times> gostring \<times> endpoint_handler) list"
  ro_NoRoute :: endpoint_handler

definition newRouter :: router where
  "newRouter =
     \<lparr>ro_middlewares = [Recovery, CORSPolicy, ErrorMW, QueueMW],
      ro_routes = (''POST'', ''/healthy'', HealthCheck) #
        concat (map (\<lambda>meth. [(meth, ''/proxy-browser/*path'', ProxyRequest), (meth, ''/proxy-server/*path'', ProxyRequest)])
          [''GET'', ''POST'', ''PUT'', ''PATCH'', ''DELETE'']),
      ro_NoRoute = ProxyRequest\<rparr>"

text \<open>
  One request through the middlewares and the handler its route gives it; \<open>matched\<close> is the handler
  that gin finds for the request in the routes of \<open>newRouter\<close>.
\<close>

record 'e server =
  sv_queue :: "'e queue_middleware"
  sv_proxy :: "'e proxy_handler"
  sv_health :: "'e health_service"

definition serve ::
  "unicode_tables \<Rightarrow> (gin_call list \<Rightarrow> bool) \<Rightarrow> (http_request \<Rightarrow> gostring \<Rightarrow> gostring) \<Rightarrow> 'e server
    \<Rightarrow> endpoint_handler \<Rightarrow> http_request \<Rightarrow> bytes result \<Rightarrow> ('e, reply) action" where
  "serve U written qry s matched r read_body =
     Error_Handle written
       (Queue_Handle (sv_queue s) r
         (case matched of
            HealthCheck \<Rightarrow> Health_Handle U (sv_health s) qry r read_body
          | ProxyRequest \<Rightarrow> Proxy_Handle U (sv_proxy s) r read_body))"

subsection \<open>Exactly one response\<close>

fun responds :: "gin_call \<Rightarrow> bool" where
  "responds (C_Header k v) = False"
| "responds (C_JSON st j) = True"
| "responds (C_Data st ct b) = True"
| "responds (C_AbortJSON st j) = True"

definition one_response :: "gin_call list \<Rightarrow> bool" where
  "one_response calls \<longleftrightarrow> (\<exists>cs c. calls = cs @ [c] \<and> responds c \<and> list_all (\<lambda>x. \<not> responds x) cs)"

lemma one_response_single [simp]: "one_response [c] \<longleftrightarrow> responds c"
  by (auto simp: one_response_def append_eq_Cons_conv)

lemma one_response_ex: "one_response calls \<Longrightarrow> list_ex responds calls"
  by (auto simp: one_response_def)

lemma header_calls_silent: "list_all (\<lambda>x. \<not> responds x) (header_calls hs)"
  by (induction hs rule: header_calls.induct) (auto simp: list_all_iff)

lemma writeProxyResponse_one: "one_response (writeProxyResponse resp)"
  unfolding writeProxyResponse_def one_response_def Let_def
  using header_calls_silent by fastforce

lemma writeError_one: "one_response (writeError err)"
  by (auto simp: writeError_def split: option.splits)

lemma Proxy_Handle_one:
  "re_errors (fst (Proxy_Handle U h r b e)) = [] \<and>
   (if re_panic (fst (Proxy_Handle U h r b e)) then re_calls (fst (Proxy_Handle U h r b e)) = []
    else one_response (re_calls (fst (Proxy_Handle U h r b e))))"
  by (auto simp: Proxy_Handle_def Let_def reply_with_def writeError_one writeProxyResponse_one
      split: sum.splits prod.splits outcome.splits)

lemma Health_Handle_one:
  "re_errors (fst (Health_Handle U svc qry r b e)) = [] \<and> \<not> re_panic (fst (Health_Handle U svc qry r b e))
   \<and> one_response (re_calls (fst (Health_Handle U svc qry r b e)))"
  by (auto simp: Health_Handle_def Let_def reply_with_def writeError_one split: sum.splits prod.splits)

definition orderly :: "reply \<Rightarrow> bool" where
  "orderly rep \<longleftrightarrow> re_errors rep = [] \<and> (if re_panic rep then re_calls rep = [] else one_response (re_calls rep))"

lemma Queue_Handle_orderly:
  assumes "\<And>e. orderly (fst (next_handler e))"
  shows "orderly (fst (Queue_Handle m r next_handler e))"
  using assms
  by (auto simp: Queue_Handle_def Let_def reply_with_def orderly_def split: prod.splits) (metis fst_conv)+

lemma Error_Handle_orderly:
  assumes "\<And>e. orderly (fst (next_handler e))" "\<And>cs. written cs \<longleftrightarrow> list_ex responds cs"
  shows "\<not> re_panic (fst (Error_Handle written next_handler e))
    \<and> one_response (re_calls (fst (Error_Handle written next_handler e)))"
proof (cases "re_panic (fst (next_handler e))")
  case True
  then show ?thesis
    using assms(1) [of e] assms(2) [of "[]"] by (simp add: Error_Handle_def orderly_def case_prod_beta)
next
  case False
  then have "re_errors (fst (next_handler e)) = []" "one_response (re_calls (fst (next_handler e)))"
    using assms(1) [of e] by (simp_all add: orderly_def)
  then show ?thesis using False by (simp add: Error_Handle_def case_prod_beta)
qed

subsection \<open>Properties\<close>

text \<open>The lines that the error middleware logs give the token away by its first and last three bytes at
  most: two requests that agree in method, path and origin, and whose tokens have the same first three
  and the same last three bytes around something, are logged alike.\<close>

theorem error_log_hides_token:
  assumes "rq_Method r' = rq_Method r" "rq_Path r' = rq_Path r"
    and "Header_Get (rq_Header r') ''Origin'' = Header_Get (rq_Header r) ''Origin''"
    and "Header_Get (rq_Header r) ''bssm-dev-token'' = a @ m @ b" "length a = 3" "length b = 3" "m \<noteq> []"
    and "Header_Get (rq_Header r') ''bssm-dev-token'' = a @ m' @ b" "m' \<noteq> []"
  shows "Error_log written r' panic_text rep = Error_log written r panic_text rep"
proof -
  have "masked_token r' = masked_token r"
    using MaskToken_middle [OF assms(5,6,7)] MaskToken_middle [OF assms(5,6,9)] assms(4,8)
    by (simp add: masked_token_def)
  then show ?thesis
    using assms(1-3) by (simp add: Error_log_def logProxyError_def method_and_path_def split: option.splits)
qed

theorem error_log_hides_token_witness:
  "let r = \<lparr>rq_Method = ''GET'', rq_Scheme = [], rq_Host = [], rq_Path = ''/x'', rq_RawQuery = [],
        rq_Header = [(''Bssm-Dev-Token'', [''abcSECRETxyz''])], rq_RemoteAddr = []\<rparr>
   in Error_log (\<lambda>_. False) (r\<lparr>rq_Header := [(''Bssm-Dev-Token'', [''abc?xyz''])]\<rparr>) []
        ((reply_with [])\<lparr>re_errors := [ProxyErr ErrApiTokenBlocked]\<rparr>)
      = Error_log (\<lambda>_. False) r [] ((reply_with [])\<lparr>re_errors := [ProxyErr ErrApiTokenBlocked]\<rparr>)"
proof -
  let ?r = "\<lparr>rq_Method = ''GET'', rq_Scheme = [], rq_Host = [], rq_Path = ''/x'', rq_RawQuery = [],
    rq_Header = [(''Bssm-Dev-Token'', [''abcSECRETxyz''])], rq_RemoteAddr = []\<rparr>"
  let ?h = "[(''Bssm-Dev-Token'', [''abc?xyz''])]"
  have "Header_Get (rq_Header ?r) ''bssm-dev-token'' = ''abc'' @ ''SECRET'' @ ''xyz''"
    "Header_Get ?h ''bssm-dev-token'' = ''abc'' @ ''?'' @ ''xyz''"
    "Header_Get (rq_Header ?r) ''Origin'' = []" "Header_Get ?h ''Origin'' = []"
    by code_simp+
  then show ?thesis
    using error_log_hides_token [of "?r\<lparr>rq_Header := ?h\<rparr>" ?r "''abc''" "''SECRET''" "''xyz''" "''?''"]
    by (simp add: Let_def)
qed


text \<open>The queue middleware lets a request through exactly when it has no token (the queue is then not
  touched) or the queue grants it a slot, asked for with the client's priority, or 1 when that cannot
  be read; a granted slot is given back after the rest of the chain, however it ends, and a refused
  request is answered with 429, runs nothing further, and is counted as a failure of the client
  exactly when the queue reported no error.\<close>

theorem queue_middleware_cases:
  assumes "GetPriority (qm_redis m) (qm_priority m) clientID e = ((prio, prio_err), e1)"
    and "qu_Acquire (qm_queue m) clientID (case prio_err of None \<Rightarrow> prio | Some _ \<Rightarrow> 1) e1 = ((acquired, err), e2)"
    and "Header_Get (rq_Header r) ''bssm-dev-token'' = clientID" "clientID \<noteq> []"
  shows "if acquired \<and> err = None
    then Queue_Handle m r next_handler e =
      (fst (next_handler e2), qu_Release (qm_queue m) (snd (next_handler e2)))
    else \<exists>rep. Queue_Handle m r next_handler e = (rep, e2)
      \<and> re_calls rep = [C_AbortJSON 429 (errorResponse ErrTooManyRequests)]
      \<and> re_tasks rep = (if err = None then [CountFailure clientID] else [])"
  using assms
  by (auto simp: Queue_Handle_def Let_def reply_with_def split: prod.splits option.splits)

definition demo_queue :: "nat request_queue" where
  "demo_queue =
     \<lparr>qu_Acquire = (\<lambda>c p e. if 0 < e then ((True, None), e - 1) else ((False, None), e)), qu_Release = Suc\<rparr>"

definition demo_queue_mw :: "nat queue_middleware" where
  "demo_queue_mw =
     \<lparr>qm_queue = demo_queue, qm_priority = \<lparr>basePriority = 1, priorityIncrement = 0.2, maxPriority = 3\<rparr>,
      qm_redis = table_redis (\<lambda>e. []) (\<lambda>t e. e)\<rparr>"

definition token_request :: http_request where
  "token_request =
     \<lparr>rq_Method = ''GET'', rq_Scheme = [], rq_Host = ''proxy'', rq_Path = ''/proxy-browser/v1'', rq_RawQuery = [],
      rq_Header = [(''Bssm-Dev-Token'', [''c''])], rq_RemoteAddr = []\<rparr>"

lemma token_request_client: "Header_Get (rq_Header token_request) ''bssm-dev-token'' = ''c''"
proof -
  have "CanonicalHeaderKey ''bssm-dev-token'' = ''Bssm-Dev-Token''" by code_simp
  then show ?thesis by (simp add: Header_Get_def token_request_def)
qed

theorem queue_middleware_cases_witness:
  "\<exists>rep. Queue_Handle demo_queue_mw token_request (\<lambda>e. (reply_with [], e)) 0 = (rep, 0)
    \<and> re_tasks rep = [CountFailure ''c'']"
  using queue_middleware_cases [where m = demo_queue_mw and clientID = "''c''" and e = 0 and r = token_request
      and next_handler = "\<lambda>e. (reply_with [], e)" and acquired = False and err = None and prio = 1
      and prio_err = None and ?e1.0 = 0 and ?e2.0 = 0]
    token_request_client
  by (auto simp: demo_queue_mw_def demo_queue_def GetPriority_def redis_GetInt_def table_redis_def)



definition open_queue_mw :: "'e queue_middleware" where
  "open_queue_mw =
     \<lparr>qm_queue = \<lparr>qu_Acquire = (\<lambda>c p e. ((True, None), e)), qu_Release = id\<rparr>,
      qm_priority = \<lparr>basePriority = 1, priorityIncrement = 0.2, maxPriority = 3\<rparr>,
      qm_redis = table_redis (\<lambda>e. []) (\<lambda>t e. e)\<rparr>"

definition demo_server :: "pipe_world server" where
  "demo_server =
     \<lparr>sv_queue = open_queue_mw,
      sv_proxy = \<lparr>ph_pipeline = demo_pipeline, ph_bcrypt = (\<lambda>h s. s = ''key''), ph_debug = False\<rparr>,
      sv_health = trusting_health\<rparr>"


text \<open>A proxy request without a token is refused without any effect: neither the queue nor the cache, the
  database or the upstream is touched, and the answer is JSON whose body says 404 while the HTTP
  status is 400.\<close>

theorem missing_token_refused:
  assumes "Header_Get (rq_Header r) ''bssm-dev-token'' = []" "written [C_JSON 400 j]"
    and "j = JObj [(''statusCode'', JInt 404), (''message'', JStr (pe_Message ErrApiTokenNotFound))]"
  shows "serve U written qry s ProxyRequest r read_body e = (reply_with [C_JSON 400 j], e)"
  using assms
  by (simp add: serve_def Queue_Handle_def Error_Handle_def Proxy_Handle_def tokenHeader_def Let_def
      reply_with_def errorResponse_def ErrApiTokenNotFound_def)

theorem missing_token_refused_witness:
  "re_calls (fst (serve ascii_tables (list_ex responds) (\<lambda>r n. []) demo_server ProxyRequest plain_request (Ok [])
      pipe_world0)) =
    [C_JSON 400 (JObj [(''statusCode'', JInt 404), (''message'', JStr (pe_Message ErrApiTokenNotFound))])]"
proof -
  have "Header_Get (rq_Header plain_request) ''bssm-dev-token'' = []"
    by (simp add: Header_Get_def plain_request_def)
  from missing_token_refused [OF this _ refl, of "list_ex responds" ascii_tables "\<lambda>r n. []" demo_server "Ok []" pipe_world0]
  show ?thesis by (simp add: reply_with_def)
qed

text \<open>What the header calls do to the headers of the response; \<open>set_header\<close> is \<open>c.Header\<close>.\<close>

fun apply_headers ::
  "(gostring \<Rightarrow> gostring \<Rightarrow> http_header \<Rightarrow> http_header) \<Rightarrow> gin_call list \<Rightarrow> http_header \<Rightarrow> http_header" where
  "apply_headers set_header [] h = h"
| "apply_headers set_header (c # cs) h =
     apply_headers set_header cs (case c of C_Header k v \<Rightarrow> set_header k v h | _ \<Rightarrow> h)"

lemma apply_headers_append:
  "apply_headers f (cs @ ds) h = apply_headers f ds (apply_headers f cs h)"
  by (induction cs arbitrary: h) simp_all

lemma apply_headers_values:
  assumes "\<And>k v h x. v \<noteq> [] \<Longrightarrow> map_of (f k v h) x = (if x = CanonicalHeaderKey k then Some [v] else map_of h x)"
    and "CanonicalHeaderKey k = k" "[] \<notin> set vs"
  shows "map_of (apply_headers f (map (C_Header k) vs) h) x =
    (if x = k \<and> vs \<noteq> [] then Some [last vs] else map_of h x)"
  using assms(3)
proof (induction vs arbitrary: h)
  case (Cons v vs)
  then have v: "v \<noteq> []" "[] \<notin> set vs" by auto
  then show ?case
    using Cons.IH [of "f k v h"] assms(1) [OF v(1), of k h] by (simp add: assms(2))
qed simp

lemma apply_header_calls:
  assumes "\<And>k v h x. v \<noteq> [] \<Longrightarrow> map_of (f k v h) x = (if x = CanonicalHeaderKey k then Some [v] else map_of h x)"
    and "gomap_wf hs" "\<And>k vs. (k, vs) \<in> set hs \<Longrightarrow> CanonicalHeaderKey k = k \<and> [] \<notin> set vs"
  shows "map_of (apply_headers f (header_calls hs) h) x =
    (case map_of hs x of Some vs \<Rightarrow> if vs \<noteq> [] then Some [last vs] else map_of h x | None \<Rightarrow> map_of h x)"
  using assms(2,3)
proof (induction hs arbitrary: h)
  case (Cons kv hs)
  obtain k vs where kv: "kv = (k, vs)" by (cases kv)
  have k: "CanonicalHeaderKey k = k" "[] \<notin> set vs" using Cons.prems(2) kv by auto
  have rest: "map_of (apply_headers f (header_calls hs) h') x =
      (case map_of hs x of Some vs \<Rightarrow> if vs \<noteq> [] then Some [last vs] else map_of h' x | None \<Rightarrow> map_of h' x)" for h'
    using Cons.IH [of h'] Cons.prems kv by auto
  have "map_of hs k = None" using Cons.prems(1) kv by (simp add: map_of_eq_None_iff)
  then show ?case
    using rest [of "apply_headers f (map (C_Header k) vs) h"] apply_headers_values [OF assms(1) k]
    by (auto simp: kv apply_headers_append split: option.splits)
qed simp

text \<open>Of an upstream header with several values only the last one reaches the client: with \<open>c.Header\<close>
  replacing the value of its key, as gin documents, the headers of the response hold for each header
  of the upstream response exactly its last value, although the loop visits all of them.\<close>

theorem response_keeps_last_value:
  assumes "\<And>k v h x. v \<noteq> [] \<Longrightarrow>
      map_of (set_header k v h) x = (if x = CanonicalHeaderKey k then Some [v] else map_of h x)"
    and "gomap_wf (pr_Headers resp)"
    and "\<And>k vs. (k, vs) \<in> set (pr_Headers resp) \<Longrightarrow> CanonicalHeaderKey k = k \<and> [] \<notin> set vs"
    and "map_of (pr_Headers resp) x = Some vs" "vs \<noteq> []"
  shows "map_of (apply_headers set_header (writeProxyResponse resp) h) x = Some [last vs]"
  using apply_header_calls [OF assms(1-3), of h x] assms(4,5)
  by (simp add: writeProxyResponse_def Let_def apply_headers_append)

theorem response_keeps_last_value_witness:
  "map_of (apply_headers (\<lambda>k v h. AList.update (CanonicalHeaderKey k) [v] h)
     (writeProxyResponse \<lparr>pr_StatusCode = 200, pr_Headers = [(''Link'', [''a'', ''b''])], pr_Body = []\<rparr>) []) ''Link''
   = Some [''b'']"
proof -
  have k: "CanonicalHeaderKey ''Link'' = ''Link''" by code_simp
  have "map_of (apply_headers (\<lambda>k v h. AList.update (CanonicalHeaderKey k) [v] h)
     (writeProxyResponse \<lparr>pr_StatusCode = 200, pr_Headers = [(''Link'', [''a'', ''b''])], pr_Body = []\<rparr>) []) ''Link''
   = Some [last [''a'', ''b'']]"
    by (rule response_keeps_last_value) (auto simp: update_conv' k)
  then show ?thesis by simp
qed

end
