(* ===== verification/WaitQueue.thy ===== *)
theory WaitQueue
  imports GoStrings
begin

text \<open>
  The concurrency of the two request queues of \<open>internal/queue\<close>. \<open>Acquire\<close>, \<open>Release\<close>,
  \<open>complete\<close> and the timer goroutine have the same control flow in \<open>hrn_queue.go\<close> and
  \<open>semaphore_queue.go\<close>; the two differ in the waiter struct and in how the list of waiters is kept.
  The control flow is the step relation \<open>q_step\<close> over the record \<open>queue_ops\<close> of the
  queue-specific operations; the interface \<open>wait_queue\<close> states what these promise, and the
  properties of every interleaving are proved in it once.

  One step is what Go makes atomic: a channel operation, a compare-and-swap together with the send
  that follows it (the buffer of \<open>w.ch\<close> is empty then, see \<open>complete_buffer_empty\<close>, so the send
  does not block and nobody else touches the channel), or a critical section of \<open>q.mu\<close>.
  A waiter is addressed by its position in the list of all waiters ever allocated.
\<close>

subsection \<open>State\<close>

text \<open>
  \<open>wch\<close> is the content of the channel \<open>ch\<close> (of capacity 1), \<open>wdone\<close> the atomic flag. The struct
  \<open>waiter\<close> of the HRN queue extends this record.
\<close>

record simple_waiter =
  wch :: "bool option"
  wdone :: bool

record 'w qmem =
  store :: "'w list"
  order :: "nat list"

record 'w queue_ops =
  new_waiter :: "gostring \<Rightarrow> real \<Rightarrow> int \<Rightarrow> 'w"
  op_push :: "int \<Rightarrow> nat \<Rightarrow> 'w qmem \<Rightarrow> 'w qmem"
  op_pop :: "int \<Rightarrow> 'w qmem \<Rightarrow> (nat \<times> 'w qmem) option"
  op_remove :: "int \<Rightarrow> nat \<Rightarrow> 'w qmem \<Rightarrow> 'w qmem"

text \<open>
  Where a goroutine that serves a request is: in \<open>Acquire\<close> before the non-blocking receive, after
  its default branch, holding a fresh waiter it has not yet queued, blocked on \<open>w.ch\<close>; serving the
  request; in \<open>Release\<close> before the lock, holding a popped waiter, before the send to \<open>q.sem\<close>; and
  at its end, refused or served. And where a waiter's timer goroutine is.
\<close>

datatype proc =
    AcqTry gostring real
  | AcqNew gostring real
  | AcqPush nat
  | AcqWait nat
  | Holding
  | RelLock
  | RelComplete nat
  | RelSend
  | Refused
  | Served

datatype timer = TIdle | TArmed | TRemove | TDone

record 'w qstate =
  mem :: "'w qmem"
  sem :: nat
  cap :: nat
  procs :: "proc list"
  timers :: "timer list"
  clock :: int

subsection \<open>Operations\<close>

definition set_waiter :: "nat \<Rightarrow> ('w \<Rightarrow> 'w) \<Rightarrow> 'w qmem \<Rightarrow> 'w qmem" where
  "set_waiter w f m = m\<lparr>store := (store m)[w := f (store m ! w)]\<rparr>"

text \<open>\<open>complete\<close>: the compare-and-swap on \<open>done\<close>, then the send; true for the first caller only.\<close>

definition complete_waiter :: "nat \<Rightarrow> bool \<Rightarrow> 'a simple_waiter_scheme qmem
    \<Rightarrow> bool \<times> 'a simple_waiter_scheme qmem" where
  "complete_waiter w r m =
     (if wdone (store m ! w) then (False, m)
      else (True, set_waiter w (\<lambda>x. x\<lparr>wch := Some r, wdone := True\<rparr>) m))"

text \<open>The queue as its constructor leaves it, with all slots free.\<close>

definition init_queue :: "nat \<Rightarrow> 'w qstate" where
  "init_queue maxInflight =
     \<lparr>mem = \<lparr>store = [], order = []\<rparr>, sem = maxInflight, cap = maxInflight,
      procs = [], timers = [], clock = 0\<rparr>"

inductive q_step ::
  "'a simple_waiter_scheme queue_ops \<Rightarrow> 'a simple_waiter_scheme qstate
    \<Rightarrow> 'a simple_waiter_scheme qstate \<Rightarrow> bool"
  for ops where
  arrive: "q_step ops s (s\<lparr>procs := procs s @ [AcqTry c p]\<rparr>)"
| tick: "clock s \<le> t \<Longrightarrow> q_step ops s (s\<lparr>clock := t\<rparr>)"
| try_take:
    "i < length (procs s) \<Longrightarrow> procs s ! i = AcqTry c p \<Longrightarrow> 0 < sem s \<Longrightarrow>
     q_step ops s (s\<lparr>sem := sem s - 1, procs := (procs s)[i := Holding]\<rparr>)"
| try_default:
    "i < length (procs s) \<Longrightarrow> procs s ! i = AcqTry c p \<Longrightarrow> sem s = 0 \<Longrightarrow>
     q_step ops s (s\<lparr>procs := (procs s)[i := AcqNew c p]\<rparr>)"
| alloc:
    "i < length (procs s) \<Longrightarrow> procs s ! i = AcqNew c p \<Longrightarrow>
     q_step ops s
       (s\<lparr>mem := (mem s)\<lparr>store := store (mem s) @ [new_waiter ops c p (clock s)]\<rparr>,
          timers := timers s @ [TIdle],
          procs := (procs s)[i := AcqPush (length (store (mem s)))]\<rparr>)"
| push:
    "i < length (procs s) \<Longrightarrow> procs s ! i = AcqPush w \<Longrightarrow>
     q_step ops s
       (s\<lparr>mem := op_push ops (clock s) w (mem s), timers := (timers s)[w := TArmed],
          procs := (procs s)[i := AcqWait w]\<rparr>)"
| receive:
    "i < length (procs s) \<Longrightarrow> procs s ! i = AcqWait w \<Longrightarrow>
     wch (store (mem s) ! w) = Some r \<Longrightarrow>
     q_step ops s
       (s\<lparr>mem := set_waiter w (\<lambda>x. x\<lparr>wch := None\<rparr>) (mem s),
          procs := (procs s)[i := (if r then Holding else Refused)]\<rparr>)"
| finish:
    "i < length (procs s) \<Longrightarrow> procs s ! i = Holding \<Longrightarrow>
     q_step ops s (s\<lparr>procs := (procs s)[i := RelLock]\<rparr>)"
| release_empty:
    "i < length (procs s) \<Longrightarrow> procs s ! i = RelLock \<Longrightarrow> op_pop ops (clock s) (mem s) = None \<Longrightarrow>
     q_step ops s (s\<lparr>procs := (procs s)[i := RelSend]\<rparr>)"
| release_pop:
    "i < length (procs s) \<Longrightarrow> procs s ! i = RelLock \<Longrightarrow>
     op_pop ops (clock s) (mem s) = Some (w, m) \<Longrightarrow>
     q_step ops s (s\<lparr>mem := m, procs := (procs s)[i := RelComplete w]\<rparr>)"
| release_complete:
    "i < length (procs s) \<Longrightarrow> procs s ! i = RelComplete w \<Longrightarrow>
     complete_waiter w True (mem s) = (won, m) \<Longrightarrow>
     q_step ops s (s\<lparr>mem := m, procs := (procs s)[i := (if won then Served else RelLock)]\<rparr>)"
| release_send:
    "i < length (procs s) \<Longrightarrow> procs s ! i = RelSend \<Longrightarrow> sem s < cap s \<Longrightarrow>
     q_step ops s (s\<lparr>sem := sem s + 1, procs := (procs s)[i := Served]\<rparr>)"
| expire:
    "w < length (timers s) \<Longrightarrow> timers s ! w = TArmed \<Longrightarrow>
     complete_waiter w False (mem s) = (won, m) \<Longrightarrow>
     q_step ops s (s\<lparr>mem := m, timers := (timers s)[w := (if won then TRemove else TDone)]\<rparr>)"
| expire_remove:
    "w < length (timers s) \<Longrightarrow> timers s ! w = TRemove \<Longrightarrow>
     q_step ops s (s\<lparr>mem := op_remove ops (clock s) w (mem s), timers := (timers s)[w := TDone]\<rparr>)"

inductive q_reachable ::
  "'a simple_waiter_scheme queue_ops \<Rightarrow> nat \<Rightarrow> 'a simple_waiter_scheme qstate \<Rightarrow> bool"
  for ops n where
  q_init: "q_reachable ops n (init_queue n)"
| q_next: "q_reachable ops n s \<Longrightarrow> q_step ops s t \<Longrightarrow> q_reachable ops n t"

text \<open>
  The loop of \<open>Release\<close> run without interference: \<open>Some (m, Some w)\<close> when it handed the slot to
  waiter \<open>w\<close>, \<open>Some (m, None)\<close> when it ended with the send to \<open>q.sem\<close>.
\<close>

partial_function (option) release_loop ::
  "'a simple_waiter_scheme queue_ops \<Rightarrow> int \<Rightarrow> 'a simple_waiter_scheme qmem
    \<Rightarrow> ('a simple_waiter_scheme qmem \<times> nat option) option" where
  "release_loop ops t m =
     (case op_pop ops t m of
        None \<Rightarrow> Some (m, None)
      | Some (w, m1) \<Rightarrow>
          (case complete_waiter w True m1 of
             (won, m2) \<Rightarrow> if won then Some (m2, Some w) else release_loop ops t m2))"

subsection \<open>Running a schedule\<close>

text \<open>
  Once a scheduler has chosen which goroutine or timer moves, the step is determined: \<open>q_exec\<close>
  computes it, \<open>None\<close> when the chosen one is blocked or has ended. It has exactly the steps of
  \<open>q_step\<close>, so a list of events is a concrete interleaving.
\<close>

datatype q_event = Arrive gostring real | Tick int | Move nat | Timer nat

definition q_move :: "'a simple_waiter_scheme queue_ops \<Rightarrow> nat \<Rightarrow> 'a simple_waiter_scheme qstate
    \<Rightarrow> 'a simple_waiter_scheme qstate option" where
  "q_move ops i s =
     (case procs s ! i of
        AcqTry c p \<Rightarrow>
          Some (if 0 < sem s then s\<lparr>sem := sem s - 1, procs := (procs s)[i := Holding]\<rparr>
                else s\<lparr>procs := (procs s)[i := AcqNew c p]\<rparr>)
      | AcqNew c p \<Rightarrow>
          Some (s\<lparr>mem := (mem s)\<lparr>store := store (mem s) @ [new_waiter ops c p (clock s)]\<rparr>,
                  timers := timers s @ [TIdle],
                  procs := (procs s)[i := AcqPush (length (store (mem s)))]\<rparr>)
      | AcqPush w \<Rightarrow>
          Some (s\<lparr>mem := op_push ops (clock s) w (mem s), timers := (timers s)[w := TArmed],
                  procs := (procs s)[i := AcqWait w]\<rparr>)
      | AcqWait w \<Rightarrow>
          (case wch (store (mem s) ! w) of
             None \<Rightarrow> None
           | Some r \<Rightarrow>
               Some (s\<lparr>mem := set_waiter w (\<lambda>x. x\<lparr>wch := None\<rparr>) (mem s),
                       procs := (procs s)[i := (if r then Holding else Refused)]\<rparr>))
      | Holding \<Rightarrow> Some (s\<lparr>procs := (procs s)[i := RelLock]\<rparr>)
      | RelLock \<Rightarrow>
          Some (case op_pop ops (clock s) (mem s) of
                  None \<Rightarrow> s\<lparr>procs := (procs s)[i := RelSend]\<rparr>
                | Some (w, m) \<Rightarrow> s\<lparr>mem := m, procs := (procs s)[i := RelComplete w]\<rparr>)
      | RelComplete w \<Rightarrow>
          Some (case complete_waiter w True (mem s) of
                  (won, m) \<Rightarrow> s\<lparr>mem := m, procs := (procs s)[i := (if won then Served else RelLock)]\<rparr>)
      | RelSend \<Rightarrow>
          (if sem s < cap s then Some (s\<lparr>sem := sem s + 1, procs := (procs s)[i := Served]\<rparr>) else None)
      | Refused \<Rightarrow> None
      | Served \<Rightarrow> None)"

definition q_fire :: "'a simple_waiter_scheme queue_ops \<Rightarrow> nat \<Rightarrow> 'a simple_waiter_scheme qstate
    \<Rightarrow> 'a simple_waiter_scheme qstate option" where
  "q_fire ops w s =
     (case timers s ! w of
        TArmed \<Rightarrow>
          Some (case complete_waiter w False (mem s) of
                  (won, m) \<Rightarrow> s\<lparr>mem := m, timers := (timers s)[w := (if won then TRemove else TDone)]\<rparr>)
      | TRemove \<Rightarrow>
          Some (s\<lparr>mem := op_remove ops (clock s) w (mem s), timers := (timers s)[w := TDone]\<rparr>)
      | _ \<Rightarrow> None)"

fun q_exec :: "'a simple_waiter_scheme queue_ops \<Rightarrow> q_event \<Rightarrow> 'a simple_waiter_scheme qstate
    \<Rightarrow> 'a simple_waiter_scheme qstate option" where
  "q_exec ops (Arrive c p) s = Some (s\<lparr>procs := procs s @ [AcqTry c p]\<rparr>)"
| "q_exec ops (Tick t) s = (if clock s \<le> t then Some (s\<lparr>clock := t\<rparr>) else None)"
| "q_exec ops (Move i) s = (if i < length (procs s) then q_move ops i s else None)"
| "q_exec ops (Timer w) s = (if w < length (timers s) then q_fire ops w s else None)"

fun q_run :: "'a simple_waiter_scheme queue_ops \<Rightarrow> q_event list \<Rightarrow> 'a simple_waiter_scheme qstate
    \<Rightarrow> 'a simple_waiter_scheme qstate option" where
  "q_run ops [] s = Some s"
| "q_run ops (e # es) s = (case q_exec ops e s of None \<Rightarrow> None | Some t \<Rightarrow> q_run ops es t)"

lemma q_move_sound:
  assumes "q_move ops i s = Some t" "i < length (procs s)"
  shows "q_step ops s t"
proof (cases "procs s ! i")
  case (AcqTry c p)
  then show ?thesis
    using assms q_step.try_take [of i s c p ops] q_step.try_default [of i s c p ops]
    by (cases "sem s = 0") (auto simp: q_move_def)
next
  case (AcqNew c p)
  then show ?thesis using assms q_step.alloc [of i s c p ops] by (auto simp: q_move_def)
next
  case (AcqPush w)
  then show ?thesis using assms q_step.push [of i s w ops] by (auto simp: q_move_def)
next
  case (AcqWait w)
  then show ?thesis
    using assms q_step.receive [of i s w _ ops] by (auto simp: q_move_def split: option.splits)
next
  case Holding
  then show ?thesis using assms q_step.finish [of i s ops] by (auto simp: q_move_def)
next
  case RelLock
  then show ?thesis
    using assms q_step.release_empty [of i s ops] q_step.release_pop [of i s ops]
    by (auto simp: q_move_def split: option.splits)
next
  case (RelComplete w)
  then show ?thesis
    using assms q_step.release_complete [of i s w _ _ ops]
    by (auto simp: q_move_def split: prod.splits)
next
  case RelSend
  then show ?thesis
    using assms q_step.release_send [of i s ops] by (auto simp: q_move_def split: if_splits)
qed (use assms in \<open>auto simp: q_move_def\<close>)

lemma q_fire_sound:
  assumes "q_fire ops w s = Some t" "w < length (timers s)"
  shows "q_step ops s t"
  using assms q_step.expire [of w s _ _ ops] q_step.expire_remove [of w s ops]
  by (auto simp: q_fire_def split: timer.splits prod.splits)

lemma q_exec_iff: "q_step ops s t \<longleftrightarrow> (\<exists>e. q_exec ops e s = Some t)"
proof
  assume "q_step ops s t"
  then show "\<exists>e. q_exec ops e s = Some t"
  proof cases
    case (arrive c p)
    then show ?thesis by (intro exI [of _ "Arrive c p"]) simp
  next
    case (tick t)
    then show ?thesis by (intro exI [of _ "Tick t"]) simp
  next
    case (expire w won m)
    then show ?thesis by (intro exI [of _ "Timer w"]) (simp add: q_fire_def)
  next
    case (expire_remove w)
    then show ?thesis by (intro exI [of _ "Timer w"]) (simp add: q_fire_def)
  next
    case (try_take i c p)
    then show ?thesis by (intro exI [of _ "Move i"]) (simp add: q_move_def)
  next
    case (try_default i c p)
    then show ?thesis by (intro exI [of _ "Move i"]) (simp add: q_move_def)
  next
    case (alloc i c p)
    then show ?thesis by (intro exI [of _ "Move i"]) (simp add: q_move_def)
  next
    case (push i w)
    then show ?thesis by (intro exI [of _ "Move i"]) (simp add: q_move_def)
  next
    case (receive i w r)
    then show ?thesis by (intro exI [of _ "Move i"]) (simp add: q_move_def)
  next
    case (finish i)
    then show ?thesis by (intro exI [of _ "Move i"]) (simp add: q_move_def)
  next
    case (release_empty i)
    then show ?thesis by (intro exI [of _ "Move i"]) (simp add: q_move_def)
  next
    case (release_pop i w m)
    then show ?thesis by (intro exI [of _ "Move i"]) (simp add: q_move_def)
  next
    case (release_complete i w won m)
    then show ?thesis by (intro exI [of _ "Move i"]) (simp add: q_move_def)
  next
    case (release_send i)
    then show ?thesis by (intro exI [of _ "Move i"]) (simp add: q_move_def)
  qed
next
  assume "\<exists>e. q_exec ops e s = Some t"
  then obtain e where e: "q_exec ops e s = Some t" ..
  then show "q_step ops s t"
    using q_step.arrive [of ops s] q_step.tick [of s _ ops] q_move_sound q_fire_sound
    by (cases e) (auto split: if_splits)
qed

lemma q_run_reachable:
  "q_run ops es s = Some t \<Longrightarrow> q_reachable ops n s \<Longrightarrow> q_reachable ops n t"
proof (induction es arbitrary: s)
  case (Cons e es)
  then obtain u where "q_exec ops e s = Some u" "q_run ops es u = Some t"
    by (auto split: option.splits)
  then show ?case using Cons q_reachable.q_next q_exec_iff by metis
qed simp

subsection \<open>Accounting\<close>

text \<open>The slots a goroutine holds, and those on their way to a waiting one.\<close>

fun proc_slots :: "proc \<Rightarrow> nat" where
  "proc_slots Holding = 1"
| "proc_slots RelLock = 1"
| "proc_slots (RelComplete w) = 1"
| "proc_slots RelSend = 1"
| "proc_slots p = 0"

definition waiter_slots :: "'a simple_waiter_scheme \<Rightarrow> nat" where
  "waiter_slots x = (if wch x = Some True then 1 else 0)"

definition total_slots :: "'a simple_waiter_scheme qstate \<Rightarrow> nat" where
  "total_slots s = sem s + sum_list (map proc_slots (procs s))
     + sum_list (map waiter_slots (store (mem s)))"

definition core :: "'a simple_waiter_scheme qmem \<Rightarrow> (bool option \<times> bool) list" where
  "core m = map (\<lambda>x. (wch x, wdone x)) (store m)"

lemma core_length: "core m = core m' \<Longrightarrow> length (store m) = length (store m')"
  unfolding core_def by (metis length_map)

lemma core_nth:
  assumes "core m = core m'" "w < length (store m)"
  shows "wch (store m ! w) = wch (store m' ! w)" "wdone (store m ! w) = wdone (store m' ! w)"
proof -
  have "core m ! w = core m' ! w" using assms(1) by simp
  then show "wch (store m ! w) = wch (store m' ! w)" "wdone (store m ! w) = wdone (store m' ! w)"
    using assms core_length [OF assms(1)] by (simp_all add: core_def)
qed

lemma core_slots:
  fixes m m' :: "'a simple_waiter_scheme qmem"
  assumes "core m = core m'"
  shows "sum_list (map waiter_slots (store m)) = sum_list (map waiter_slots (store m'))"
proof -
  have "map waiter_slots (store x) = map (\<lambda>(c, d). if c = Some True then 1 else 0) (core x)"
    for x :: "'a simple_waiter_scheme qmem"
    by (simp add: core_def waiter_slots_def)
  with assms show ?thesis by simp
qed

lemma set_waiter_simps [simp]:
  "length (store (set_waiter w f m)) = length (store m)"
  "order (set_waiter w f m) = order m"
  "v < length (store m) \<Longrightarrow>
     store (set_waiter w f m) ! v = (if v = w then f (store m ! v) else store m ! v)"
  by (simp_all add: set_waiter_def nth_list_update)

lemma set_waiter_slots:
  "w < length (store m) \<Longrightarrow>
     sum_list (map waiter_slots (store (set_waiter w f m))) + waiter_slots (store m ! w) =
     sum_list (map waiter_slots (store m)) + waiter_slots (f (store m ! w))"
  by (simp add: set_waiter_def sum_list_map_update)

lemma proc_slots_update:
  "i < length ps \<Longrightarrow>
     sum_list (map proc_slots (ps[i := p])) + proc_slots (ps ! i) =
     sum_list (map proc_slots ps) + proc_slots p"
  by (rule sum_list_map_update)

subsection \<open>The contract of a waiting list\<close>

text \<open>
  What the control flow relies on: the waiting list is a set of allocated waiters without repeats;
  \<open>push\<close> adds, \<open>pop\<close> takes some element off and fails on the empty list only, \<open>remove\<close> takes the
  given waiter off; none of them touches \<open>ch\<close> or \<open>done\<close>.
\<close>

locale wait_queue =
  fixes ops :: "'a simple_waiter_scheme queue_ops"
    and minv :: "'a simple_waiter_scheme qmem \<Rightarrow> bool"
  assumes new_ch: "wch (new_waiter ops c p t) = None"
    and new_done: "\<not> wdone (new_waiter ops c p t)"
    and minv_init: "minv \<lparr>store = [], order = []\<rparr>"
    and minv_alloc: "minv m \<Longrightarrow> minv (m\<lparr>store := store m @ [new_waiter ops c p t]\<rparr>)"
    and minv_ch: "minv m \<Longrightarrow> w < length (store m) \<Longrightarrow> minv (set_waiter w (\<lambda>x. x\<lparr>wch := a\<rparr>) m)"
    and minv_done: "minv m \<Longrightarrow> w < length (store m) \<Longrightarrow>
      minv (set_waiter w (\<lambda>x. x\<lparr>wch := a, wdone := b\<rparr>) m)"
    and minv_order: "minv m \<Longrightarrow> set (order m) \<subseteq> {..<length (store m)}"
    and minv_distinct: "minv m \<Longrightarrow> distinct (order m)"
    and push_law: "minv m \<Longrightarrow> w < length (store m) \<Longrightarrow> w \<notin> set (order m) \<Longrightarrow>
      minv (op_push ops t w m) \<and> core (op_push ops t w m) = core m
      \<and> mset (order (op_push ops t w m)) = add_mset w (mset (order m))"
    and pop_None: "minv m \<Longrightarrow> op_pop ops t m = None \<longleftrightarrow> order m = []"
    and pop_Some: "minv m \<Longrightarrow> op_pop ops t m = Some (w, m') \<Longrightarrow>
      minv m' \<and> core m' = core m \<and> mset (order m) = add_mset w (mset (order m'))"
    and remove_law: "minv m \<Longrightarrow> w < length (store m) \<Longrightarrow>
      minv (op_remove ops t w m) \<and> core (op_remove ops t w m) = core m
      \<and> mset (order (op_remove ops t w m)) = mset (order m) - {#w#}"
begin

text \<open>
  The invariant, in three parts: the memory and the slots; who owns which waiter; what became of
  each waiter's result.
\<close>

definition slots_inv :: "'a simple_waiter_scheme qstate \<Rightarrow> bool" where
  "slots_inv s \<longleftrightarrow> minv (mem s) \<and> length (timers s) = length (store (mem s))
     \<and> total_slots s = cap s"

definition owner_inv :: "'a simple_waiter_scheme qstate \<Rightarrow> bool" where
  "owner_inv s \<longleftrightarrow>
     (\<forall>i < length (procs s). \<forall>w.
        (procs s ! i = AcqPush w \<longrightarrow> w < length (timers s) \<and> timers s ! w = TIdle)
        \<and> (procs s ! i = AcqWait w \<longrightarrow> w < length (timers s) \<and> timers s ! w \<noteq> TIdle)
        \<and> (procs s ! i = RelComplete w \<longrightarrow> w < length (timers s) \<and> timers s ! w \<noteq> TIdle))
     \<and> (\<forall>i < length (procs s). \<forall>j < length (procs s). \<forall>w.
          procs s ! i \<in> {AcqPush w, AcqWait w} \<longrightarrow> procs s ! j \<in> {AcqPush w, AcqWait w} \<longrightarrow> i = j)
     \<and> (\<forall>w \<in> set (order (mem s)). timers s ! w \<noteq> TIdle)"

definition result_inv :: "'a simple_waiter_scheme qstate \<Rightarrow> bool" where
  "result_inv s \<longleftrightarrow>
     (\<forall>w < length (store (mem s)).
        (\<not> wdone (store (mem s) ! w) \<longrightarrow> wch (store (mem s) ! w) = None)
        \<and> (timers s ! w \<noteq> TIdle \<longrightarrow> \<not> wdone (store (mem s) ! w) \<longrightarrow>
             timers s ! w = TArmed
             \<and> (w \<in> set (order (mem s)) \<or> RelComplete w \<in> set (procs s)))
        \<and> (timers s ! w = TIdle \<longrightarrow> \<not> wdone (store (mem s) ! w))
        \<and> (AcqWait w \<in> set (procs s) \<longrightarrow> wdone (store (mem s) ! w) \<longrightarrow>
             wch (store (mem s) ! w) \<noteq> None))"

lemma slots_inv_step:
  assumes "q_step ops s t" "slots_inv s" "owner_inv s" "result_inv s"
  shows "slots_inv t"
  using assms
proof (cases rule: q_step.cases)
  case (arrive c p)
  then show ?thesis using assms(2) by (simp add: slots_inv_def total_slots_def)
next
  case (tick t')
  then show ?thesis using assms(2) by (simp add: slots_inv_def total_slots_def)
next
  case (try_take i c p)
  then show ?thesis using assms(2) proc_slots_update [of i "procs s" Holding]
    by (simp add: slots_inv_def total_slots_def)
next
  case (try_default i c p)
  then show ?thesis using assms(2) proc_slots_update [of i "procs s" "AcqNew c p"]
    by (simp add: slots_inv_def total_slots_def)
next
  case (alloc i c p)
  then show ?thesis
    using assms(2) proc_slots_update [of i "procs s" "AcqPush (length (store (mem s)))"]
    by (simp add: slots_inv_def total_slots_def minv_alloc waiter_slots_def new_ch)
next
  case (push i w)
  have w: "w < length (store (mem s))" "w \<notin> set (order (mem s))"
    using assms(2,3) push by (auto simp: owner_inv_def slots_inv_def)
  with assms(2) have law: "minv (op_push ops (clock s) w (mem s))"
    "core (op_push ops (clock s) w (mem s)) = core (mem s)"
    using push_law [of "mem s" w "clock s"] by (auto simp: slots_inv_def)
  then show ?thesis
    using assms(2) push proc_slots_update [of i "procs s" "AcqWait w"] core_length [OF law(2)]
    by (simp add: slots_inv_def total_slots_def core_slots [OF law(2)])
next
  case (receive i w r)
  have w: "w < length (store (mem s))"
    using assms(2,3) receive by (auto simp: owner_inv_def slots_inv_def)
  have "waiter_slots (store (mem s) ! w) = proc_slots (if r then Holding else Refused)"
    using receive by (simp add: waiter_slots_def)
  then show ?thesis
    using assms(2) receive w set_waiter_slots [OF w, of "\<lambda>x. x\<lparr>wch := None\<rparr>"]
      proc_slots_update [of i "procs s" "if r then Holding else Refused"]
    by (simp add: slots_inv_def total_slots_def minv_ch waiter_slots_def)
next
  case (finish i)
  then show ?thesis using assms(2) proc_slots_update [of i "procs s" RelLock]
    by (simp add: slots_inv_def total_slots_def)
next
  case (release_empty i)
  then show ?thesis using assms(2) proc_slots_update [of i "procs s" RelSend]
    by (simp add: slots_inv_def total_slots_def)
next
  case (release_pop i w m)
  have law: "minv m" "core m = core (mem s)"
    using assms(2) release_pop pop_Some [of "mem s" "clock s" w m] by (auto simp: slots_inv_def)
  then show ?thesis
    using assms(2) release_pop proc_slots_update [of i "procs s" "RelComplete w"]
      core_length [OF law(2)]
    by (simp add: slots_inv_def total_slots_def core_slots [OF law(2)])
next
  case (release_complete i w won m)
  have w: "w < length (store (mem s))"
    using assms(2,3) release_complete by (auto simp: owner_inv_def slots_inv_def)
  then have "\<not> wdone (store (mem s) ! w) \<Longrightarrow> waiter_slots (store (mem s) ! w) = 0"
    using assms(4) by (simp add: result_inv_def waiter_slots_def)
  then show ?thesis
    using assms(2) release_complete w
      set_waiter_slots [OF w, of "\<lambda>x. x\<lparr>wch := Some True, wdone := True\<rparr>"]
      proc_slots_update [of i "procs s" "if won then Served else RelLock"]
    by (auto simp: slots_inv_def total_slots_def complete_waiter_def minv_done waiter_slots_def
        split: if_splits)
next
  case (release_send i)
  then show ?thesis using assms(2) proc_slots_update [of i "procs s" Served]
    by (simp add: slots_inv_def total_slots_def)
next
  case (expire w won m)
  have w: "w < length (store (mem s))" using assms(2) expire by (simp add: slots_inv_def)
  then have "\<not> wdone (store (mem s) ! w) \<Longrightarrow> waiter_slots (store (mem s) ! w) = 0"
    using assms(4) by (simp add: result_inv_def waiter_slots_def)
  then show ?thesis
    using assms(2) expire w set_waiter_slots [OF w, of "\<lambda>x. x\<lparr>wch := Some False, wdone := True\<rparr>"]
    by (auto simp: slots_inv_def total_slots_def complete_waiter_def minv_done waiter_slots_def
        split: if_splits)
next
  case (expire_remove w)
  have law: "minv (op_remove ops (clock s) w (mem s))"
    "core (op_remove ops (clock s) w (mem s)) = core (mem s)"
    using assms(2) expire_remove remove_law [of "mem s" w "clock s"] by (auto simp: slots_inv_def)
  then show ?thesis
    using assms(2) expire_remove core_length [OF law(2)]
    by (simp add: slots_inv_def total_slots_def core_slots [OF law(2)])
qed

lemma push_set:
  assumes "minv m" "w < length (store m)" "w \<notin> set (order m)"
  shows "set (order (op_push ops t w m)) = insert w (set (order m))"
  using push_law [OF assms, of t] by (metis set_mset_add_mset_insert set_mset_mset)

lemma pop_set:
  assumes "minv m" "op_pop ops t m = Some (w, m')"
  shows "set (order m) = insert w (set (order m'))" "w \<notin> set (order m')"
proof -
  have eq: "mset (order m) = add_mset w (mset (order m'))" using pop_Some [OF assms] by simp
  then show "set (order m) = insert w (set (order m'))"
    by (metis set_mset_add_mset_insert set_mset_mset)
  have "distinct (w # order m')"
    using minv_distinct [OF assms(1)] eq by (metis distinct_count_atmost_1 mset.simps(2) set_mset_mset)
  then show "w \<notin> set (order m')" by simp
qed

lemma remove_set:
  assumes "minv m" "w < length (store m)"
  shows "set (order (op_remove ops t w m)) = set (order m) - {w}"
proof -
  have "mset (order (op_remove ops t w m)) = mset (remove1 w (order m))"
    using remove_law [OF assms, of t] by simp
  then show ?thesis
    using minv_distinct [OF assms(1)] by (metis set_mset_mset set_remove1_eq)
qed

lemma owner_inv_step:
  assumes "q_step ops s t" "slots_inv s" "owner_inv s" "result_inv s"
  shows "owner_inv t"
  using assms(1)
proof (cases rule: q_step.cases)
  case (arrive c p)
  then show ?thesis using assms(3) by (auto simp: owner_inv_def nth_append less_Suc_eq)
next
  case (tick t')
  then show ?thesis using assms(3) by (simp add: owner_inv_def)
next
  case (try_take i c p)
  then show ?thesis using assms(3) by (auto simp: owner_inv_def nth_list_update)
next
  case (try_default i c p)
  then show ?thesis using assms(3) by (auto simp: owner_inv_def nth_list_update)
next
  case (alloc i c p)
  have "set (order (mem s)) \<subseteq> {..<length (timers s)}" "length (timers s) = length (store (mem s))"
    using assms(2) minv_order by (auto simp: slots_inv_def)
  then show ?thesis
    using assms(3) alloc by (auto simp: owner_inv_def nth_list_update nth_append)
next
  case (push i w)
  have w: "w < length (store (mem s))" "w \<notin> set (order (mem s))" "minv (mem s)"
    using assms(2,3) push by (auto simp: owner_inv_def slots_inv_def)
  have "set (order (mem s)) \<subseteq> {..<length (timers s)}" "w < length (timers s)"
    using assms(2) minv_order w by (auto simp: slots_inv_def)
  then show ?thesis
    using assms(3) push push_set [OF w(3,1,2)]
    by (auto simp: owner_inv_def nth_list_update)
next
  case (receive i w r)
  then show ?thesis using assms(3) by (auto simp: owner_inv_def nth_list_update)
next
  case (finish i)
  then show ?thesis using assms(3) by (auto simp: owner_inv_def nth_list_update)
next
  case (release_empty i)
  then show ?thesis using assms(3) by (auto simp: owner_inv_def nth_list_update)
next
  case (release_pop i w m)
  have "set (order (mem s)) \<subseteq> {..<length (timers s)}" and m: "minv (mem s)"
    using assms(2) minv_order by (auto simp: slots_inv_def)
  then show ?thesis
    using assms(3) release_pop pop_set [OF m release_pop(4)]
    by (auto simp: owner_inv_def nth_list_update)
next
  case (release_complete i w won m)
  then show ?thesis
    using assms(3) by (auto simp: owner_inv_def nth_list_update complete_waiter_def split: if_splits)
next
  case (release_send i)
  then show ?thesis using assms(3) by (auto simp: owner_inv_def nth_list_update)
next
  case (expire w won m)
  then show ?thesis
    using assms(3) by (auto simp: owner_inv_def nth_list_update complete_waiter_def split: if_splits)
next
  case (expire_remove w)
  have "w < length (store (mem s))" "minv (mem s)"
    using assms(2) expire_remove by (auto simp: slots_inv_def)
  then show ?thesis
    using assms(3) expire_remove remove_set [of "mem s" w "clock s"]
    by (auto simp: owner_inv_def nth_list_update)
qed

text \<open>A waiter has at most one goroutine blocked on it.\<close>

lemma owner_unique:
  assumes "owner_inv s" "i < length (procs s)" "procs s ! i \<in> {AcqPush w, AcqWait w}"
    and "p \<notin> {AcqPush w, AcqWait w}"
  shows "AcqPush w \<notin> set ((procs s)[i := p])" "AcqWait w \<notin> set ((procs s)[i := p])"
proof -
  have only: "j = i" if "j < length (procs s)" "procs s ! j \<in> {AcqPush w, AcqWait w}" for j
    using assms(1-3) that unfolding owner_inv_def by blast
  have "q \<notin> set ((procs s)[i := p])" if q: "q \<in> {AcqPush w, AcqWait w}" for q
  proof
    assume "q \<in> set ((procs s)[i := p])"
    then obtain j where j: "j < length (procs s)" "(procs s)[i := p] ! j = q"
      by (auto simp: in_set_conv_nth)
    show False
    proof (cases "j = i")
      case True
      with j assms(4) q show False by simp
    next
      case False
      with j q have "procs s ! j \<in> {AcqPush w, AcqWait w}" by auto
      with only [OF j(1)] False show False by blast
    qed
  qed
  then show "AcqPush w \<notin> set ((procs s)[i := p])" "AcqWait w \<notin> set ((procs s)[i := p])"
    by blast+
qed

lemma owner_bounds:
  assumes "owner_inv s" "slots_inv s"
  shows "AcqPush w \<in> set (procs s) \<Longrightarrow> w < length (store (mem s)) \<and> timers s ! w = TIdle"
    and "AcqWait w \<in> set (procs s) \<Longrightarrow> w < length (store (mem s)) \<and> timers s ! w \<noteq> TIdle"
    and "RelComplete w \<in> set (procs s) \<Longrightarrow> w < length (store (mem s)) \<and> timers s ! w \<noteq> TIdle"
  using assms by (auto simp: owner_inv_def slots_inv_def in_set_conv_nth)

text \<open>A step that moves one goroutine between states that name no waiter.\<close>

lemma result_inv_move:
  assumes "result_inv s" "i < length (procs s)" "\<And>w. procs s ! i \<noteq> RelComplete w"
    and "\<And>w. p \<noteq> AcqWait w"
  shows "result_inv (s\<lparr>procs := (procs s)[i := p]\<rparr>)"
  using assms in_set_update_keep [of _ "procs s" i p] in_set_update_cases [of _ "procs s" i p]
  unfolding result_inv_def by (simp, metis)

lemma result_inv_sem: "result_inv (s\<lparr>sem := n\<rparr>) = result_inv s"
  by (simp add: result_inv_def)

lemma result_inv_step:
  assumes "q_step ops s t" "slots_inv s" "owner_inv s" "result_inv s"
  shows "result_inv t"
  using assms(1)
proof (cases rule: q_step.cases)
  case (arrive c p)
  then show ?thesis using assms(4) by (auto simp: result_inv_def)
next
  case (tick t')
  then show ?thesis using assms(4) by (simp add: result_inv_def)
next
  case (try_take i c p)
  then have "result_inv (s\<lparr>procs := (procs s)[i := Holding]\<rparr>)"
    using assms(4) by (intro result_inv_move) auto
  then show ?thesis using try_take(1) by (simp add: result_inv_def)
next
  case (try_default i c p)
  then show ?thesis using assms(4) result_inv_move by simp
next
  case (alloc i c p)
  let ?n = "length (store (mem s))"
  have "AcqWait ?n \<notin> set (procs s)" using owner_bounds [OF assms(3,2)] by blast
  moreover have "RelComplete w \<in> set ((procs s)[i := AcqPush ?n]) \<longleftrightarrow> RelComplete w \<in> set (procs s)"
    "AcqWait w \<in> set ((procs s)[i := AcqPush ?n]) \<longleftrightarrow> AcqWait w \<in> set (procs s)" for w
    using alloc by (simp_all add: in_set_update_iff)
  moreover have "length (timers s) = ?n" using assms(2) by (simp add: slots_inv_def)
  ultimately show ?thesis
    using assms(4) alloc by (auto simp: result_inv_def nth_append less_Suc_eq new_ch new_done)
next
  case (push i w)
  have w: "w < length (store (mem s))" "w \<notin> set (order (mem s))" "minv (mem s)"
    and tm: "timers s ! w = TIdle" "length (timers s) = length (store (mem s))"
    using assms(2,3) push by (auto simp: owner_inv_def slots_inv_def)
  let ?m = "op_push ops (clock s) w (mem s)"
  have core: "core ?m = core (mem s)" using push_law w by blast
  have "RelComplete v \<in> set ((procs s)[i := AcqWait w]) \<longleftrightarrow> RelComplete v \<in> set (procs s)" for v
    using push by (simp add: in_set_update_iff)
  moreover have "\<not> wdone (store (mem s) ! w)" using assms(4) w tm by (simp add: result_inv_def)
  moreover have "AcqWait v \<in> set ((procs s)[i := AcqWait w]) \<longleftrightarrow> AcqWait v \<in> set (procs s)"
    if "v \<noteq> w" for v using push that by (simp add: in_set_update_iff)
  moreover have "(timers s)[w := TArmed] ! v = (if v = w then TArmed else timers s ! v)" for v
    using w tm by (simp add: nth_list_update)
  ultimately show ?thesis
    using assms(4) push tm core_length [OF core] core_nth [OF core] push_set [OF w(3,1,2)]
    by (auto simp: result_inv_def)
next
  case (receive i w r)
  define p where "p = (if r then Holding else Refused)"
  have p: "p \<noteq> AcqPush w" "p \<noteq> AcqWait v" "p \<noteq> RelComplete v" for v by (simp_all add: p_def)
  have w: "w < length (store (mem s))"
    using assms(2,3) receive by (auto simp: owner_inv_def slots_inv_def)
  have "AcqWait w \<notin> set ((procs s)[i := p])"
    using owner_unique [OF assms(3), of i w p] receive p by auto
  moreover have "RelComplete v \<in> set ((procs s)[i := p]) \<longleftrightarrow> RelComplete v \<in> set (procs s)" for v
    using receive p(3) [of v] by (intro in_set_update_iff) auto
  moreover have "AcqWait v \<in> set ((procs s)[i := p]) \<Longrightarrow> AcqWait v \<in> set (procs s)" for v
    using in_set_update_cases p by fastforce
  moreover have "wdone (store (mem s) ! w)" "timers s ! w \<noteq> TIdle"
    using assms(4) w receive by (auto simp: result_inv_def)
  moreover have "t = s\<lparr>mem := set_waiter w (\<lambda>x. x\<lparr>wch := None\<rparr>) (mem s), procs := (procs s)[i := p]\<rparr>"
    using receive by (simp add: p_def)
  ultimately show ?thesis
    using assms(4) w unfolding result_inv_def by simp
next
  case (finish i)
  then show ?thesis using assms(4) result_inv_move by simp
next
  case (release_empty i)
  then show ?thesis using assms(4) result_inv_move by simp
next
  case (release_pop i w m)
  have m: "minv (mem s)" using assms(2) by (simp add: slots_inv_def)
  have core: "core m = core (mem s)" using pop_Some [OF m release_pop(4)] by simp
  have "AcqWait v \<in> set ((procs s)[i := RelComplete w]) \<longleftrightarrow> AcqWait v \<in> set (procs s)" for v
    using release_pop by (simp add: in_set_update_iff)
  moreover have "RelComplete w \<in> set ((procs s)[i := RelComplete w])"
    using release_pop by (simp add: in_set_update_new)
  moreover have "RelComplete v \<in> set (procs s) \<Longrightarrow> RelComplete v \<in> set ((procs s)[i := RelComplete w])" for v
    using release_pop by (simp add: in_set_update_keep)
  ultimately show ?thesis
    using assms(4) release_pop core_length [OF core] core_nth [OF core] pop_set [OF m release_pop(4)]
    by (auto simp: result_inv_def)
next
  case (release_complete i w won m)
  let ?p = "if won then Served else RelLock"
  have w: "w < length (store (mem s))"
    using assms(2,3) release_complete by (auto simp: owner_inv_def slots_inv_def)
  have "AcqWait v \<in> set ((procs s)[i := ?p]) \<Longrightarrow> AcqWait v \<in> set (procs s)" for v
    using in_set_update_cases by (fastforce split: if_splits)
  moreover have "RelComplete v \<in> set (procs s) \<Longrightarrow> v \<noteq> w \<Longrightarrow> RelComplete v \<in> set ((procs s)[i := ?p])" for v
    using release_complete by (simp add: in_set_update_keep)
  moreover have "timers s ! w \<noteq> TIdle"
    using owner_bounds(3) [OF assms(3,2)] release_complete by (metis nth_mem)
  ultimately show ?thesis
    using assms(4) release_complete w
    by (fastforce simp: result_inv_def complete_waiter_def split: if_splits)
next
  case (release_send i)
  then have "result_inv (s\<lparr>procs := (procs s)[i := Served]\<rparr>)"
    using assms(4) by (intro result_inv_move) auto
  then show ?thesis using release_send(1) by (simp add: result_inv_def)
next
  case (expire w won m)
  have w: "w < length (store (mem s))" using assms(2) expire by (simp add: slots_inv_def)
  have tm: "(timers s)[w := x] ! v = (if v = w then x else timers s ! v)" for x v
    using expire by (simp add: nth_list_update)
  show ?thesis
  proof (cases "wdone (store (mem s) ! w)")
    case True
    then have "t = s\<lparr>timers := (timers s)[w := TDone]\<rparr>" using expire by (simp add: complete_waiter_def)
    then show ?thesis using assms(4) True by (simp add: result_inv_def tm)
  next
    case False
    then have "t = s\<lparr>mem := set_waiter w (\<lambda>x. x\<lparr>wch := Some False, wdone := True\<rparr>) (mem s),
      timers := (timers s)[w := TRemove]\<rparr>"
      using expire by (auto simp: complete_waiter_def)
    then show ?thesis using assms(4) w by (simp add: result_inv_def tm) metis
  qed
next
  case (expire_remove w)
  have w: "w < length (store (mem s))" and m: "minv (mem s)"
    and tm: "length (timers s) = length (store (mem s))"
    using assms(2) expire_remove by (auto simp: slots_inv_def)
  let ?m = "op_remove ops (clock s) w (mem s)"
  have core: "core ?m = core (mem s)" using remove_law m w by blast
  have "wdone (store (mem s) ! w)"
    using assms(4) w expire_remove by (auto simp: result_inv_def)
  then show ?thesis
    using assms(4) expire_remove w tm core_length [OF core] core_nth [OF core] remove_set [OF m w]
    by (auto simp: result_inv_def nth_list_update)
qed

lemma reachable_inv:
  "q_reachable ops n s \<Longrightarrow> slots_inv s \<and> owner_inv s \<and> result_inv s \<and> cap s = n"
proof (induction rule: q_reachable.induct)
  case q_init
  then show ?case
    by (simp add: init_queue_def slots_inv_def owner_inv_def result_inv_def total_slots_def minv_init)
next
  case (q_next s t)
  then have "slots_inv t" "owner_inv t" "result_inv t"
    using slots_inv_step owner_inv_step result_inv_step by blast+
  moreover have "cap t = cap s" using q_next.hyps(2) by (cases rule: q_step.cases) auto
  ultimately show ?case using q_next.IH by simp
qed

subsection \<open>What holds in every interleaving\<close>

text \<open>
  A goroutine serving a request holds a slot, so at most \<open>maxInflight\<close> requests are served at the
  same time; free slots, held slots and slots in transit always add up to \<open>maxInflight\<close>.
\<close>

lemma holders_bound:
  assumes "q_reachable ops n s"
  shows "length (filter (\<lambda>p. p = Holding) (procs s)) + sem s \<le> n"
proof -
  have "length (filter (\<lambda>p. p = Holding) (procs s)) \<le> sum_list (map proc_slots (procs s))"
    by (rule length_filter_le_sum_list) auto
  then show ?thesis
    using reachable_inv [OF assms] by (auto simp: slots_inv_def total_slots_def)
qed

text \<open>The send that ends \<open>Release\<close> finds room in the channel.\<close>

lemma release_send_room:
  assumes "q_reachable ops n s" "i < length (procs s)" "procs s ! i = RelSend"
  shows "sem s < cap s"
proof -
  have "1 \<le> sum_list (map proc_slots (procs s))"
    using sum_list_map_nth_le [OF assms(2), of proc_slots] assms(3) by simp
  then show ?thesis
    using reachable_inv [OF assms(1)] by (auto simp: slots_inv_def total_slots_def)
qed

text \<open>\<open>complete\<close> sends into an empty buffer: only the winner of the swap sends, once.\<close>

lemma complete_buffer_empty:
  "q_reachable ops n s \<Longrightarrow> w < length (store (mem s)) \<Longrightarrow> \<not> wdone (store (mem s) ! w) \<Longrightarrow>
     wch (store (mem s) ! w) = None"
  using reachable_inv by (simp add: result_inv_def)

text \<open>
  No waiter is lost: a goroutine blocked on \<open>w.ch\<close> finds its result there, or its waiter is still in
  the queue or in the hands of a releasing goroutine, with its timer running.
\<close>

lemma waiter_not_lost:
  assumes "q_reachable ops n s" "AcqWait w \<in> set (procs s)"
  shows "wch (store (mem s) ! w) \<noteq> None
    \<or> timers s ! w = TArmed \<and> (w \<in> set (order (mem s)) \<or> RelComplete w \<in> set (procs s))"
proof -
  note inv = reachable_inv [OF assms(1)]
  have "w < length (store (mem s))" "timers s ! w \<noteq> TIdle"
    using owner_bounds(2) [of s w] inv assms(2) by auto
  then show ?thesis using inv assms(2) by (auto simp: result_inv_def)
qed

text \<open>
  Progress: every goroutine that is neither serving a request nor finished can move, or its waiter
  can be expired by its timer.
\<close>

lemma no_deadlock:
  assumes "q_reachable ops n s" "i < length (procs s)"
    and "procs s ! i \<notin> {Holding, Refused, Served}"
  shows "\<exists>t. q_step ops s t \<and>
    (procs t ! i \<noteq> procs s ! i \<or>
     (\<exists>w. procs s ! i = AcqWait w \<and> wch (store (mem t) ! w) = Some False))"
proof (cases "procs s ! i")
  case (AcqTry c p)
  then show ?thesis
    using q_step.try_take [OF assms(2) AcqTry, of ops] q_step.try_default [OF assms(2) AcqTry, of ops]
      assms(2)
    by (cases "sem s = 0") fastforce+
next
  case (AcqNew c p)
  then show ?thesis using q_step.alloc [OF assms(2), of c p ops] assms(2) by fastforce
next
  case (AcqPush w)
  then show ?thesis using q_step.push [OF assms(2), of w ops] assms(2) by fastforce
next
  case (AcqWait w)
  then have mem: "AcqWait w \<in> set (procs s)" using assms(2) by (metis nth_mem)
  note inv = reachable_inv [OF assms(1)]
  show ?thesis
  proof (cases "wch (store (mem s) ! w)")
    case (Some r)
    then show ?thesis using q_step.receive [OF assms(2) AcqWait, of r ops] assms(2) AcqWait
      by (cases r) fastforce+
  next
    case None
    then have armed: "timers s ! w = TArmed" using waiter_not_lost [OF assms(1) mem] by simp
    have w: "w < length (store (mem s))" "w < length (timers s)"
      using owner_bounds(2) [of s w] inv mem by (auto simp: slots_inv_def)
    have "\<not> wdone (store (mem s) ! w)" using inv None w mem by (auto simp: result_inv_def)
    then show ?thesis
      using q_step.expire [OF w(2) armed, of True _ ops] w AcqWait
      by (fastforce simp: complete_waiter_def)
  qed
next
  case RelLock
  then show ?thesis
    using q_step.release_empty [OF assms(2) RelLock, of ops]
      q_step.release_pop [OF assms(2) RelLock, of ops] assms(2)
    by (cases "op_pop ops (clock s) (mem s)") fastforce+
next
  case (RelComplete w)
  obtain won m where c: "complete_waiter w True (mem s) = (won, m)" by fastforce
  from q_step.release_complete [OF assms(2) RelComplete c, of ops] show ?thesis
    using assms(2) RelComplete by (cases won) fastforce+
next
  case RelSend
  then show ?thesis
    using q_step.release_send [OF assms(2) RelSend release_send_room [OF assms(1,2) RelSend], of ops]
      assms(2)
    by fastforce
qed (use assms(3) in auto)

subsection \<open>The loop of Release\<close>

lemma complete_waiter_done [simp]: "wdone (store m ! w) \<Longrightarrow> complete_waiter w r m = (False, m)"
  by (simp add: complete_waiter_def)

text \<open>
  Run alone, the loop ends: it skips waiters that are already done and hands the slot to the first
  popped one that is not, or finds the list empty.
\<close>

lemma release_loop_ends:
  assumes "minv m"
  shows "\<exists>m' r. release_loop ops t m = Some (m', r) \<and>
    (case r of
       None \<Rightarrow> order m' = [] \<and> core m' = core m \<and> (\<forall>w \<in> set (order m). wdone (store m ! w))
     | Some w \<Rightarrow> w \<in> set (order m) \<and> \<not> wdone (store m ! w)
         \<and> wch (store m' ! w) = Some True \<and> wdone (store m' ! w))"
  using assms
proof (induction "length (order m)" arbitrary: m rule: less_induct)
  case less
  show ?case
  proof (cases "op_pop ops t m")
    case None
    then have "release_loop ops t m = Some (m, None)" by (subst release_loop.simps) simp
    moreover have "order m = []" using None pop_None less.prems by blast
    ultimately show ?thesis by auto
  next
    case (Some x)
    obtain w m1 where x: "x = (w, m1)" by (cases x)
    note pop = Some [unfolded x]
    note law = pop_Some [OF less.prems pop]
    note set = pop_set [OF less.prems pop]
    have w: "w < length (store m)" using minv_order [OF less.prems] set by auto
    have core: "core m1 = core m" using law by simp
    note nth = core_nth [OF core] and len = core_length [OF core]
    show ?thesis
    proof (cases "wdone (store m ! w)")
      case False
      then have "\<not> wdone (store m1 ! w)" using nth w len by simp
      then have "release_loop ops t m =
        Some (set_waiter w (\<lambda>x. x\<lparr>wch := Some True, wdone := True\<rparr>) m1, Some w)"
        using pop by (subst release_loop.simps) (simp add: complete_waiter_def)
      then show ?thesis using False set w len by simp
    next
      case True
      then have "release_loop ops t m = release_loop ops t m1"
        using pop nth w len by (subst release_loop.simps) simp
      moreover have "length (order m1) < length (order m)"
        using law by (metis lessI size_add_mset size_mset)
      moreover have "minv m1" using law by simp
      moreover have "wdone (store m1 ! v) = wdone (store m ! v)" if "v \<in> set (order m)" for v
        using nth(2) [of v] len minv_order [OF less.prems] that by auto
      ultimately show ?thesis
        using less.hyps [of m1] True set core by (fastforce split: option.splits)
    qed
  qed
qed

text \<open>The loop is a path of the step relation on which no other goroutine moves.\<close>

lemma release_loop_steps:
  assumes "release_loop ops (clock s) (mem s) = Some (m', Some w)" "minv (mem s)"
    and "i < length (procs s)" "procs s ! i = RelLock"
  shows "(q_step ops)\<^sup>*\<^sup>* s (s\<lparr>mem := m', procs := (procs s)[i := Served]\<rparr>)"
  using assms
proof (induction "length (order (mem s))" arbitrary: s rule: less_induct)
  case less
  obtain v m1 where pop: "op_pop ops (clock s) (mem s) = Some (v, m1)"
    using less.prems(1) by (subst (asm) release_loop.simps) (auto split: option.splits)
  obtain won m2 where c: "complete_waiter v True m1 = (won, m2)" by fastforce
  let ?s1 = "s\<lparr>mem := m1, procs := (procs s)[i := RelComplete v]\<rparr>"
  let ?s2 = "s\<lparr>mem := m2, procs := (procs s)[i := (if won then Served else RelLock)]\<rparr>"
  note law = pop_Some [OF less.prems(2) pop]
  have "q_step ops s ?s1" using less.prems(3,4) pop by (rule q_step.release_pop)
  moreover have "q_step ops ?s1 ?s2"
    using q_step.release_complete [of i ?s1 v won m2 ops] less.prems(3) c by simp
  ultimately have two: "(q_step ops)\<^sup>*\<^sup>* s ?s2" by (meson r_into_rtranclp rtranclp_trans)
  show ?case
  proof (cases won)
    case True
    then have "m' = m2"
      using less.prems(1) pop c by (subst (asm) release_loop.simps) simp
    with two True show ?thesis by simp
  next
    case False
    then have "m2 = m1" using c by (auto simp: complete_waiter_def split: if_splits)
    with False less.prems(4) have s2: "?s2 = s\<lparr>mem := m1\<rparr>"
      using list_update_id [of "procs s" i] by simp
    have "release_loop ops (clock s) m1 = Some (m', Some w)"
      using less.prems(1) pop c False \<open>m2 = m1\<close> by (subst (asm) release_loop.simps) simp
    moreover have "length (order m1) < length (order (mem s))"
      using law by (metis lessI size_add_mset size_mset)
    ultimately have "(q_step ops)\<^sup>*\<^sup>* (s\<lparr>mem := m1\<rparr>) (s\<lparr>mem := m', procs := (procs s)[i := Served]\<rparr>)"
      using less.hyps [of "s\<lparr>mem := m1\<rparr>"] less.prems law by simp
    with two s2 show ?thesis by (metis rtranclp_trans)
  qed
qed

end

end
