(* ===== verification/QueueSpec.thy ===== *)
theory QueueSpec
  imports WaitQueue
begin

text \<open>
  What the request queues promise, as a machine of its own: \<open>RequestQueue\<close> of
  \<open>internal/queue/queue.go\<close> is a pool of free slots and a list of clients, each of which asks for a
  slot, holds one, gives it up or is denied. No channel, waiter, timer or heap is left. The locale
  \<open>wait_queue\<close> implements it: every step of the detailed machine is a step of this one or leaves it
  unchanged, so both queues do.
\<close>

datatype client = Asking | Queued | Holds | Leaving | Denied | Gone

record spec_state =
  sp_free :: nat
  sp_clients :: "client list"

text \<open>
  The contract of \<open>Acquire\<close>: take a free slot, or queue and either be handed the slot of a leaving
  client or be denied. The contract of \<open>Release\<close>: hand the slot over or give it back.
\<close>

inductive spec_step :: "spec_state \<Rightarrow> spec_state \<Rightarrow> bool" where
  asks: "spec_step a (a\<lparr>sp_clients := sp_clients a @ [Asking]\<rparr>)"
| takes_free:
    "i < length (sp_clients a) \<Longrightarrow> sp_clients a ! i = Asking \<Longrightarrow> sp_free a = Suc f \<Longrightarrow>
     spec_step a (a\<lparr>sp_free := f, sp_clients := (sp_clients a)[i := Holds]\<rparr>)"
| queues:
    "i < length (sp_clients a) \<Longrightarrow> sp_clients a ! i = Asking \<Longrightarrow>
     spec_step a (a\<lparr>sp_clients := (sp_clients a)[i := Queued]\<rparr>)"
| denies:
    "i < length (sp_clients a) \<Longrightarrow> sp_clients a ! i = Queued \<Longrightarrow>
     spec_step a (a\<lparr>sp_clients := (sp_clients a)[i := Denied]\<rparr>)"
| leaves:
    "i < length (sp_clients a) \<Longrightarrow> sp_clients a ! i = Holds \<Longrightarrow>
     spec_step a (a\<lparr>sp_clients := (sp_clients a)[i := Leaving]\<rparr>)"
| hands_over:
    "i < length (sp_clients a) \<Longrightarrow> sp_clients a ! i = Leaving \<Longrightarrow>
     j < length (sp_clients a) \<Longrightarrow> sp_clients a ! j = Queued \<Longrightarrow>
     spec_step a (a\<lparr>sp_clients := (sp_clients a)[i := Gone, j := Holds]\<rparr>)"
| gives_back:
    "i < length (sp_clients a) \<Longrightarrow> sp_clients a ! i = Leaving \<Longrightarrow>
     spec_step a (a\<lparr>sp_free := Suc (sp_free a), sp_clients := (sp_clients a)[i := Gone]\<rparr>)"

definition spec_init :: "nat \<Rightarrow> spec_state" where
  "spec_init n = \<lparr>sp_free = n, sp_clients = []\<rparr>"

definition spec_reachable :: "nat \<Rightarrow> spec_state \<Rightarrow> bool" where
  "spec_reachable n a \<longleftrightarrow> spec_step\<^sup>*\<^sup>* (spec_init n) a"

subsection \<open>The abstraction\<close>

text \<open>
  A goroutine that waits is queued until its result is in the channel; from then on it holds the
  slot, or is denied, whether it has picked the result up or not.
\<close>

fun client_of :: "'a simple_waiter_scheme list \<Rightarrow> proc \<Rightarrow> client" where
  "client_of ws (AcqWait w) =
     (case wch (ws ! w) of None \<Rightarrow> Queued | Some r \<Rightarrow> if r then Holds else Denied)"
| "client_of ws Holding = Holds"
| "client_of ws RelLock = Leaving"
| "client_of ws (RelComplete w) = Leaving"
| "client_of ws RelSend = Leaving"
| "client_of ws Refused = Denied"
| "client_of ws Served = Gone"
| "client_of ws p = Asking"

definition abs_queue :: "'a simple_waiter_scheme qstate \<Rightarrow> spec_state" where
  "abs_queue s = \<lparr>sp_free = sem s, sp_clients = map (client_of (store (mem s))) (procs s)\<rparr>"

lemma client_of_cong:
  assumes "\<And>w. p = AcqWait w \<Longrightarrow> wch (ws ! w) = wch (vs ! w)"
  shows "client_of ws p = client_of vs p"
  using assms by (cases p) simp_all

lemma map_client_of_cong:
  assumes "\<And>w. AcqWait w \<in> set ps \<Longrightarrow> wch (ws ! w) = wch (vs ! w)"
  shows "map (client_of ws) ps = map (client_of vs) ps"
  using assms client_of_cong by (metis (no_types, lifting) map_cong)

text \<open>Slots and clients of the specification add up, by induction over its seven steps only.\<close>

definition slot_of :: "client \<Rightarrow> nat" where
  "slot_of c = (if c = Holds \<or> c = Leaving then 1 else 0)"

lemma slot_of_update:
  "i < length cs \<Longrightarrow>
     sum_list (map slot_of (cs[i := c])) + slot_of (cs ! i) = sum_list (map slot_of cs) + slot_of c"
  by (rule sum_list_map_update)

lemma spec_slots_step:
  assumes "spec_step a b"
  shows "sp_free b + sum_list (map slot_of (sp_clients b)) = sp_free a + sum_list (map slot_of (sp_clients a))"
  using assms
proof cases
  case (takes_free i f)
  then show ?thesis using slot_of_update [of i "sp_clients a" Holds] by (simp add: slot_of_def)
next
  case (queues i)
  then show ?thesis using slot_of_update [of i "sp_clients a" Queued] by (simp add: slot_of_def)
next
  case (denies i)
  then show ?thesis using slot_of_update [of i "sp_clients a" Denied] by (simp add: slot_of_def)
next
  case (leaves i)
  then show ?thesis using slot_of_update [of i "sp_clients a" Leaving] by (simp add: slot_of_def)
next
  case (gives_back i)
  then show ?thesis using slot_of_update [of i "sp_clients a" Gone] by (simp add: slot_of_def)
next
  case (hands_over i j)
  then have "i \<noteq> j" by auto
  then show ?thesis
    using hands_over slot_of_update [of i "sp_clients a" Gone]
      slot_of_update [of j "(sp_clients a)[i := Gone]" Holds]
    by (simp add: slot_of_def)
qed (simp add: slot_of_def)

lemma spec_slots:
  assumes "spec_reachable n a"
  shows "sp_free a + sum_list (map slot_of (sp_clients a)) = n"
  using assms unfolding spec_reachable_def
  by (induction rule: rtranclp_induct) (simp_all add: spec_init_def spec_slots_step)

lemma spec_slots_count:
  assumes "spec_reachable n a"
  shows "sp_free a + length (filter (\<lambda>c. c = Holds \<or> c = Leaving) (sp_clients a)) = n"
proof -
  have "sum_list (map slot_of cs) = length (filter (\<lambda>c. c = Holds \<or> c = Leaving) cs)" for cs
    by (induction cs) (simp_all add: slot_of_def)
  then show ?thesis using spec_slots [OF assms] by simp
qed

subsection \<open>The simulation\<close>

lemma map_update_same:
  "i < length ps \<Longrightarrow> f p = f (ps ! i) \<Longrightarrow> (map f ps)[i := f p] = map f ps"
  by (metis list_update_id map_update nth_map)

lemma abs_clients_nth [simp]:
  "length (sp_clients (abs_queue s)) = length (procs s)"
  "i < length (procs s) \<Longrightarrow> sp_clients (abs_queue s) ! i = client_of (store (mem s)) (procs s ! i)"
  by (simp_all add: abs_queue_def)

context wait_queue
begin

text \<open>As long as nobody has completed a queued waiter, the goroutine that made it waits on it.\<close>

definition waited_inv :: "'a simple_waiter_scheme qstate \<Rightarrow> bool" where
  "waited_inv s \<longleftrightarrow>
     (\<forall>w < length (store (mem s)). timers s ! w \<noteq> TIdle \<longrightarrow> \<not> wdone (store (mem s) ! w) \<longrightarrow>
        AcqWait w \<in> set (procs s))"

lemma waited_inv_move:
  assumes "waited_inv s" "i < length (procs s)" "\<And>w. procs s ! i \<noteq> AcqWait w"
  shows "waited_inv (s\<lparr>procs := (procs s)[i := p]\<rparr>)"
  using assms in_set_update_keep [of _ "procs s" i p] unfolding waited_inv_def by simp metis

lemma waited_inv_mem:
  assumes "waited_inv s" "core m = core (mem s)"
  shows "waited_inv (s\<lparr>mem := m\<rparr>)"
  using assms core_nth(2) [OF assms(2)] core_length [OF assms(2)] by (simp add: waited_inv_def)

lemma waited_inv_step:
  assumes "q_step ops s t" "slots_inv s" "owner_inv s" "result_inv s" "waited_inv s"
  shows "waited_inv t"
  using assms(1)
proof (cases rule: q_step.cases)
  case (arrive c p)
  then show ?thesis using assms(5) by (simp add: waited_inv_def)
next
  case (tick t')
  then show ?thesis using assms(5) by (simp add: waited_inv_def)
next
  case (try_take i c p)
  then show ?thesis using waited_inv_move [OF assms(5), of i Holding] by (simp add: waited_inv_def)
next
  case (try_default i c p)
  then show ?thesis using waited_inv_move [OF assms(5)] by simp
next
  case (alloc i c p)
  have "length (timers s) = length (store (mem s))" using assms(2) by (simp add: slots_inv_def)
  then show ?thesis
    using waited_inv_move [OF assms(5), of i "AcqPush (length (store (mem s)))"] alloc
    by (auto simp: waited_inv_def nth_append less_Suc_eq)
next
  case (push i w)
  have w: "w < length (store (mem s))" "w \<notin> set (order (mem s))" "minv (mem s)"
    and tm: "length (timers s) = length (store (mem s))"
    using assms(2,3) push by (auto simp: owner_inv_def slots_inv_def)
  have core: "core (op_push ops (clock s) w (mem s)) = core (mem s)" using push_law w by blast
  have "AcqWait w \<in> set ((procs s)[i := AcqWait w])" using push by (simp add: set_update_memI)
  then have "waited_inv (s\<lparr>timers := (timers s)[w := TArmed], procs := (procs s)[i := AcqWait w]\<rparr>)"
    using waited_inv_move [OF assms(5), of i "AcqWait w"] push tm w(1)
    by (simp add: waited_inv_def nth_list_update)
  from waited_inv_mem [OF this, of "op_push ops (clock s) w (mem s)"] show ?thesis
    using push(1) core by (simp add: waited_inv_def)
next
  case (receive i w r)
  have w: "w < length (store (mem s))"
    using assms(2,3) receive by (auto simp: owner_inv_def slots_inv_def)
  then have "wdone (store (mem s) ! w)" using assms(4) receive by (auto simp: result_inv_def)
  then show ?thesis
    using assms(5) receive w in_set_update_keep [of _ "procs s" i "if r then Holding else Refused"]
    unfolding waited_inv_def by simp (metis proc.inject(4))
next
  case (finish i)
  then show ?thesis using waited_inv_move [OF assms(5)] by simp
next
  case (release_empty i)
  then show ?thesis using waited_inv_move [OF assms(5)] by simp
next
  case (release_pop i w m)
  then have "core m = core (mem s)" using pop_Some assms(2) by (auto simp: slots_inv_def)
  then show ?thesis
    using waited_inv_mem [of "s\<lparr>procs := (procs s)[i := RelComplete w]\<rparr>" m]
      waited_inv_move [OF assms(5), of i "RelComplete w"] release_pop
    by (simp add: waited_inv_def)
next
  case (release_complete i w won m)
  then have "waited_inv (s\<lparr>procs := (procs s)[i := if won then Served else RelLock]\<rparr>)"
    using waited_inv_move [OF assms(5)] by simp
  then show ?thesis
    using release_complete assms(2,3)
    by (auto simp: waited_inv_def complete_waiter_def owner_inv_def slots_inv_def split: if_splits)
next
  case (release_send i)
  then show ?thesis using waited_inv_move [OF assms(5), of i Served] by (simp add: waited_inv_def)
next
  case (expire w won m)
  then show ?thesis
    using assms(2,5)
    by (auto simp: waited_inv_def slots_inv_def complete_waiter_def nth_list_update split: if_splits)
next
  case (expire_remove w)
  have w: "w < length (store (mem s))" and m: "minv (mem s)"
    using assms(2) expire_remove by (auto simp: slots_inv_def)
  have "waited_inv (s\<lparr>timers := (timers s)[w := TDone]\<rparr>)"
    using assms(5) expire_remove by (auto simp: waited_inv_def nth_list_update)
  from waited_inv_mem [OF this, of "op_remove ops (clock s) w (mem s)"] show ?thesis
    using expire_remove(1) remove_law [OF m w] by (simp add: waited_inv_def)
qed

lemma reachable_waited:
  assumes "q_reachable ops n s"
  shows "waited_inv s"
  using assms
proof (induction rule: q_reachable.induct)
  case q_init
  then show ?case by (simp add: waited_inv_def init_queue_def)
next
  case (q_next s t)
  then show ?case using waited_inv_step reachable_inv by blast
qed

text \<open>
  The simulation. The step that completes a waiter with true is the hand-over, the one of the timer
  that completes it with false the denial; the detailed machine does not look whether a slot is
  free when it queues a waiter, so \<open>queues\<close> has no such guard either.
\<close>

lemma simulates_complete:
  assumes "slots_inv s" "result_inv s" "waited_inv s" "w < length (store (mem s))"
    and "timers s ! w \<noteq> TIdle" "\<not> wdone (store (mem s) ! w)"
  obtains j where "j < length (procs s)" "procs s ! j = AcqWait w" "wch (store (mem s) ! w) = None"
proof -
  have "AcqWait w \<in> set (procs s)" "wch (store (mem s) ! w) = None"
    using assms unfolding waited_inv_def result_inv_def by blast+
  then show thesis using that by (auto simp: in_set_conv_nth)
qed

lemma abs_set_waiter:
  assumes "owner_inv s" "slots_inv s" "j < length (procs s)" "procs s ! j = AcqWait w"
    and "m = set_waiter w (\<lambda>x. x\<lparr>wch := Some r, wdone := True\<rparr>) (mem s)"
  shows "map (client_of (store m)) (procs s) =
    (map (client_of (store (mem s))) (procs s))[j := if r then Holds else Denied]"
proof (rule nth_equalityI)
  fix k assume "k < length (map (client_of (store m)) (procs s))"
  then have k: "k < length (procs s)" by simp
  have w: "w < length (store (mem s))"
    using owner_bounds(2) [OF assms(1,2)] assms(3,4) by (metis nth_mem)
  show "map (client_of (store m)) (procs s) ! k =
    (map (client_of (store (mem s))) (procs s))[j := if r then Holds else Denied] ! k"
  proof (cases "k = j")
    case True
    then show ?thesis using assms(3-5) w by simp
  next
    case False
    have "client_of (store m) (procs s ! k) = client_of (store (mem s)) (procs s ! k)"
    proof (rule client_of_cong)
      fix v assume v: "procs s ! k = AcqWait v"
      then have "v \<noteq> w" using assms(1,3,4) k False unfolding owner_inv_def by blast
      moreover have "v < length (store (mem s))"
        using owner_bounds(2) [OF assms(1,2)] v k by (metis nth_mem)
      ultimately show "wch (store m ! v) = wch (store (mem s) ! v)" using assms(5) by simp
    qed
    then show ?thesis using k False by simp
  qed
qed simp

text \<open>A step that moves one goroutine and leaves all channels as they are.\<close>

lemma abs_move:
  assumes "owner_inv s" "slots_inv s" "core m = core (mem s)"
    and "\<And>w. p = AcqWait w \<Longrightarrow> w < length (store (mem s))"
  shows "map (client_of (store m)) ((procs s)[i := p]) =
    (map (client_of (store (mem s))) (procs s))[i := client_of (store (mem s)) p]"
proof -
  have "wch (store m ! w) = wch (store (mem s) ! w)" if "AcqWait w \<in> set ((procs s)[i := p])" for w
  proof -
    have "AcqWait w = p \<or> AcqWait w \<in> set (procs s)" using that in_set_update_cases by fastforce
    then have "w < length (store (mem s))" using assms(4) owner_bounds(2) [OF assms(1,2)] by auto
    then show ?thesis using core_nth(1) [OF assms(3) [symmetric]] by simp
  qed
  then have "map (client_of (store m)) ((procs s)[i := p]) = map (client_of (store (mem s))) ((procs s)[i := p])"
    by (rule map_client_of_cong)
  then show ?thesis by (simp add: map_update)
qed

lemma abs_stutter:
  assumes "owner_inv s" "slots_inv s" "core m = core (mem s)" "i < length (procs s)"
    and "client_of (store (mem s)) p = client_of (store (mem s)) (procs s ! i)" "\<And>w. p \<noteq> AcqWait w"
  shows "map (client_of (store m)) ((procs s)[i := p]) = map (client_of (store (mem s))) (procs s)"
  using abs_move [OF assms(1-3), of p i] map_update_same [OF assms(4,5)] assms(6) by simp

lemma simulates:
  assumes "q_step ops s t" "slots_inv s" "owner_inv s" "result_inv s" "waited_inv s"
  shows "abs_queue t = abs_queue s \<or> spec_step (abs_queue s) (abs_queue t)"
  using assms(1)
proof (cases rule: q_step.cases)
  case (arrive c p)
  then show ?thesis using spec_step.asks [of "abs_queue s"] by (simp add: abs_queue_def)
next
  case (tick t')
  then show ?thesis by (simp add: abs_queue_def)
next
  case (try_take i c p)
  then obtain f where "sem s = Suc f" by (cases "sem s") auto
  then show ?thesis
    using try_take spec_step.takes_free [of i "abs_queue s" f] by (simp add: abs_queue_def map_update)
next
  case (try_default i c p)
  then have "map (client_of (store (mem s))) ((procs s)[i := AcqNew c p]) = map (client_of (store (mem s))) (procs s)"
    by (intro abs_stutter [OF assms(3,2)]) auto
  then show ?thesis using try_default(1) by (simp add: abs_queue_def)
next
  case (alloc i c p)
  let ?ws = "store (mem s) @ [new_waiter ops c p (clock s)]"
  let ?p = "AcqPush (length (store (mem s)))"
  have "map (client_of ?ws) ((procs s)[i := ?p]) = map (client_of (store (mem s))) ((procs s)[i := ?p])"
  proof (rule map_client_of_cong)
    fix w assume "AcqWait w \<in> set ((procs s)[i := ?p])"
    then have "AcqWait w \<in> set (procs s)" using in_set_update_cases by fastforce
    then show "wch (?ws ! w) = wch (store (mem s) ! w)"
      using owner_bounds(2) [OF assms(3,2)] by (simp add: nth_append)
  qed
  also have "\<dots> = map (client_of (store (mem s))) (procs s)"
    using alloc by (intro abs_stutter [OF assms(3,2)]) auto
  finally show ?thesis using alloc(1) by (simp add: abs_queue_def)
next
  case (push i w)
  have w: "w < length (store (mem s))" "w \<notin> set (order (mem s))" "minv (mem s)" "timers s ! w = TIdle"
    using assms(2,3) push by (auto simp: owner_inv_def slots_inv_def)
  have "core (op_push ops (clock s) w (mem s)) = core (mem s)" using push_law w by blast
  from abs_move [OF assms(3,2) this, of "AcqWait w" i] w(1)
  have "map (client_of (store (op_push ops (clock s) w (mem s)))) ((procs s)[i := AcqWait w])
    = (map (client_of (store (mem s))) (procs s))[i := client_of (store (mem s)) (AcqWait w)]" by simp
  moreover have "wch (store (mem s) ! w) = None" using assms(4) w by (simp add: result_inv_def)
  ultimately show ?thesis
    using push spec_step.queues [of i "abs_queue s"] by (simp add: abs_queue_def)
next
  case (receive i w r)
  let ?m = "set_waiter w (\<lambda>x. x\<lparr>wch := None\<rparr>) (mem s)"
  let ?p = "if r then Holding else Refused"
  have w: "w < length (store (mem s))"
    using assms(2,3) receive by (auto simp: owner_inv_def slots_inv_def)
  have gone: "AcqWait w \<notin> set ((procs s)[i := ?p])"
    using owner_unique [OF assms(3), of i w ?p] receive by auto
  have "map (client_of (store ?m)) ((procs s)[i := ?p]) = map (client_of (store (mem s))) ((procs s)[i := ?p])"
  proof (rule map_client_of_cong)
    fix v assume v: "AcqWait v \<in> set ((procs s)[i := ?p])"
    then have "AcqWait v \<in> set (procs s)" using in_set_update_cases by (fastforce split: if_splits)
    then have "v < length (store (mem s))" using owner_bounds(2) [OF assms(3,2)] by simp
    moreover have "v \<noteq> w" using v gone by blast
    ultimately show "wch (store ?m ! v) = wch (store (mem s) ! v)" by simp
  qed
  also have "\<dots> = map (client_of (store (mem s))) (procs s)"
    using receive by (intro abs_stutter [OF assms(3,2)]) auto
  finally show ?thesis using receive(1) by (simp add: abs_queue_def)
next
  case (finish i)
  then show ?thesis using spec_step.leaves [of i "abs_queue s"] by (simp add: abs_queue_def map_update)
next
  case (release_empty i)
  then have "map (client_of (store (mem s))) ((procs s)[i := RelSend]) = map (client_of (store (mem s))) (procs s)"
    by (intro abs_stutter [OF assms(3,2)]) auto
  then show ?thesis using release_empty(1) by (simp add: abs_queue_def)
next
  case (release_pop i w m)
  have "core m = core (mem s)" using pop_Some assms(2) release_pop(4) by (auto simp: slots_inv_def)
  then have "map (client_of (store m)) ((procs s)[i := RelComplete w]) = map (client_of (store (mem s))) (procs s)"
    using release_pop by (intro abs_stutter [OF assms(3,2)]) auto
  then show ?thesis using release_pop(1) by (simp add: abs_queue_def)
next
  case (release_complete i w won m)
  note bounds = owner_bounds(3) [OF assms(3,2), of w]
  have w: "w < length (store (mem s))" "timers s ! w \<noteq> TIdle"
    using bounds release_complete by (metis nth_mem)+
  show ?thesis
  proof (cases "wdone (store (mem s) ! w)")
    case True
    then have "won = False" "m = mem s" using release_complete by (auto simp: complete_waiter_def)
    moreover have "map (client_of (store (mem s))) ((procs s)[i := RelLock]) = map (client_of (store (mem s))) (procs s)"
      using release_complete by (intro abs_stutter [OF assms(3,2)]) auto
    ultimately show ?thesis using release_complete(1) by (simp add: abs_queue_def)
  next
    case False
    then have m: "won" "m = set_waiter w (\<lambda>x. x\<lparr>wch := Some True, wdone := True\<rparr>) (mem s)"
      using release_complete by (auto simp: complete_waiter_def)
    obtain j where j: "j < length (procs s)" "procs s ! j = AcqWait w" "wch (store (mem s) ! w) = None"
      using simulates_complete [OF assms(2,4,5) w False] by blast
    have "i \<noteq> j" using j release_complete by auto
    have "map (client_of (store m)) ((procs s)[i := Served]) =
        (map (client_of (store (mem s))) (procs s))[i := Gone, j := Holds]"
      using abs_set_waiter [OF assms(3,2) j(1,2) m(2)] \<open>i \<noteq> j\<close>
      by (simp add: map_update list_update_swap)
    then show ?thesis
      using release_complete m j spec_step.hands_over [of i "abs_queue s" j]
      by (simp add: abs_queue_def)
  qed
next
  case (release_send i)
  then show ?thesis
    using spec_step.gives_back [of i "abs_queue s"] by (simp add: abs_queue_def map_update)
next
  case (expire w won m)
  have w: "w < length (store (mem s))" using assms(2) expire by (simp add: slots_inv_def)
  show ?thesis
  proof (cases "wdone (store (mem s) ! w)")
    case True
    then show ?thesis using expire by (simp add: abs_queue_def complete_waiter_def)
  next
    case False
    then have m: "won" "m = set_waiter w (\<lambda>x. x\<lparr>wch := Some False, wdone := True\<rparr>) (mem s)"
      using expire by (auto simp: complete_waiter_def)
    obtain j where j: "j < length (procs s)" "procs s ! j = AcqWait w" "wch (store (mem s) ! w) = None"
      using simulates_complete [OF assms(2,4,5) w _ False] expire by auto
    from abs_set_waiter [OF assms(3,2) j(1,2) m(2)] show ?thesis
      using expire m j spec_step.denies [of j "abs_queue s"] by (simp add: abs_queue_def)
  qed
next
  case (expire_remove w)
  have w: "w < length (store (mem s))" and m: "minv (mem s)"
    using assms(2) expire_remove by (auto simp: slots_inv_def)
  have "core (op_remove ops (clock s) w (mem s)) = core (mem s)" using remove_law m w by blast
  from core_nth(1) [OF this] core_length [OF this] owner_bounds(2) [OF assms(3,2)]
  have "map (client_of (store (op_remove ops (clock s) w (mem s)))) (procs s)
      = map (client_of (store (mem s))) (procs s)"
    by (intro map_client_of_cong) simp
  then show ?thesis using expire_remove(1) by (simp add: abs_queue_def)
qed

lemma refines_spec:
  assumes "q_reachable ops n s"
  shows "spec_reachable n (abs_queue s)"
  using assms
proof (induction rule: q_reachable.induct)
  case q_init
  then show ?case by (simp add: spec_reachable_def abs_queue_def init_queue_def spec_init_def)
next
  case (q_next s t)
  then have "abs_queue t = abs_queue s \<or> spec_step (abs_queue s) (abs_queue t)"
    using simulates reachable_inv reachable_waited by blast
  then show ?case using q_next.IH unfolding spec_reachable_def by (metis rtranclp.rtrancl_into_rtrancl)
qed

lemma step_refines_spec:
  assumes "q_reachable ops n s" "q_step ops s t"
  shows "abs_queue t = abs_queue s \<or> spec_step (abs_queue s) (abs_queue t)"
  using simulates reachable_inv reachable_waited assms by blast

end

end
