(* ===== verification/ContainerHeap.thy ===== *)
theory ContainerHeap
  imports Prelude
begin

text \<open>
  Go's \<open>container/heap\<close>, which the HRN queue keeps its waiters in: the functions \<open>Push\<close>,
  \<open>Pop\<close> and \<open>Remove\<close> and their helpers \<open>up\<close> and \<open>down\<close>, over the operations of
  \<open>heap.Interface\<close> that the container supplies. The locale \<open>heap_contract\<close> states what the
  container promises (\<open>Swap\<close> exchanges two elements, \<open>Less\<close> compares their keys, \<open>Push\<close> and
  \<open>Pop\<close> work at the end); inside it the algorithms are proved: they keep the heap order, lose and
  duplicate nothing, and \<open>Pop\<close> returns an element with the greatest key.
\<close>

subsection \<open>The algorithms\<close>

record ('m, 'x) heap_interface =
  hLen :: "'m \<Rightarrow> nat"
  hLess :: "nat \<Rightarrow> nat \<Rightarrow> 'm \<Rightarrow> bool"
  hSwap :: "nat \<Rightarrow> nat \<Rightarrow> 'm \<Rightarrow> 'm"
  hPush :: "'x \<Rightarrow> 'm \<Rightarrow> 'm"
  hPop :: "'m \<Rightarrow> 'x \<times> 'm"

text \<open>
  The index of the parent, \<open>(j - 1) / 2\<close>; for \<open>j = 0\<close> Go's division truncates \<open>-1 / 2\<close> to
  \<open>0\<close>, which the subtraction on \<open>nat\<close> gives as well.
\<close>

definition parent :: "nat \<Rightarrow> nat" where
  "parent j = (j - 1) div 2"

lemma parent_less: "j \<noteq> 0 \<Longrightarrow> parent j < j"
  by (simp add: parent_def)

function heap_up :: "('m, 'x) heap_interface \<Rightarrow> nat \<Rightarrow> 'm \<Rightarrow> 'm" where
  "heap_up h j m =
     (let i = parent j in
      if i = j \<or> \<not> hLess h j i m then m else heap_up h i (hSwap h i j m))"
  by pat_completeness auto
termination
  by (relation "measure (\<lambda>(h, j, m). j)") (auto simp: parent_def)

text \<open>\<open>down\<close> also returns the position it ended at; Go returns whether that is past the start.\<close>

function heap_down :: "('m, 'x) heap_interface \<Rightarrow> nat \<Rightarrow> nat \<Rightarrow> 'm \<Rightarrow> 'm \<times> nat" where
  "heap_down h i n m =
     (let j1 = 2 * i + 1 in
      if n \<le> j1 then (m, i)
      else let j = (if j1 + 1 < n \<and> hLess h (j1 + 1) j1 m then j1 + 1 else j1) in
        if \<not> hLess h j i m then (m, i) else heap_down h j n (hSwap h i j m))"
  by pat_completeness auto
termination
  by (relation "measure (\<lambda>(h, i, n, m). n - i)") auto

declare heap_up.simps [simp del] heap_down.simps [simp del]

lemma heap_down_stop: "n \<le> 2 * i + 1 \<Longrightarrow> heap_down h i n m = (m, i)"
  by (subst heap_down.simps) (simp add: Let_def)

definition heap_Push :: "('m, 'x) heap_interface \<Rightarrow> 'x \<Rightarrow> 'm \<Rightarrow> 'm" where
  "heap_Push h x m = (let m1 = hPush h x m in heap_up h (hLen h m1 - 1) m1)"

definition heap_Pop :: "('m, 'x) heap_interface \<Rightarrow> 'm \<Rightarrow> 'x \<times> 'm" where
  "heap_Pop h m =
     (let n = hLen h m - 1; m1 = hSwap h 0 n m; m2 = fst (heap_down h 0 n m1) in hPop h m2)"

definition heap_Remove :: "('m, 'x) heap_interface \<Rightarrow> nat \<Rightarrow> 'm \<Rightarrow> 'x \<times> 'm" where
  "heap_Remove h i m =
     (let n = hLen h m - 1 in
      if n \<noteq> i then
        (let (m1, k) = heap_down h i n (hSwap h i n m) in
         hPop h (if i < k then m1 else heap_up h i m1))
      else hPop h m)"

subsection \<open>Heap order on positions\<close>

text \<open>
  \<open>heap_upto n k\<close>: the keys at positions below \<open>n\<close> are in max-heap order. \<open>heap_but_up\<close> allows the
  key at \<open>j\<close> to be too big for its parent, \<open>heap_but_down\<close> says nothing of position \<open>i\<close> except
  that its children fit under its parent.
\<close>

definition heap_upto :: "nat \<Rightarrow> (nat \<Rightarrow> 'k::linorder) \<Rightarrow> bool" where
  "heap_upto n k \<longleftrightarrow> (\<forall>c < n. 0 < c \<longrightarrow> k c \<le> k (parent c))"

definition heap_but_up :: "nat \<Rightarrow> nat \<Rightarrow> (nat \<Rightarrow> 'k::linorder) \<Rightarrow> bool" where
  "heap_but_up n j k \<longleftrightarrow>
     (\<forall>c < n. 0 < c \<longrightarrow> c \<noteq> j \<longrightarrow> k c \<le> k (parent c))
     \<and> (\<forall>c < n. 0 < c \<longrightarrow> parent c = j \<longrightarrow> 0 < j \<longrightarrow> k c \<le> k (parent j))"

definition heap_but_down :: "nat \<Rightarrow> nat \<Rightarrow> (nat \<Rightarrow> 'k::linorder) \<Rightarrow> bool" where
  "heap_but_down n i k \<longleftrightarrow>
     (\<forall>c < n. 0 < c \<longrightarrow> c \<noteq> i \<longrightarrow> parent c \<noteq> i \<longrightarrow> k c \<le> k (parent c))
     \<and> (\<forall>c < n. 0 < c \<longrightarrow> parent c = i \<longrightarrow> 0 < i \<longrightarrow> k c \<le> k (parent i))"

lemma parent_eq_iff: "0 < c \<Longrightarrow> parent c = i \<longleftrightarrow> c = 2 * i + 1 \<or> c = 2 * i + 2"
  unfolding parent_def by presburger

lemma parent_children [simp]:
  "parent (2 * i + 1) = i" "parent (Suc (2 * i)) = i" "parent (2 * i + 2) = i"
  "parent (Suc (Suc (2 * i))) = i"
  by (simp_all add: parent_def)

lemma parent_0 [simp]: "parent 0 = 0"
  by (simp add: parent_def)

lemma heap_upto_root:
  assumes "heap_upto n k" "c < n"
  shows "k c \<le> k 0"
  using assms(2)
proof (induction c rule: less_induct)
  case (less c)
  show ?case
  proof (cases "c = 0")
    case True
    then show ?thesis by simp
  next
    case False
    then have "parent c < c" by (rule parent_less)
    moreover from False less.prems assms(1) have "k c \<le> k (parent c)"
      by (simp add: heap_upto_def)
    ultimately show ?thesis using less by (meson le_less_trans less_imp_le order_trans)
  qed
qed

lemma heap_but_up_done:
  "heap_but_up n j k \<Longrightarrow> j = 0 \<or> k j \<le> k (parent j) \<Longrightarrow> heap_upto n k"
  unfolding heap_but_up_def heap_upto_def by blast

lemma heap_but_up_step:
  assumes "heap_but_up n j k" "0 < j" "j < n" "k (parent j) < k j"
  shows "heap_but_up n (parent j) (k(parent j := k j, j := k (parent j)))"
  unfolding heap_but_up_def
proof (intro conjI allI impI)
  let ?i = "parent j" and ?k = "k(parent j := k j, j := k (parent j))"
  have ij: "?i < j" using assms(2) by (simp add: parent_less)
  fix c assume c: "c < n" "0 < c"
  show "?k c \<le> ?k (parent c)" if "c \<noteq> ?i"
  proof (cases "c = j")
    case True
    then show ?thesis using assms(4) ij by simp
  next
    case False
    then have kc: "k c \<le> k (parent c)" using assms(1) c by (simp add: heap_but_up_def)
    consider "parent c = j" | "parent c = ?i" | "parent c \<noteq> j" "parent c \<noteq> ?i" by blast
    then show ?thesis
    proof cases
      case 1
      then show ?thesis using assms(1,2) c False that by (simp add: heap_but_up_def)
    next
      case 2
      with kc assms(4) have "k c \<le> k j" by (simp add: less_imp_le order_trans)
      then show ?thesis using 2 False that ij by simp
    next
      case 3
      then show ?thesis using kc False that by simp
    qed
  qed
  show "?k c \<le> ?k (parent ?i)" if "parent c = ?i" "0 < ?i"
  proof -
    have pi: "parent ?i < ?i" using that by (simp add: parent_less)
    have ki: "k ?i \<le> k (parent ?i)"
      using assms(1,2,3) ij that by (simp add: heap_but_up_def)
    show ?thesis
    proof (cases "c = j")
      case True
      then show ?thesis using ki pi ij by simp
    next
      case False
      moreover have "c \<noteq> ?i" using that pi c parent_less [of c] by force
      moreover have "k c \<le> k (parent c)" using assms(1) c False by (simp add: heap_but_up_def)
      then have "k c \<le> k ?i" using that by simp
      ultimately show ?thesis using ki pi ij by simp
    qed
  qed
qed

lemma heap_but_down_stop:
  assumes "heap_but_down n i k" "\<And>c. c < n \<Longrightarrow> 0 < c \<Longrightarrow> parent c = i \<Longrightarrow> k c \<le> k i"
  shows "heap_but_up n i k"
  using assms unfolding heap_but_down_def heap_but_up_def by metis

text \<open>
  Moving the bigger child up leaves a hole at the child's place, below a parent that is big
  enough.
\<close>

lemma heap_but_down_step:
  assumes d: "heap_but_down n i k" and j: "j < n" "0 < j" "parent j = i" "k i < k j"
    and big: "\<And>c. c < n \<Longrightarrow> 0 < c \<Longrightarrow> parent c = i \<Longrightarrow> k c \<le> k j"
  shows "heap_but_down n j (k(i := k j, j := k i))"
    and "(k(i := k j, j := k i)) j \<le> (k(i := k j, j := k i)) (parent j)"
proof -
  let ?k = "k(i := k j, j := k i)"
  have ij: "i < j" using j parent_less [of j] by simp
  show "?k j \<le> ?k (parent j)" using j ij by simp
  show "heap_but_down n j ?k"
    unfolding heap_but_down_def
  proof (intro conjI allI impI)
    fix c assume c: "c < n" "0 < c"
    show "?k c \<le> ?k (parent c)" if "c \<noteq> j" "parent c \<noteq> j"
    proof -
      consider "c = i" | "parent c = i" "c \<noteq> i" | "parent c \<noteq> i" "c \<noteq> i" by blast
      then show ?thesis
      proof cases
        case 1
        then have "k j \<le> k (parent i)" using d c j by (simp add: heap_but_down_def)
        moreover have "parent i < i" using 1 c parent_less by simp
        ultimately show ?thesis using 1 ij by simp
      next
        case 2
        then show ?thesis using big c that ij by simp
      next
        case 3
        then show ?thesis using d c that by (simp add: heap_but_down_def)
      qed
    qed
    show "?k c \<le> ?k (parent j)" if "parent c = j" "0 < j"
    proof -
      have "j < c" using c parent_less [of c] that by simp
      moreover have "c \<noteq> i" "parent c \<noteq> i" using ij \<open>j < c\<close> that by auto
      then have "k c \<le> k j" using d c that(1) unfolding heap_but_down_def by metis
      ultimately show ?thesis using j ij by simp
    qed
  qed
qed

lemma heap_but_down_finish:
  assumes "heap_but_down n i k" "i = 0 \<or> k i \<le> k (parent i)"
    and "\<And>c. c < n \<Longrightarrow> 0 < c \<Longrightarrow> parent c = i \<Longrightarrow> k c \<le> k i"
  shows "heap_upto n k"
  using heap_but_up_done [OF heap_but_down_stop] assms by blast

subsection \<open>The contract of a container\<close>

lemma heap_upto_cong: "(\<And>c. c < n \<Longrightarrow> k c = l c) \<Longrightarrow> heap_upto n k = heap_upto n l"
  unfolding heap_upto_def by (metis less_trans parent_less neq0_conv)

lemma heap_upto_mono: "heap_upto n k \<Longrightarrow> m \<le> n \<Longrightarrow> heap_upto m k"
  by (simp add: heap_upto_def)

definition swap_list :: "nat \<Rightarrow> nat \<Rightarrow> 'a list \<Rightarrow> 'a list" where
  "swap_list i j xs = xs[i := xs ! j, j := xs ! i]"

definition keys_at :: "('a \<times> 'k) list \<Rightarrow> nat \<Rightarrow> 'k" where
  "keys_at xs p = snd (xs ! p)"

lemma length_swap_list [simp]: "length (swap_list i j xs) = length xs"
  by (simp add: swap_list_def)

lemma mset_swap_list [simp]:
  "i < length xs \<Longrightarrow> j < length xs \<Longrightarrow> mset (swap_list i j xs) = mset xs"
  by (simp add: swap_list_def mset_swap)

lemma nth_swap_list:
  "i < length xs \<Longrightarrow> j < length xs \<Longrightarrow> p \<noteq> i \<Longrightarrow> p \<noteq> j \<Longrightarrow> swap_list i j xs ! p = xs ! p"
  "i < length xs \<Longrightarrow> j < length xs \<Longrightarrow> swap_list i j xs ! j = xs ! i"
  "i < length xs \<Longrightarrow> j < length xs \<Longrightarrow> swap_list i j xs ! i = xs ! j"
  by (auto simp: swap_list_def nth_list_update)

lemma keys_at_swap_list:
  "i < length xs \<Longrightarrow> j < length xs \<Longrightarrow>
     keys_at (swap_list i j xs) = (keys_at xs)(i := keys_at xs j, j := keys_at xs i)"
  by (auto simp: keys_at_def swap_list_def nth_list_update fun_eq_iff)

definition heap_ordered :: "('a \<times> 'k::linorder) list \<Rightarrow> bool" where
  "heap_ordered xs \<longleftrightarrow> heap_upto (length xs) (keys_at xs)"

lemma heap_ordered_Nil [simp]: "heap_ordered []"
  by (simp add: heap_ordered_def heap_upto_def)

text \<open>
  \<open>abs m\<close> lists the elements of the container with their keys in the order of their positions.
\<close>

locale heap_contract =
  fixes h :: "('m, 'x) heap_interface"
    and inv :: "'m \<Rightarrow> bool"
    and abs :: "'m \<Rightarrow> ('x \<times> 'k::linorder) list"
    and fresh :: "'x \<Rightarrow> 'm \<Rightarrow> bool"
    and key :: "'x \<Rightarrow> 'm \<Rightarrow> 'k"
  assumes len: "inv m \<Longrightarrow> hLen h m = length (abs m)"
    and less_iff: "inv m \<Longrightarrow> i < length (abs m) \<Longrightarrow> j < length (abs m) \<Longrightarrow>
      hLess h i j m \<longleftrightarrow> keys_at (abs m) j < keys_at (abs m) i"
    and swap_abs: "inv m \<Longrightarrow> i < length (abs m) \<Longrightarrow> j < length (abs m) \<Longrightarrow>
      abs (hSwap h i j m) = swap_list i j (abs m)"
    and swap_inv: "inv m \<Longrightarrow> i < length (abs m) \<Longrightarrow> j < length (abs m) \<Longrightarrow> inv (hSwap h i j m)"
    and push_abs: "inv m \<Longrightarrow> fresh x m \<Longrightarrow> abs (hPush h x m) = abs m @ [(x, key x m)]"
    and push_inv: "inv m \<Longrightarrow> fresh x m \<Longrightarrow> inv (hPush h x m)"
    and pop_abs: "inv m \<Longrightarrow> abs m \<noteq> [] \<Longrightarrow> abs (snd (hPop h m)) = butlast (abs m)"
    and pop_elem: "inv m \<Longrightarrow> abs m \<noteq> [] \<Longrightarrow> fst (hPop h m) = fst (last (abs m))"
    and pop_inv: "inv m \<Longrightarrow> abs m \<noteq> [] \<Longrightarrow> inv (snd (hPop h m))"
begin

abbreviation keys :: "'m \<Rightarrow> nat \<Rightarrow> 'k" where
  "keys m \<equiv> keys_at (abs m)"

lemma swap_keys:
  "inv m \<Longrightarrow> i < length (abs m) \<Longrightarrow> j < length (abs m) \<Longrightarrow>
     keys (hSwap h i j m) = (keys m)(i := keys m j, j := keys m i)"
  by (simp add: swap_abs keys_at_swap_list)

text \<open>\<open>up\<close> repairs a heap whose position \<open>j\<close> may be too big, permuting the elements.\<close>

lemma up_correct:
  assumes "inv m" "j < n" "n \<le> length (abs m)" "heap_but_up n j (keys m)"
  shows "inv (heap_up h j m) \<and> heap_upto n (keys (heap_up h j m))
    \<and> mset (abs (heap_up h j m)) = mset (abs m)
    \<and> (\<forall>p \<ge> n. abs (heap_up h j m) ! p = abs m ! p)"
  using assms
proof (induction j arbitrary: m rule: less_induct)
  case (less j)
  let ?i = "parent j" and ?m = "hSwap h (parent j) j m"
  show ?case
  proof (cases "?i = j \<or> \<not> hLess h j ?i m")
    case True
    then have "heap_up h j m = m" by (subst heap_up.simps) simp
    moreover have "j = 0 \<or> keys m j \<le> keys m ?i"
      using True less.prems parent_less [of j] by (cases "j = 0") (auto simp: less_iff)
    ultimately show ?thesis using less.prems heap_but_up_done by auto
  next
    case False
    then have j: "0 < j" "?i < j" using parent_less [of j] by (cases "j = 0"; simp)+
    have lens: "?i < length (abs m)" "j < length (abs m)" using j less.prems by auto
    have big: "keys m ?i < keys m j" using False lens less.prems by (simp add: less_iff)
    have ks: "keys ?m = (keys m)(?i := keys m j, j := keys m ?i)"
      using lens less.prems by (simp add: swap_keys)
    have "inv ?m" "n \<le> length (abs ?m)" using lens less.prems by (simp_all add: swap_inv swap_abs)
    moreover have "heap_but_up n ?i (keys ?m)"
      using heap_but_up_step [OF less.prems(4) j(1) less.prems(2) big] by (simp add: ks)
    moreover have "heap_up h j m = heap_up h ?i ?m" using False by (subst heap_up.simps) (simp add: Let_def)
    moreover have "mset (abs ?m) = mset (abs m)" "\<forall>p \<ge> n. abs ?m ! p = abs m ! p"
      using lens j less.prems by (simp_all add: swap_abs nth_swap_list)
    ultimately show ?thesis using less.IH [of ?i ?m] j less.prems by auto
  qed
qed

text \<open>
  \<open>down\<close> either stays where it is, with the children in order, or moves and leaves a heap.
\<close>

definition down_post :: "nat \<Rightarrow> nat \<Rightarrow> 'm \<Rightarrow> 'm \<times> nat \<Rightarrow> bool" where
  "down_post n i m r \<longleftrightarrow>
     inv (fst r) \<and> mset (abs (fst r)) = mset (abs m) \<and> (\<forall>p \<ge> n. abs (fst r) ! p = abs m ! p)
     \<and> i \<le> snd r
     \<and> (snd r = i \<longrightarrow> fst r = m \<and> (\<forall>c < n. 0 < c \<longrightarrow> parent c = i \<longrightarrow> keys m c \<le> keys m i))
     \<and> (i < snd r \<longrightarrow> heap_upto n (keys (fst r)))"

lemma down_correct:
  assumes "inv m" "n \<le> length (abs m)" "i < length (abs m)" "heap_but_down n i (keys m)"
  shows "down_post n i m (heap_down h i n m)"
  using assms
proof (induction "n - i" arbitrary: i m rule: less_induct)
  case less
  define j where "j = (if 2 * i + 1 + 1 < n \<and> hLess h (2 * i + 1 + 1) (2 * i + 1) m
    then 2 * i + 1 + 1 else 2 * i + 1)"
  let ?m = "hSwap h i j m"
  have unfold: "heap_down h i n m =
    (if n \<le> 2 * i + 1 \<or> \<not> hLess h j i m then (m, i) else heap_down h j n ?m)"
    by (subst heap_down.simps) (simp add: Let_def j_def)
  have child: "c = 2 * i + 1 \<or> c = 2 * i + 1 + 1" if "0 < c" "parent c = i" for c
    using that by (simp add: parent_eq_iff)
  show ?case
  proof (cases "n \<le> 2 * i + 1")
    case True
    then have "heap_down h i n m = (m, i)" by (simp add: unfold)
    moreover have "\<not> (c < n \<and> 0 < c \<and> parent c = i)" for c using child [of c] True by auto
    ultimately show ?thesis using less.prems by (auto simp: down_post_def)
  next
    case False
    then have j: "j < n" "0 < j" "parent j = i" "i < j" by (auto simp: j_def)
    have lens: "j < length (abs m)" "2 * i + 1 < length (abs m)" using j False less.prems by auto
    have big: "keys m c \<le> keys m j" if "c < n" "0 < c" "parent c = i" for c
      using child [OF that(2,3)] that lens less.prems
      by (auto simp: j_def less_iff split: if_splits)
    show ?thesis
    proof (cases "hLess h j i m")
      case stay: False
      moreover have "keys m j \<le> keys m i"
        using stay lens less.prems by (simp add: less_iff not_less)
      then have "\<forall>c < n. 0 < c \<longrightarrow> parent c = i \<longrightarrow> keys m c \<le> keys m i"
        using big order_trans [of _ "keys m j" "keys m i"] by blast
      moreover have "heap_down h i n m = (m, i)" using stay by (simp add: unfold)
      ultimately show ?thesis using less.prems(1) by (simp add: down_post_def)
    next
      case True
      have lt: "keys m i < keys m j" using True lens less.prems by (simp add: less_iff)
      have ks: "keys ?m = (keys m)(i := keys m j, j := keys m i)"
        using lens less.prems by (simp add: swap_keys)
      have step: "heap_but_down n j (keys ?m)" "keys ?m j \<le> keys ?m (parent j)"
        unfolding ks using heap_but_down_step [OF less.prems(4) j(1-3) lt] big by blast+
      have m: "inv ?m" "abs ?m = swap_list i j (abs m)"
        using lens less.prems by (simp_all add: swap_inv swap_abs)
      have IH: "down_post n j ?m (heap_down h j n ?m)"
      proof (rule less.hyps)
        show "n - j < n - i" using j by simp
        show "inv ?m" by (fact m(1))
        show "n \<le> length (abs ?m)" "j < length (abs ?m)" using m(2) lens less.prems(2) by simp_all
        show "heap_but_down n j (keys ?m)" by (fact step(1))
      qed
      have "heap_upto n (keys (fst (heap_down h j n ?m)))"
      proof (cases "snd (heap_down h j n ?m) = j")
        case True
        with IH have r: "fst (heap_down h j n ?m) = ?m"
          "\<forall>c < n. 0 < c \<longrightarrow> parent c = j \<longrightarrow> keys ?m c \<le> keys ?m j"
          unfolding down_post_def by blast+
        show ?thesis
          unfolding r(1) by (rule heap_but_down_finish [OF step(1)]) (use step(2) r(2) in blast)+
      next
        case False
        moreover from IH have "j \<le> snd (heap_down h j n ?m)" by (simp add: down_post_def)
        ultimately have "j < snd (heap_down h j n ?m)" by simp
        with IH show ?thesis by (simp add: down_post_def)
      qed
      moreover have "mset (abs ?m) = mset (abs m)" "\<forall>p \<ge> n. abs ?m ! p = abs m ! p"
        using m lens less.prems j by (simp_all add: nth_swap_list)
      moreover have "heap_down h i n m = heap_down h j n ?m" using True False by (simp add: unfold)
      ultimately show ?thesis using IH j by (simp add: down_post_def)
    qed
  qed
qed

lemma down_heap:
  assumes "down_post n i m r" "heap_but_down n i (keys m)"
    and "i = 0 \<or> keys m i \<le> keys m (parent i) \<or> i < snd r"
  shows "heap_upto n (keys (fst r))"
  using assms heap_but_down_finish [OF assms(2)] by (cases "snd r = i") (auto simp: down_post_def)

text \<open>The common end of \<open>Pop\<close> and \<open>Remove\<close>: the last position is taken off.\<close>

lemma hPop_finish:
  assumes "inv m" "length (abs m) = Suc n" "heap_upto n (keys m)"
  shows "inv (snd (hPop h m)) \<and> heap_ordered (abs (snd (hPop h m)))
    \<and> mset (abs m) = add_mset (abs m ! n) (mset (abs (snd (hPop h m))))
    \<and> fst (hPop h m) = fst (abs m ! n)"
proof -
  have ne: "abs m \<noteq> []" and n: "length (abs m) - 1 = n" using assms(2) by auto
  have b: "abs (snd (hPop h m)) = butlast (abs m)" using assms(1) ne by (rule pop_abs)
  have "heap_upto n (keys_at (butlast (abs m))) = heap_upto n (keys m)"
    using assms(2) by (intro heap_upto_cong) (simp add: keys_at_def nth_butlast)
  then have "heap_ordered (butlast (abs m))" using assms by (simp add: heap_ordered_def)
  moreover have "mset (abs m) = add_mset (abs m ! n) (mset (butlast (abs m)))"
    using ne n by (metis append_butlast_last_id last_conv_nth mset_append mset_single_iff
        add_mset_add_single mset.simps)
  ultimately show ?thesis
    using b ne n assms(1) by (simp add: pop_inv pop_elem last_conv_nth)
qed

lemma heap_Push_correct:
  assumes "inv m" "fresh x m" "heap_ordered (abs m)"
  shows "inv (heap_Push h x m) \<and> heap_ordered (abs (heap_Push h x m))
    \<and> mset (abs (heap_Push h x m)) = add_mset (x, key x m) (mset (abs m))"
proof -
  let ?m = "hPush h x m" and ?n = "length (abs m)"
  have m: "inv ?m" "abs ?m = abs m @ [(x, key x m)]" using assms by (simp_all add: push_inv push_abs)
  have up: "heap_Push h x m = heap_up h ?n ?m"
    using m by (simp add: heap_Push_def len Let_def)
  have "keys ?m c \<le> keys ?m (parent c)" if "c < Suc ?n" "0 < c" "c \<noteq> ?n" for c
    using assms(3) that m parent_less [of c]
    by (simp add: heap_ordered_def heap_upto_def keys_at_def nth_append)
  moreover have "parent c \<noteq> ?n" if "c < Suc ?n" "0 < c" for c
    using parent_less [of c] that by simp
  ultimately have "heap_but_up (Suc ?n) ?n (keys ?m)" by (simp add: heap_but_up_def)
  from up_correct [OF m(1) _ _ this] m have post: "inv (heap_Push h x m)"
    "heap_upto (Suc ?n) (keys (heap_Push h x m))" "mset (abs (heap_Push h x m)) = mset (abs ?m)"
    by (simp_all add: up)
  from post(3) m have "length (abs (heap_Push h x m)) = Suc ?n"
    by (metis length_append_singleton size_mset)
  with post m show ?thesis by (simp add: heap_ordered_def)
qed

text \<open>Exchanging position \<open>i\<close> with the last one opens a hole at \<open>i\<close>.\<close>

lemma swap_last_hole:
  assumes "inv m" "heap_ordered (abs m)" "length (abs m) = Suc n" "i \<le> n"
  shows "heap_but_down n i (keys (hSwap h i n m))"
proof -
  have ks: "keys (hSwap h i n m) = (keys m)(i := keys m n, n := keys m i)"
    using assms by (simp add: swap_keys)
  have heap: "keys m c \<le> keys m (parent c)" if "c < Suc n" "0 < c" for c
    using assms(2,3) that by (simp add: heap_ordered_def heap_upto_def)
  show ?thesis
    unfolding heap_but_down_def ks
  proof (intro conjI allI impI)
    fix c assume c: "c < n" "0 < c"
    have "parent c < n" using c parent_less [of c] by simp
    then show "((keys m)(i := keys m n, n := keys m i)) c
      \<le> ((keys m)(i := keys m n, n := keys m i)) (parent c)" if "c \<noteq> i" "parent c \<noteq> i"
      using heap [of c] c that by simp
    show "((keys m)(i := keys m n, n := keys m i)) c
      \<le> ((keys m)(i := keys m n, n := keys m i)) (parent i)" if "parent c = i" "0 < i"
    proof -
      have "i < c" "parent i < i" using c that parent_less [of c] parent_less [of i] by auto
      moreover have "keys m c \<le> keys m (parent i)"
        using heap [of c] heap [of i] c that \<open>i < c\<close> by simp
      ultimately show ?thesis using c by simp
    qed
  qed
qed

lemma heap_Pop_correct:
  assumes "inv m" "heap_ordered (abs m)" "abs m \<noteq> []"
  shows "inv (snd (heap_Pop h m)) \<and> heap_ordered (abs (snd (heap_Pop h m)))
    \<and> mset (abs m) = add_mset (hd (abs m)) (mset (abs (snd (heap_Pop h m))))
    \<and> fst (heap_Pop h m) = fst (hd (abs m))"
proof -
  obtain n where n: "length (abs m) = Suc n" using assms(3) by (cases "abs m") auto
  let ?m1 = "hSwap h 0 n m"
  let ?r = "heap_down h 0 n ?m1"
  have m1: "inv ?m1" "abs ?m1 = swap_list 0 n (abs m)" using assms n by (simp_all add: swap_inv swap_abs)
  have hole: "heap_but_down n 0 (keys ?m1)" using assms n by (intro swap_last_hole) auto
  have post: "down_post n 0 ?m1 ?r" using m1 hole n by (intro down_correct) auto
  have heap: "heap_upto n (keys (fst ?r))" using post hole by (rule down_heap) simp
  have "mset (abs (fst ?r)) = mset (abs m)" "abs (fst ?r) ! n = hd (abs m)" "inv (fst ?r)"
    using post m1 n assms(3) by (simp_all add: down_post_def nth_swap_list hd_conv_nth)
  moreover from this have "length (abs (fst ?r)) = Suc n" using n by (metis size_mset)
  moreover have "heap_Pop h m = hPop h (fst ?r)" using assms n by (simp add: heap_Pop_def len Let_def)
  ultimately show ?thesis using hPop_finish [of "fst ?r" n] heap by simp
qed

text \<open>Nothing in the heap has a greater key than what \<open>Pop\<close> returns.\<close>

lemma heap_hd_max:
  assumes "heap_ordered xs" "y \<in> set xs"
  shows "snd y \<le> snd (hd xs)"
proof -
  from assms(2) obtain c where c: "c < length xs" "y = xs ! c" by (metis in_set_conv_nth)
  then have "keys_at xs c \<le> keys_at xs 0"
    using assms(1) by (auto simp: heap_ordered_def intro: heap_upto_root)
  then show ?thesis using c by (cases xs) (auto simp: keys_at_def)
qed

lemma heap_Remove_correct:
  assumes "inv m" "heap_ordered (abs m)" "i < length (abs m)"
  shows "inv (snd (heap_Remove h i m)) \<and> heap_ordered (abs (snd (heap_Remove h i m)))
    \<and> mset (abs m) = add_mset (abs m ! i) (mset (abs (snd (heap_Remove h i m))))
    \<and> fst (heap_Remove h i m) = fst (abs m ! i)"
proof -
  obtain n where n: "length (abs m) = Suc n" using assms(3) by (cases "abs m") auto
  show ?thesis
  proof (cases "i = n")
    case True
    then have "heap_Remove h i m = hPop h m" using assms n by (simp add: heap_Remove_def len)
    moreover have "heap_upto n (keys m)"
      using assms(2) n heap_upto_mono [of "Suc n" "keys m" n] by (simp add: heap_ordered_def)
    ultimately show ?thesis using True hPop_finish [OF assms(1) n] by simp
  next
    case False
    then have i: "i < n" using assms n by simp
    let ?m1 = "hSwap h i n m"
    let ?r = "heap_down h i n ?m1"
    let ?m2 = "if i < snd ?r then fst ?r else heap_up h i (fst ?r)"
    have m1: "inv ?m1" "abs ?m1 = swap_list i n (abs m)"
      using assms n i by (simp_all add: swap_inv swap_abs)
    have hole: "heap_but_down n i (keys ?m1)" using assms n i by (intro swap_last_hole) auto
    have post: "down_post n i ?m1 ?r" using m1 hole n i by (intro down_correct) auto
    have "inv ?m2 \<and> heap_upto n (keys ?m2) \<and> mset (abs ?m2) = mset (abs ?m1)
      \<and> abs ?m2 ! n = abs ?m1 ! n"
    proof (cases "i < snd ?r")
      case True
      then show ?thesis using post down_heap [OF post hole] by (simp add: down_post_def)
    next
      case False
      then have r: "fst ?r = ?m1" "\<forall>c < n. 0 < c \<longrightarrow> parent c = i \<longrightarrow> keys ?m1 c \<le> keys ?m1 i"
        using post by (auto simp: down_post_def)
      then have "heap_but_up n i (keys ?m1)" using hole by (intro heap_but_down_stop) auto
      then show ?thesis using False r m1 i n up_correct [of ?m1 i n] by simp
    qed
    moreover have "mset (abs ?m1) = mset (abs m)" "abs ?m1 ! n = abs m ! i"
      using m1 n i by (simp_all add: nth_swap_list)
    moreover from calculation have "length (abs ?m2) = Suc n" using n by (metis size_mset)
    moreover have "heap_Remove h i m = hPop h ?m2"
      using assms n False by (simp add: heap_Remove_def len Let_def split: prod.split)
    ultimately show ?thesis using hPop_finish [of ?m2 n] by simp
  qed
qed

end

end
