(* ===== verification/HRNQueue.thy ===== *)
theory HRNQueue
  imports QueueSpec ContainerHeap Config
begin

text \<open>
  \<open>internal/queue/hrn_queue.go\<close>: the HRN queue. Its waiters carry a priority and the time they
  arrived; they are kept in a binary heap ordered by \<open>effectivePriority\<close>, which grows while a waiter
  waits, and each waiter records its position in the heap (\<open>-1\<close> when it is in none). Times are
  nanoseconds; \<open>float64\<close> is modelled by the real numbers (no rounding), and one heap operation reads
  the clock once.
\<close>

record waiter = simple_waiter +
  clientID :: gostring
  priority :: real
  enqueuedAt :: int
  index :: int

definition new_hrn_waiter :: "gostring \<Rightarrow> real \<Rightarrow> int \<Rightarrow> waiter" where
  "new_hrn_waiter c p t =
     \<lparr>wch = None, wdone = False, clientID = c, priority = p, enqueuedAt = t, index = -1\<rparr>"

definition effectivePriority :: "int \<Rightarrow> waiter \<Rightarrow> real" where
  "effectivePriority now w =
     (let waitSecs = real_of_int (now - enqueuedAt w) / 1000000000 in priority w + waitSecs * 0.1)"

subsection \<open>The heap of waiters\<close>

definition set_index :: "nat \<Rightarrow> int \<Rightarrow> waiter qmem \<Rightarrow> waiter qmem" where
  "set_index w i m = set_waiter w (\<lambda>x. x\<lparr>index := i\<rparr>) m"

definition hrn_Less :: "int \<Rightarrow> nat \<Rightarrow> nat \<Rightarrow> waiter qmem \<Rightarrow> bool" where
  "hrn_Less now i j m \<longleftrightarrow>
     effectivePriority now (store m ! (order m ! i)) > effectivePriority now (store m ! (order m ! j))"

definition hrn_Swap :: "nat \<Rightarrow> nat \<Rightarrow> waiter qmem \<Rightarrow> waiter qmem" where
  "hrn_Swap i j m =
     (let m1 = m\<lparr>order := (order m)[i := order m ! j, j := order m ! i]\<rparr>;
          m2 = set_index (order m1 ! i) (int i) m1
      in set_index (order m1 ! j) (int j) m2)"

definition hrn_Push :: "nat \<Rightarrow> waiter qmem \<Rightarrow> waiter qmem" where
  "hrn_Push w m =
     (let m1 = set_index w (int (length (order m))) m in m1\<lparr>order := order m1 @ [w]\<rparr>)"

definition hrn_Pop :: "waiter qmem \<Rightarrow> nat \<times> waiter qmem" where
  "hrn_Pop m =
     (let old = order m; n = length old; w = old ! (n - 1); m1 = set_index w (-1) m
      in (w, m1\<lparr>order := take (n - 1) old\<rparr>))"

definition hrn_heap :: "int \<Rightarrow> (waiter qmem, nat) heap_interface" where
  "hrn_heap now =
     \<lparr>hLen = (\<lambda>m. length (order m)), hLess = hrn_Less now, hSwap = hrn_Swap,
      hPush = hrn_Push, hPop = hrn_Pop\<rparr>"

subsection \<open>The queue operations\<close>

definition hrn_push :: "int \<Rightarrow> nat \<Rightarrow> waiter qmem \<Rightarrow> waiter qmem" where
  "hrn_push now w m = heap_Push (hrn_heap now) w m"

definition hrn_pop :: "int \<Rightarrow> waiter qmem \<Rightarrow> (nat \<times> waiter qmem) option" where
  "hrn_pop now m = (if order m = [] then None else Some (heap_Pop (hrn_heap now) m))"

definition hrn_remove :: "int \<Rightarrow> nat \<Rightarrow> waiter qmem \<Rightarrow> waiter qmem" where
  "hrn_remove now w m =
     (if 0 \<le> index (store m ! w) then snd (heap_Remove (hrn_heap now) (nat (index (store m ! w))) m)
      else m)"

definition hrn_ops :: "waiter queue_ops" where
  "hrn_ops = \<lparr>new_waiter = new_hrn_waiter, op_push = hrn_push, op_pop = hrn_pop,
     op_remove = hrn_remove\<rparr>"

text \<open>\<open>make(chan, n)\<close> panics for a negative size (\<open>None\<close>); \<open>heap.Init\<close> of the empty heap does nothing.\<close>

definition NewHRNQueue :: "queue_config \<Rightarrow> waiter qstate option" where
  "NewHRNQueue cfg =
     (if MaxInflight cfg < 0 then None else Some (init_queue (nat (MaxInflight cfg))))"

definition hrn_step :: "waiter qstate \<Rightarrow> waiter qstate \<Rightarrow> bool" where
  "hrn_step = q_step hrn_ops"

definition hrn_reachable :: "nat \<Rightarrow> waiter qstate \<Rightarrow> bool" where
  "hrn_reachable = q_reachable hrn_ops"

lemma NewHRNQueue_reachable: "NewHRNQueue cfg = Some s \<Longrightarrow> hrn_reachable (nat (MaxInflight cfg)) s"
  by (auto simp: NewHRNQueue_def hrn_reachable_def q_reachable.q_init split: if_splits)

subsection \<open>The order of waiters does not change as time passes\<close>

text \<open>All waiters age at the same rate: \<open>rank\<close> orders them as \<open>effectivePriority\<close> does at any time.\<close>

definition rank :: "waiter \<Rightarrow> real" where
  "rank w = priority w - real_of_int (enqueuedAt w) / 1000000000 * 0.1"

lemma effectivePriority_rank:
  "effectivePriority now w = rank w + real_of_int now / 1000000000 * 0.1"
  by (simp add: effectivePriority_def rank_def field_simps)

lemma rank_index [simp]: "rank (w\<lparr>index := i\<rparr>) = rank w"
  by (simp add: rank_def)

lemma rank_ch [simp]: "rank (w\<lparr>wch := a\<rparr>) = rank w" "rank (w\<lparr>wch := a, wdone := b\<rparr>) = rank w"
  by (simp_all add: rank_def)

subsection \<open>The contract of the heap\<close>

definition habs :: "waiter qmem \<Rightarrow> (nat \<times> real) list" where
  "habs m = map (\<lambda>w. (w, rank (store m ! w))) (order m)"

text \<open>Every queued waiter knows its position, every other one has index \<open>-1\<close>.\<close>

definition hrn_inv :: "waiter qmem \<Rightarrow> bool" where
  "hrn_inv m \<longleftrightarrow> set (order m) \<subseteq> {..<length (store m)} \<and> distinct (order m)
     \<and> (\<forall>i < length (order m). index (store m ! (order m ! i)) = int i)
     \<and> (\<forall>w < length (store m). w \<notin> set (order m) \<longrightarrow> index (store m ! w) = -1)"

text \<open>Everything but the indices, which the heap operations leave alone.\<close>

definition frame :: "waiter qmem \<Rightarrow> waiter list" where
  "frame m = map (\<lambda>x. x\<lparr>index := 0\<rparr>) (store m)"

definition hfresh :: "nat \<Rightarrow> waiter qmem \<Rightarrow> bool" where
  "hfresh w m \<longleftrightarrow> w < length (store m) \<and> w \<notin> set (order m)"

definition hkey :: "nat \<Rightarrow> waiter qmem \<Rightarrow> real" where
  "hkey w m = rank (store m ! w)"

lemma length_habs [simp]: "length (habs m) = length (order m)"
  by (simp add: habs_def)

lemma habs_Nil [simp]: "habs m = [] \<longleftrightarrow> order m = []"
  by (simp add: habs_def)

lemma set_index_simps [simp]:
  "length (store (set_index w i m)) = length (store m)"
  "order (set_index w i m) = order m"
  "store (m\<lparr>order := ws\<rparr>) = store m"
  by (simp_all add: set_index_def)

lemma set_index_nth:
  "v < length (store m) \<Longrightarrow>
     store (set_index w i m) ! v = (if v = w then (store m ! v)\<lparr>index := i\<rparr> else store m ! v)"
  by (simp add: set_index_def)

lemma frame_set_index [simp]: "frame (set_index w i m) = frame m"
  by (cases "w < length (store m)")
    (simp_all add: frame_def set_index_def set_waiter_def map_update list_update_same_conv
      list_update_beyond)

lemma frame_order [simp]: "frame (m\<lparr>order := ws\<rparr>) = frame m"
  by (simp add: frame_def)

lemma frame_eq:
  assumes "frame m = frame m'"
  shows "length (store m) = length (store m')" "core m = core m'"
    and "map rank (store m) = map rank (store m')"
proof -
  show "length (store m) = length (store m')" using assms unfolding frame_def by (metis length_map)
  have "core x = map (\<lambda>w. (wch w, wdone w)) (frame x)" for x by (simp add: core_def frame_def)
  then show "core m = core m'" using assms by simp
  have "map rank (store x) = map rank (frame x)" for x by (simp add: frame_def)
  then show "map rank (store m) = map rank (store m')" using assms by simp
qed

lemma habs_frame:
  assumes "frame m = frame m'" "set (order m) \<subseteq> {..<length (store m)}"
  shows "habs m = map (\<lambda>w. (w, rank (store m' ! w))) (order m)"
proof -
  have "rank (store m ! w) = rank (store m' ! w)" if "w < length (store m)" for w
    using frame_eq(3) [OF assms(1)] frame_eq(1) [OF assms(1)] that by (metis nth_map)
  with assms(2) show ?thesis by (auto simp: habs_def)
qed

lemma hrn_Swap_simps:
  assumes "hrn_inv m" "i < length (order m)" "j < length (order m)"
  shows "order (hrn_Swap i j m) = swap_list i j (order m)" "frame (hrn_Swap i j m) = frame m"
  by (simp_all add: hrn_Swap_def swap_list_def Let_def)

text \<open>The position a queued waiter records, after two have been exchanged.\<close>

lemma hrn_Swap_inv:
  assumes inv: "hrn_inv m" and i: "i < length (order m)" and j: "j < length (order m)"
  shows "hrn_inv (hrn_Swap i j m)"
proof -
  let ?o = "swap_list i j (order m)" and ?m = "hrn_Swap i j m"
  have ord: "order ?m = ?o" using hrn_Swap_simps(1) [OF inv i j] .
  have set: "set ?o = set (order m)" and dist: "distinct ?o"
    using mset_swap_list [OF i j] inv by (auto simp: hrn_inv_def dest: mset_eq_setD mset_eq_imp_distinct_iff)
  have len: "length (store ?m) = length (store m)" by (simp add: hrn_Swap_def Let_def)
  have nth: "index (store ?m ! w) =
      (if w = ?o ! j then int j else if w = ?o ! i then int i else index (store m ! w))"
    if "w < length (store m)" for w
    using that by (simp add: hrn_Swap_def Let_def set_index_nth swap_list_def)
  have bound: "?o ! p < length (store m)" if "p < length (order m)" for p
    using inv set that by (metis hrn_inv_def length_swap_list lessThan_iff nth_mem subsetD)
  have "index (store ?m ! (?o ! p)) = int p" if p: "p < length (order m)" for p
  proof -
    have "?o ! p = ?o ! j \<longleftrightarrow> p = j" "?o ! p = ?o ! i \<longleftrightarrow> p = i"
      using dist p i j by (simp_all add: nth_eq_iff_index_eq)
    moreover have "index (store m ! (?o ! p)) = int p" if "p \<noteq> i" "p \<noteq> j"
      using inv p i j that by (simp add: nth_swap_list hrn_inv_def)
    ultimately show ?thesis using nth [OF bound [OF p]] by auto
  qed
  moreover have "index (store ?m ! w) = -1" if "w < length (store m)" "w \<notin> set (order m)" for w
  proof -
    have "w \<noteq> ?o ! i" "w \<noteq> ?o ! j" using that i j set by (metis length_swap_list nth_mem)+
    then show ?thesis using nth that inv by (simp add: hrn_inv_def)
  qed
  ultimately show ?thesis
    using inv set dist len by (simp add: hrn_inv_def ord)
qed

lemma hrn_Push_facts:
  assumes "hrn_inv m" "hfresh w m"
  shows "hrn_inv (hrn_Push w m)" "frame (hrn_Push w m) = frame m" "order (hrn_Push w m) = order m @ [w]"
proof -
  show "order (hrn_Push w m) = order m @ [w]" by (simp add: hrn_Push_def Let_def)
  show "frame (hrn_Push w m) = frame m" by (simp add: hrn_Push_def Let_def)
  have "w \<noteq> order m ! p" if "p < length (order m)" for p
    using assms(2) that by (metis hfresh_def nth_mem)
  moreover have "order m ! p < length (store m)" if "p < length (order m)" for p
    using assms(1) that nth_mem by (fastforce simp: hrn_inv_def)
  ultimately show "hrn_inv (hrn_Push w m)"
    using assms
    by (auto simp: hrn_inv_def hrn_Push_def hfresh_def Let_def set_index_nth nth_append less_Suc_eq)
qed

lemma hrn_Pop_facts:
  assumes "hrn_inv m" "order m \<noteq> []"
  shows "hrn_inv (snd (hrn_Pop m))" "frame (snd (hrn_Pop m)) = frame m"
    "order (snd (hrn_Pop m)) = butlast (order m)" "fst (hrn_Pop m) = last (order m)"
proof -
  obtain ws w where o: "order m = ws @ [w]" using assms(2) by (metis rev_exhaust)
  show "order (snd (hrn_Pop m)) = butlast (order m)" "fst (hrn_Pop m) = last (order m)"
    using o by (simp_all add: hrn_Pop_def Let_def)
  show "frame (snd (hrn_Pop m)) = frame m" by (simp add: hrn_Pop_def Let_def)
  have "index (store m ! (ws ! p)) = int p" if "p < length ws" for p
    using assms(1) o that by (auto simp: hrn_inv_def nth_append split: if_splits)
  moreover have "ws ! p \<noteq> w" "ws ! p < length (store m)" if "p < length ws" for p
  proof -
    have "ws ! p \<in> set ws" using that by (rule nth_mem)
    then show "ws ! p \<noteq> w" "ws ! p < length (store m)" using assms(1) o by (auto simp: hrn_inv_def)
  qed
  ultimately show "hrn_inv (snd (hrn_Pop m))"
    using assms(1) o by (auto simp: hrn_inv_def hrn_Pop_def Let_def set_index_nth nth_append)
qed

lemma habs_step:
  assumes "hrn_inv m'" "frame m' = frame m"
  shows "habs m' = map (\<lambda>w. (w, rank (store m ! w))) (order m')"
  using habs_frame [OF assms(2)] assms(1) by (simp add: hrn_inv_def)

lemma swap_list_map:
  "i < length xs \<Longrightarrow> j < length xs \<Longrightarrow> swap_list i j (map f xs) = map f (swap_list i j xs)"
  by (simp add: swap_list_def map_update)

text \<open>The waiters meet the contract of the heap, with any fixed content of the other fields.\<close>

interpretation hrnh: heap_contract "hrn_heap now" "\<lambda>m. hrn_inv m \<and> frame m = F" habs hfresh hkey
  for now F
proof (unfold_locales, goal_cases)
  case (1 m)
  then show ?case by (simp add: hrn_heap_def)
next
  case (2 m i j)
  then show ?case
    by (simp add: hrn_heap_def hrn_Less_def effectivePriority_rank keys_at_def habs_def)
next
  case (3 m i j)
  then show ?case
    using habs_step [of "hrn_Swap i j m" m]
    by (simp add: hrn_heap_def hrn_Swap_simps hrn_Swap_inv habs_def swap_list_map)
next
  case (4 m i j)
  then show ?case by (simp add: hrn_heap_def hrn_Swap_simps hrn_Swap_inv)
next
  case (5 m x)
  then show ?case
    using habs_step [of "hrn_Push x m" m]
    by (simp add: hrn_heap_def hrn_Push_facts habs_def hkey_def)
next
  case (6 m x)
  then show ?case by (simp add: hrn_heap_def hrn_Push_facts)
next
  case (7 m)
  then show ?case
    using habs_step [of "snd (hrn_Pop m)" m]
    by (simp add: hrn_heap_def hrn_Pop_facts habs_def map_butlast)
next
  case (8 m)
  then show ?case by (simp add: hrn_heap_def hrn_Pop_facts habs_def last_map)
next
  case (9 m)
  then show ?case by (simp add: hrn_heap_def hrn_Pop_facts)
qed

subsection \<open>The contract of the waiting list\<close>

definition hrn_minv :: "waiter qmem \<Rightarrow> bool" where
  "hrn_minv m \<longleftrightarrow> hrn_inv m \<and> heap_ordered (habs m)"

lemma mset_habs: "image_mset fst (mset (habs m)) = mset (order m)"
  by (simp add: habs_def flip: mset_map) (simp add: comp_def)

lemma mset_habs_order:
  assumes "mset (habs m) = add_mset (w, k) (mset (habs m'))"
  shows "mset (order m) = add_mset w (mset (order m'))"
  using arg_cong [OF assms, of "image_mset fst"] by (simp only: mset_habs image_mset_add_mset fst_conv)

lemma hrn_push_law:
  assumes "hrn_minv m" "w < length (store m)" "w \<notin> set (order m)"
  shows "hrn_minv (hrn_push t w m)" "frame (hrn_push t w m) = frame m"
    "mset (order (hrn_push t w m)) = add_mset w (mset (order m))"
  using hrnh.heap_Push_correct [of m "frame m" w t] assms
  by (auto simp: hrn_minv_def hrn_push_def hfresh_def intro: mset_habs_order)

lemma hrn_pop_law:
  assumes "hrn_minv m" "hrn_pop t m = Some (w, m')"
  shows "hrn_minv m'" "frame m' = frame m" "mset (order m) = add_mset w (mset (order m'))"
    "w = hd (order m)"
proof -
  have ne: "order m \<noteq> []" and p: "heap_Pop (hrn_heap t) m = (w, m')"
    using assms(2) by (auto simp: hrn_pop_def split: if_splits)
  have post: "hrn_inv m'" "frame m' = frame m" "heap_ordered (habs m')"
    "mset (habs m) = add_mset (hd (habs m)) (mset (habs m'))" "w = fst (hd (habs m))"
    using hrnh.heap_Pop_correct [of m "frame m" t] assms(1) ne p by (simp_all add: hrn_minv_def)
  then show "hrn_minv m'" "frame m' = frame m" by (simp_all add: hrn_minv_def)
  show "w = hd (order m)" using post(5) ne by (simp add: habs_def hd_map)
  show "mset (order m) = add_mset w (mset (order m'))"
    using post(4,5) mset_habs_order by (metis prod.collapse)
qed

lemma hrn_remove_law:
  assumes "hrn_minv m" "w < length (store m)"
  shows "hrn_minv (hrn_remove t w m)" "frame (hrn_remove t w m) = frame m"
    "mset (order (hrn_remove t w m)) = mset (order m) - {#w#}"
proof -
  have inv: "hrn_inv m" "heap_ordered (habs m)" using assms(1) by (simp_all add: hrn_minv_def)
  have "hrn_minv (hrn_remove t w m) \<and> frame (hrn_remove t w m) = frame m
    \<and> mset (order (hrn_remove t w m)) = mset (order m) - {#w#}"
  proof (cases "w \<in> set (order m)")
    case False
    then have "index (store m ! w) = -1" using inv assms(2) by (simp add: hrn_inv_def)
    then show ?thesis using assms(1) False by (simp add: hrn_remove_def)
  next
    case True
    then obtain i where i: "i < length (order m)" "order m ! i = w" by (metis in_set_conv_nth)
    then have idx: "index (store m ! w) = int i" using inv(1) by (auto simp: hrn_inv_def)
    let ?r = "heap_Remove (hrn_heap t) i m"
    have post: "hrn_inv (snd ?r)" "frame (snd ?r) = frame m" "heap_ordered (habs (snd ?r))"
      "mset (habs m) = add_mset (habs m ! i) (mset (habs (snd ?r)))"
      using hrnh.heap_Remove_correct [of m "frame m" i t] inv i by simp_all
    have "habs m ! i = (w, rank (store m ! w))" using i by (simp add: habs_def)
    then have "mset (order m) = add_mset w (mset (order (snd ?r)))"
      using post(4) mset_habs_order by metis
    then show ?thesis using post idx by (simp add: hrn_remove_def hrn_minv_def)
  qed
  then show "hrn_minv (hrn_remove t w m)" "frame (hrn_remove t w m) = frame m"
    "mset (order (hrn_remove t w m)) = mset (order m) - {#w#}" by simp_all
qed

lemma hrn_minv_alloc:
  assumes "hrn_minv m"
  shows "hrn_minv (m\<lparr>store := store m @ [new_hrn_waiter c p t]\<rparr>)"
proof -
  let ?m = "m\<lparr>store := store m @ [new_hrn_waiter c p t]\<rparr>"
  have bound: "set (order m) \<subseteq> {..<length (store m)}" using assms by (simp add: hrn_minv_def hrn_inv_def)
  then have "order m ! i < length (store m)" if "i < length (order m)" for i
    using that nth_mem by blast
  then have "hrn_inv ?m"
    using assms bound
    by (auto simp: hrn_minv_def hrn_inv_def nth_append less_Suc_eq new_hrn_waiter_def)
  moreover have "habs ?m = habs m" using bound by (auto simp: habs_def nth_append)
  ultimately show ?thesis using assms by (simp add: hrn_minv_def)
qed

lemma hrn_minv_set:
  assumes "hrn_minv m" "\<And>x. index (f x) = index x" "\<And>x. rank (f x) = rank x"
  shows "hrn_minv (set_waiter w f m)"
proof -
  have bound: "set (order m) \<subseteq> {..<length (store m)}" using assms(1) by (simp add: hrn_minv_def hrn_inv_def)
  then have "order m ! i < length (store m)" if "i < length (order m)" for i
    using that nth_mem by blast
  then have "hrn_inv (set_waiter w f m)"
    using assms bound by (auto simp: hrn_minv_def hrn_inv_def)
  moreover have "habs (set_waiter w f m) = habs m"
    using bound assms(3) by (auto simp: habs_def)
  ultimately show ?thesis using assms(1) by (simp add: hrn_minv_def)
qed

interpretation hrnq: wait_queue hrn_ops hrn_minv
proof (unfold_locales, goal_cases)
  case (1 c p t)
  then show ?case by (simp add: hrn_ops_def new_hrn_waiter_def)
next
  case (2 c p t)
  then show ?case by (simp add: hrn_ops_def new_hrn_waiter_def)
next
  case 3
  then show ?case by (simp add: hrn_minv_def hrn_inv_def habs_def)
next
  case (4 m c p t)
  then show ?case by (simp add: hrn_ops_def hrn_minv_alloc)
next
  case (5 m w a)
  then show ?case by (simp add: hrn_minv_set)
next
  case (6 m w a b)
  then show ?case by (simp add: hrn_minv_set)
next
  case (7 m)
  then show ?case by (simp add: hrn_minv_def hrn_inv_def)
next
  case (8 m)
  then show ?case by (simp add: hrn_minv_def hrn_inv_def)
next
  case (9 m w t)
  note law = hrn_push_law [OF 9]
  show ?case using law frame_eq(2) [OF law(2)] by (simp add: hrn_ops_def)
next
  case (10 m t)
  then show ?case by (simp add: hrn_ops_def hrn_pop_def)
next
  case (11 m t w m')
  then have "hrn_pop t m = Some (w, m')" by (simp add: hrn_ops_def)
  note law = hrn_pop_law [OF 11(1) this]
  show ?case using law frame_eq(2) [OF law(2)] by simp
next
  case (12 m w t)
  note law = hrn_remove_law [OF 12]
  show ?case using law frame_eq(2) [OF law(2)] by (simp add: hrn_ops_def)
qed

subsection \<open>A concrete interleaving\<close>

text \<open>
  With one slot: the first request takes it, two more wait (the second with the greater priority,
  twenty seconds later), and the first one is about to release.
\<close>

definition demo_events :: "q_event list" where
  "demo_events =
     [Arrive ''a'' 1, Move 0, Arrive ''b'' 1, Move 1, Move 1, Move 1, Tick 20000000000,
      Arrive ''c'' 2, Move 2, Move 2, Move 2, Move 0]"

definition demo_state :: "waiter qstate" where
  "demo_state =
     \<lparr>mem =
        \<lparr>store =
           [\<lparr>wch = None, wdone = False, clientID = ''b'', priority = 1, enqueuedAt = 0, index = 0\<rparr>,
            \<lparr>wch = None, wdone = False, clientID = ''c'', priority = 2, enqueuedAt = 20000000000,
             index = 1\<rparr>],
         order = [0, 1]\<rparr>,
      sem = 0, cap = 1, procs = [RelLock, AcqWait 0, AcqWait 1], timers = [TArmed, TArmed],
      clock = 20000000000\<rparr>"

lemmas hrn_ops_defs [queue_simps] =
  hrn_ops_def new_hrn_waiter_def hrn_push_def hrn_pop_def hrn_remove_def hrn_heap_def hrn_Less_def
  hrn_Swap_def hrn_Push_def hrn_Pop_def heap_Push_def heap_Pop_def heap_Remove_def set_index_def
  set_waiter_def effectivePriority_def parent_def

lemmas q_eval = q_move_def q_fire_def complete_waiter_def init_queue_def

lemma demo_run: "q_run hrn_ops demo_events (init_queue 1) = Some demo_state"
  by (simp add: demo_events_def demo_state_def queue_simps q_eval Let_def heap_up.simps nth_Cons)

lemma demo_reachable: "hrn_reachable 1 demo_state"
  unfolding hrn_reachable_def by (rule q_run_reachable [OF demo_run q_reachable.q_init])

lemmas demo_simps = demo_state_def rank_def

subsection \<open>Properties\<close>

lemma hrn_reachable_minv: "hrn_reachable n s \<Longrightarrow> hrn_minv (mem s)"
  using hrnq.reachable_inv by (auto simp: hrn_reachable_def hrnq.slots_inv_def)

text \<open>The popped waiter is the root of the heap, and no queued waiter has a greater rank.\<close>

lemma hrn_pop_max:
  assumes "hrn_minv m" "hrn_pop t m = Some (w, m')" "v \<in> set (order m)"
  shows "rank (store m ! v) \<le> rank (store m ! w)"
proof -
  have "order m \<noteq> []" using assms(3) by auto
  then have hd: "hd (habs m) = (w, rank (store m ! w))"
    using hrn_pop_law(4) [OF assms(1,2)] by (simp add: habs_def hd_map)
  have "(v, rank (store m ! v)) \<in> set (habs m)" using assms(3) by (simp add: habs_def)
  then show ?thesis
    using hrnh.heap_hd_max [of "habs m" "(v, rank (store m ! v))"] assms(1) hd by (simp add: hrn_minv_def)
qed

lemma hrn_pop_mem:
  assumes "hrn_minv m" "hrn_pop t m = Some (w, m')"
  shows "w \<in> set (order m)"
  using hrnq.pop_set(1) [OF assms(1)] assms(2) by (simp add: hrn_ops_def)

text \<open>C2: In every interleaving of acquiring, releasing and timer goroutines of the HRN queue, the slots
  are conserved: the free ones in \<open>q.sem\<close>, those held by goroutines and those handed to a waiter
  that has not yet picked its result up always add up to \<open>maxInflight\<close>. So at most
  \<open>maxInflight\<close> requests are served at once.\<close>

theorem hrn_slots_conserved:
  assumes "hrn_reachable n s"
  shows "sem s + sum_list (map proc_slots (procs s))
      + sum_list (map waiter_slots (store (mem s))) = n
    \<and> length (filter (\<lambda>p. p = Holding) (procs s)) + sem s \<le> n"
  using hrnq.reachable_inv [of n s] hrnq.holders_bound [of n s] assms
  by (auto simp: hrn_reachable_def hrnq.slots_inv_def total_slots_def)

theorem hrn_slots_conserved_witness:
  "sem demo_state + sum_list (map proc_slots (procs demo_state))
     + sum_list (map waiter_slots (store (mem demo_state))) = 1"
  using hrn_slots_conserved [OF demo_reachable] by simp



text \<open>No waiting request of the HRN queue is forgotten: while its goroutine is blocked on the channel,
  either the result is in the channel, or the waiter is still in the heap or in the hands of a
  releasing goroutine, and in both cases its timer is armed, so it will be answered.\<close>

theorem hrn_waiter_not_lost:
  assumes "hrn_reachable n s" "AcqWait w \<in> set (procs s)"
  shows "wch (store (mem s) ! w) \<noteq> None
    \<or> timers s ! w = TArmed \<and> (w \<in> set (order (mem s)) \<or> RelComplete w \<in> set (procs s))"
  using hrnq.waiter_not_lost assms by (simp add: hrn_reachable_def)

theorem hrn_waiter_not_lost_witness:
  "timers demo_state ! 1 = TArmed \<and> 1 \<in> set (order (mem demo_state))"
  using hrn_waiter_not_lost [OF demo_reachable, of 1] by (simp add: demo_state_def)

text \<open>C19: The HRN queue has no deadlock: in every reachable state every goroutine that is not serving its
  request and not finished can take its next step, or, if it waits for a result, its timer can
  deliver the refusal; in particular the send that returns a slot to \<open>q.sem\<close> never blocks.\<close>

theorem hrn_no_deadlock:
  assumes "hrn_reachable n s" "i < length (procs s)"
    and "procs s ! i \<notin> {Holding, Refused, Served}"
  shows "\<exists>t. hrn_step s t \<and>
    (procs t ! i \<noteq> procs s ! i \<or>
     (\<exists>w. procs s ! i = AcqWait w \<and> wch (store (mem t) ! w) = Some False))"
  using hrnq.no_deadlock assms by (simp add: hrn_reachable_def hrn_step_def)

theorem hrn_no_deadlock_witness:
  "\<exists>t. hrn_step demo_state t \<and>
    (procs t ! 1 \<noteq> procs demo_state ! 1 \<or>
     (\<exists>w. procs demo_state ! 1 = AcqWait w \<and> wch (store (mem t) ! w) = Some False))"
  by (rule hrn_no_deadlock [OF demo_reachable]) (simp_all add: demo_state_def)


text \<open>Scheduling is Highest Response Ratio Next: in every reachable state the waiter that \<open>Release\<close> pops
  has, at that moment and at any other, the greatest effective priority of all queued waiters.\<close>

theorem hrn_pop_highest:
  assumes "hrn_reachable n s" "hrn_pop (clock s) (mem s) = Some (w, m')"
    and "v \<in> set (order (mem s))"
  shows "w \<in> set (order (mem s)) \<and>
    effectivePriority now (store (mem s) ! v) \<le> effectivePriority now (store (mem s) ! w)"
  using hrn_pop_max [OF hrn_reachable_minv assms(2,3)] hrn_pop_mem [OF hrn_reachable_minv assms(2)]
    assms(1)
  by (simp add: effectivePriority_rank)

theorem hrn_pop_highest_witness:
  "effectivePriority 30000000000 (store (mem demo_state) ! 1)
    \<le> effectivePriority 30000000000 (store (mem demo_state) ! 0)"
proof -
  obtain m' where "hrn_pop (clock demo_state) (mem demo_state) = Some (0, m')"
    by (simp add: demo_state_def queue_simps Let_def heap_down_stop nth_Cons)
  from hrn_pop_highest [OF demo_reachable this, of 1 30000000000] show ?thesis
    by (simp add: demo_state_def)
qed


text \<open>Ageing prevents starvation: a waiter that arrived more than ten seconds per point of priority
  before another one is never overtaken by it; as long as it is queued, \<open>Release\<close> does not pop the
  later one.\<close>

theorem hrn_ageing:
  assumes "hrn_reachable n s" "v \<in> set (order (mem s))"
    and "priority (store (mem s) ! w) - priority (store (mem s) ! v)
      < real_of_int (enqueuedAt (store (mem s) ! w) - enqueuedAt (store (mem s) ! v)) / 10000000000"
  shows "hrn_pop (clock s) (mem s) \<noteq> Some (w, m')"
proof
  assume pop: "hrn_pop (clock s) (mem s) = Some (w, m')"
  have "rank (store (mem s) ! v) \<le> rank (store (mem s) ! w)"
    using hrn_pop_max [OF hrn_reachable_minv pop assms(2)] assms(1) by simp
  with assms(3) show False by (simp add: rank_def field_simps)
qed

theorem hrn_ageing_witness:
  "hrn_pop (clock demo_state) (mem demo_state) \<noteq> Some (1, mem demo_state)"
  by (rule hrn_ageing [OF demo_reachable, of 0]) (simp_all add: demo_state_def)


text \<open>C20: The index each waiter records is its position in the heap, and \<open>-1\<close> exactly when it is not in the
  heap, in every reachable state, so a timer that removes by index removes its own waiter: the
  queue afterwards holds the same waiters but that one.\<close>

theorem hrn_index_exact:
  assumes "hrn_reachable n s"
  shows "(\<forall>i < length (order (mem s)). index (store (mem s) ! (order (mem s) ! i)) = int i)
    \<and> (\<forall>w < length (store (mem s)).
        (index (store (mem s) ! w) = -1 \<longleftrightarrow> w \<notin> set (order (mem s)))
        \<and> mset (order (hrn_remove t w (mem s))) = mset (order (mem s)) - {#w#})"
proof -
  note minv = hrn_reachable_minv [OF assms]
  then have inv: "hrn_inv (mem s)" by (simp add: hrn_minv_def)
  have "index (store (mem s) ! w) \<noteq> -1" if "w \<in> set (order (mem s))" for w
    using inv that by (auto simp: hrn_inv_def in_set_conv_nth)
  then show ?thesis using inv minv hrn_remove_law(3) by (auto simp: hrn_inv_def)
qed

theorem hrn_index_exact_witness:
  "index (store (mem demo_state) ! 1) = 1
    \<and> mset (order (hrn_remove 0 0 (mem demo_state))) = {#1#}"
  using hrn_index_exact [OF demo_reachable, of 0] by (simp add: demo_state_def nth_Cons)


text \<open>C8: \<open>Release\<close>, run without interference, returns, and does what its comment says: it passes the slot
  to the queued waiter with the greatest effective priority among those that have not timed out,
  and only when there is none does it put the slot back into \<open>q.sem\<close>.\<close>

theorem hrn_release_hands_over:
  assumes "hrn_reachable n s"
  shows "\<exists>m' r. release_loop hrn_ops t (mem s) = Some (m', r) \<and>
    (case r of
       None \<Rightarrow> order m' = [] \<and> (\<forall>v \<in> set (order (mem s)). wdone (store (mem s) ! v))
     | Some w \<Rightarrow> w \<in> set (order (mem s)) \<and> \<not> wdone (store (mem s) ! w)
         \<and> wch (store m' ! w) = Some True
         \<and> (\<forall>v \<in> set (order (mem s)). \<not> wdone (store (mem s) ! v) \<longrightarrow>
              effectivePriority now (store (mem s) ! v) \<le> effectivePriority now (store (mem s) ! w)))"
proof -
  have best: "rank (store m ! v) \<le> rank (store m ! w)"
    if "hrn_minv m" "release_loop hrn_ops t m = Some (m', Some w)" "v \<in> set (order m)"
      "\<not> wdone (store m ! v)" for m m' v w
    using that
  proof (induction "length (order m)" arbitrary: m rule: less_induct)
    case less
    obtain u m1 where pop: "op_pop hrn_ops t m = Some (u, m1)"
      using less.prems(2) by (subst (asm) release_loop.simps) (auto split: option.splits)
    then have hpop: "hrn_pop t m = Some (u, m1)" by (simp add: hrn_ops_def)
    note law = hrn_pop_law [OF less.prems(1) hpop]
    note set = hrnq.pop_set [OF less.prems(1) pop]
    have bound: "x < length (store m)" if "x \<in> set (order m)" for x
      using less.prems(1) that by (auto simp: hrn_minv_def hrn_inv_def)
    have same: "rank (store m1 ! x) = rank (store m ! x)" "wdone (store m1 ! x) = wdone (store m ! x)"
      if "x \<in> set (order m)" for x
      using frame_eq(1,3) [OF law(2)] core_nth(2) [OF frame_eq(2) [OF law(2)]] bound [OF that]
      by (metis nth_map)+
    show ?case
    proof (cases "wdone (store m ! u)")
      case False
      then have "\<not> wdone (store m1 ! u)" using same set by simp
      then have "w = u"
        using less.prems(2) pop by (subst (asm) release_loop.simps) (auto simp: complete_waiter_def)
      then show ?thesis using hrn_pop_max [OF less.prems(1) hpop less.prems(3)] by simp
    next
      case True
      then have rest: "release_loop hrn_ops t m1 = Some (m', Some w)"
        using less.prems(2) pop same set by (subst (asm) release_loop.simps) simp
      have "length (order m1) < length (order m)"
        using law(3) by (metis lessI size_add_mset size_mset)
      moreover have "v \<in> set (order m1)" using less.prems(3,4) True set by auto
      moreover have "w \<in> set (order m1)"
        using hrnq.release_loop_ends [OF law(1), of t] rest by auto
      ultimately show ?thesis
        using less.hyps [of m1] law(1) rest same less.prems(3,4) set by auto
    qed
  qed
  obtain m' r where run: "release_loop hrn_ops t (mem s) = Some (m', r)"
    "case r of
       None \<Rightarrow> order m' = [] \<and> core m' = core (mem s) \<and> (\<forall>w \<in> set (order (mem s)). wdone (store (mem s) ! w))
     | Some w \<Rightarrow> w \<in> set (order (mem s)) \<and> \<not> wdone (store (mem s) ! w)
         \<and> wch (store m' ! w) = Some True \<and> wdone (store m' ! w)"
    using hrnq.release_loop_ends [OF hrn_reachable_minv [OF assms]] by blast
  then show ?thesis
    using best [OF hrn_reachable_minv [OF assms]]
    by (auto simp: effectivePriority_rank split: option.splits)
qed

theorem hrn_release_hands_over_witness:
  "\<exists>m'. release_loop hrn_ops 20000000000 (mem demo_state) = Some (m', Some 0)
    \<and> wch (store m' ! 0) = Some True"
proof -
  obtain m' r where run: "release_loop hrn_ops 20000000000 (mem demo_state) = Some (m', r)"
    and r: "case r of
       None \<Rightarrow> order m' = [] \<and> (\<forall>v \<in> set (order (mem demo_state)). wdone (store (mem demo_state) ! v))
     | Some w \<Rightarrow> w \<in> set (order (mem demo_state)) \<and> \<not> wdone (store (mem demo_state) ! w)
         \<and> wch (store m' ! w) = Some True
         \<and> (\<forall>v \<in> set (order (mem demo_state)). \<not> wdone (store (mem demo_state) ! v) \<longrightarrow>
              effectivePriority 20000000000 (store (mem demo_state) ! v)
                \<le> effectivePriority 20000000000 (store (mem demo_state) ! w))"
    using hrn_release_hands_over [OF demo_reachable] by blast
  from r have "r = Some 0 \<and> wch (store m' ! 0) = Some True"
    by (cases r) (auto simp: demo_state_def effectivePriority_def)
  with run show ?thesis by blast
qed

subsection \<open>Where the comments promise more\<close>

text \<open>
  \<open>Acquire\<close> tries \<open>q.sem\<close> and then pushes its waiter, and \<open>Release\<close> looks for a waiter and then
  returns the slot, neither under one lock: a release that falls between the two halves of an
  \<open>Acquire\<close> finds nobody to wake.
\<close>

definition lost_events :: "q_event list" where
  "lost_events =
     [Arrive ''a'' 1, Move 0, Arrive ''b'' 1, Move 1, Move 0, Move 0, Move 0, Move 1, Move 1]"

definition lost_state :: "waiter qstate" where
  "lost_state =
     \<lparr>mem =
        \<lparr>store =
           [\<lparr>wch = None, wdone = False, clientID = ''b'', priority = 1, enqueuedAt = 0, index = 0\<rparr>],
         order = [0]\<rparr>,
      sem = 1, cap = 1, procs = [Served, AcqWait 0], timers = [TArmed], clock = 0\<rparr>"

lemma lost_run: "q_run hrn_ops lost_events (init_queue 1) = Some lost_state"
  by (simp add: lost_events_def lost_state_def queue_simps q_eval Let_def heap_up.simps nth_Cons)

definition lost_inv :: "waiter qstate \<Rightarrow> bool" where
  "lost_inv s \<longleftrightarrow> procs s = [Served, Refused]
     \<or> procs s = [Served, AcqWait 0] \<and> length (store (mem s)) = 1 \<and> hrn_minv (mem s)
       \<and> length (timers s) = 1 \<and> wch (store (mem s) ! 0) \<noteq> Some True"

lemma lost_inv_step:
  assumes "lost_inv s" "hrn_step s t" "length (procs t) = length (procs s)"
  shows "lost_inv t"
proof -
  have p: "procs s ! i \<in> {Served, Refused, AcqWait 0}" if "i < length (procs s)" for i
    using assms(1) that by (auto simp: lost_inv_def nth_Cons less_Suc_eq split: nat.splits)
  show ?thesis
    using assms(2) [unfolded hrn_step_def]
  proof (cases rule: q_step.cases)
    case (arrive c p)
    then show ?thesis using assms(3) by simp
  next
    case (tick u)
    then show ?thesis using assms(1) by (auto simp: lost_inv_def)
  next
    case (receive i w r)
    then have w: "w = 0" and i: "i = 1" "procs s = [Served, AcqWait 0]"
      using p [of i] assms(1) by (auto simp: lost_inv_def nth_Cons less_Suc_eq split: nat.splits)
    then have "\<not> r" using receive assms(1) by (auto simp: lost_inv_def)
    then show ?thesis using receive i by (simp add: lost_inv_def)
  next
    case (expire w won m)
    have "hrn_minv (mem s) \<Longrightarrow> length (store (mem s)) = 1 \<Longrightarrow>
      hrn_minv (set_waiter 0 (\<lambda>x. x\<lparr>wch := Some False, wdone := True\<rparr>) (mem s))"
      by (rule hrnq.minv_done) simp_all
    then show ?thesis using assms(1) expire
      by (auto simp: lost_inv_def complete_waiter_def split: if_splits)
  next
    case (expire_remove w)
    show ?thesis
    proof (cases "procs s = [Served, Refused]")
      case False
      then have inv: "procs s = [Served, AcqWait 0]" "length (store (mem s)) = 1"
        "hrn_minv (mem s)" "length (timers s) = 1" "wch (store (mem s) ! 0) \<noteq> Some True"
        using assms(1) by (auto simp: lost_inv_def)
      have law: "hrn_minv (op_remove hrn_ops (clock s) w (mem s))
          \<and> core (op_remove hrn_ops (clock s) w (mem s)) = core (mem s)"
        using hrnq.remove_law [of "mem s" w "clock s"] inv expire_remove by simp
      then show ?thesis
        using inv expire_remove core_length [OF conjunct2 [OF law]]
          core_nth(1) [OF conjunct2 [OF law], of 0]
        by (auto simp: lost_inv_def)
    qed (use expire_remove in \<open>simp add: lost_inv_def\<close>)
  qed (use p in fastforce)+
qed

text \<open>C23: A wake-up can be lost: there is a reachable state of the HRN queue with \<open>maxInflight = 1\<close> in which
  the slot is free, nobody is being served or is releasing, and a request waits in the queue; as
  long as no further request arrives it keeps waiting until its timer refuses it, although the
  slot stays free for it.\<close>

theorem hrn_lost_wakeup:
  "hrn_reachable 1 lost_state \<and> sem lost_state = 1 \<and> order (mem lost_state) = [0]
   \<and> procs lost_state = [Served, AcqWait 0]
   \<and> (\<forall>t. (\<lambda>u v. hrn_step u v \<and> length (procs v) = length (procs u))\<^sup>*\<^sup>* lost_state t \<longrightarrow>
        procs t ! 1 \<in> {AcqWait 0, Refused})"
proof -
  have reach: "hrn_reachable 1 lost_state"
    unfolding hrn_reachable_def by (rule q_run_reachable [OF lost_run q_reachable.q_init])
  have "lost_inv t"
    if "(\<lambda>u v. hrn_step u v \<and> length (procs v) = length (procs u))\<^sup>*\<^sup>* lost_state t" for t
    using that
  proof induction
    case base
    then show ?case using hrn_reachable_minv [OF reach] by (simp add: lost_inv_def lost_state_def)
  next
    case (step u v)
    then show ?case using lost_inv_step by blast
  qed
  then show ?thesis using reach by (fastforce simp: lost_inv_def lost_state_def)
qed

theorem hrn_lost_wakeup_witness: "procs lost_state ! 1 \<in> {AcqWait 0, Refused}"
  using hrn_lost_wakeup by blast

end
