(* ===== verification/LogWorkers.thy ===== *)
theory LogWorkers
  imports LogPublisher
begin

text \<open>
  The worker goroutines of \<open>internal/log/service/log_publisher.go\<close> and the channel between them and
  the requests. One event is what Go makes atomic: a send to the channel or the choice to drop, the
  cancellation of the context, one round of a \<open>select\<close>, the return of \<open>Save\<close>. The scheduler, and
  \<open>select\<close> when several of its cases are ready, choose freely. The type of what is logged is
  irrelevant here; \<open>lg_sent\<close>, \<open>lg_taken\<close> and \<open>lg_dropped\<close> record the history of the channel, \<open>lg_saved\<close>
  and \<open>lg_failed\<close> what the repository was asked to save, by the error it returned.
\<close>

subsection \<open>State and events\<close>

text \<open>
  Where a worker is: in the outer \<open>select\<close>, in the call of \<open>Save\<close> there, in the inner \<open>select\<close> after
  it has seen the cancellation, in the call of \<open>Save\<close> there, at its end.
\<close>

datatype 'l worker = Waiting | Saving 'l | Draining | DrainSaving 'l | Stopped

record 'l log_pool =
  lg_ch :: "'l list"
  lg_count :: int
  lg_workers :: "'l worker list"
  lg_cancelled :: bool
  lg_sent :: "'l list"
  lg_taken :: "'l list"
  lg_dropped :: "'l list"
  lg_saved :: "'l list"
  lg_failed :: "'l list"

definition NewLogPublisher :: "int \<Rightarrow> 'l log_pool" where
  "NewLogPublisher workers =
     \<lparr>lg_ch = [], lg_count = (if workers \<le> 0 then 1 else workers), lg_workers = [], lg_cancelled = False,
      lg_sent = [], lg_taken = [], lg_dropped = [], lg_saved = [], lg_failed = []\<rparr>"

definition Start :: "'l log_pool \<Rightarrow> 'l log_pool" where
  "Start p = p\<lparr>lg_workers := lg_workers p @ replicate (nat (lg_count p)) Waiting\<rparr>"

datatype 'l log_event = Publish 'l | Cancel | Receive nat | SeeDone nat | SaveReturns nat bool

text \<open>One round of a \<open>select\<close> of worker \<open>i\<close> that does not look at \<open>ctx.Done()\<close>: the receive, or the default.\<close>

definition worker_receive :: "nat \<Rightarrow> 'l log_pool \<Rightarrow> 'l log_pool option" where
  "worker_receive i p =
     (case lg_workers p ! i of
        Waiting \<Rightarrow>
          (case lg_ch p of
             [] \<Rightarrow> None
           | x # xs \<Rightarrow> Some (p\<lparr>lg_ch := xs, lg_taken := lg_taken p @ [x],
                              lg_workers := (lg_workers p)[i := Saving x]\<rparr>))
      | Draining \<Rightarrow>
          (case lg_ch p of
             [] \<Rightarrow> Some (p\<lparr>lg_workers := (lg_workers p)[i := Stopped]\<rparr>)
           | x # xs \<Rightarrow> Some (p\<lparr>lg_ch := xs, lg_taken := lg_taken p @ [x],
                              lg_workers := (lg_workers p)[i := DrainSaving x]\<rparr>))
      | _ \<Rightarrow> None)"

text \<open>\<open>Save\<close> returned; an error is written to the program's own log, or ignored while draining.\<close>

definition worker_saved :: "nat \<Rightarrow> bool \<Rightarrow> 'l log_pool \<Rightarrow> 'l log_pool option" where
  "worker_saved i ok p =
     (let record_it = (\<lambda>x q. if ok then q\<lparr>lg_saved := lg_saved q @ [x]\<rparr> else q\<lparr>lg_failed := lg_failed q @ [x]\<rparr>)
      in (case lg_workers p ! i of
            Saving x \<Rightarrow> Some (record_it x (p\<lparr>lg_workers := (lg_workers p)[i := Waiting]\<rparr>))
          | DrainSaving x \<Rightarrow> Some (record_it x (p\<lparr>lg_workers := (lg_workers p)[i := Draining]\<rparr>))
          | _ \<Rightarrow> None))"

fun pool_exec :: "'l log_event \<Rightarrow> 'l log_pool \<Rightarrow> 'l log_pool option" where
  "pool_exec (Publish x) p =
     Some (if length (lg_ch p) < logBufferSize
           then p\<lparr>lg_ch := lg_ch p @ [x], lg_sent := lg_sent p @ [x]\<rparr>
           else p\<lparr>lg_dropped := lg_dropped p @ [x]\<rparr>)"
| "pool_exec Cancel p = Some (p\<lparr>lg_cancelled := True\<rparr>)"
| "pool_exec (Receive i) p = (if i < length (lg_workers p) then worker_receive i p else None)"
| "pool_exec (SeeDone i) p =
     (if i < length (lg_workers p) \<and> lg_cancelled p \<and> lg_workers p ! i = Waiting
      then Some (p\<lparr>lg_workers := (lg_workers p)[i := Draining]\<rparr>) else None)"
| "pool_exec (SaveReturns i ok) p = (if i < length (lg_workers p) then worker_saved i ok p else None)"

inductive pool_reachable :: "int \<Rightarrow> 'l log_pool \<Rightarrow> bool" for workers where
  pool_start: "pool_reachable workers (Start (NewLogPublisher workers))"
| pool_next: "pool_reachable workers p \<Longrightarrow> pool_exec ev p = Some q \<Longrightarrow> pool_reachable workers q"

subsection \<open>Invariant\<close>

definition in_hand :: "'l worker \<Rightarrow> 'l multiset" where
  "in_hand w = (case w of Saving x \<Rightarrow> {#x#} | DrainSaving x \<Rightarrow> {#x#} | _ \<Rightarrow> {#})"

definition pool_inv :: "'l log_pool \<Rightarrow> bool" where
  "pool_inv p \<longleftrightarrow> length (lg_ch p) \<le> logBufferSize \<and> lg_sent p = lg_taken p @ lg_ch p
     \<and> mset (lg_taken p) =
         mset (lg_saved p) + mset (lg_failed p) + sum_list (map in_hand (lg_workers p))"

lemma sum_in_hand_update:
  assumes "i < length ws"
  shows "sum_list (map in_hand (ws[i := w])) + in_hand (ws ! i) = sum_list (map in_hand ws) + in_hand w"
  using assms
proof (induction ws arbitrary: i)
  case (Cons v ws)
  then show ?case by (cases i) (auto simp: ac_simps)
qed simp

lemma in_hand_simps [simp]:
  "in_hand Waiting = {#}" "in_hand (Saving x) = {#x#}" "in_hand Draining = {#}"
  "in_hand (DrainSaving x) = {#x#}" "in_hand Stopped = {#}"
  by (simp_all add: in_hand_def)

lemma in_hand_replicate [simp]: "sum_list (replicate k ({#} :: 'l multiset)) = {#}"
  by (induction k) auto

lemma in_hand_stopped: "set ws \<subseteq> {Stopped} \<Longrightarrow> sum_list (map in_hand ws) = {#}"
  by (induction ws) auto

lemmas worker_defs = worker_receive_def worker_saved_def

lemma pool_inv_exec:
  assumes "pool_inv p" "pool_exec ev p = Some q"
  shows "pool_inv q"
proof (cases ev)
  case (Receive i)
  then have i: "i < length (lg_workers p)" "worker_receive i p = Some q"
    using assms(2) by (auto split: if_splits)
  then show ?thesis
    using assms(1) sum_in_hand_update [OF i(1)]
    by (auto simp: pool_inv_def worker_receive_def split: worker.splits list.splits)
next
  case (SaveReturns i ok)
  then have i: "i < length (lg_workers p)" "worker_saved i ok p = Some q"
    using assms(2) by (auto split: if_splits)
  then show ?thesis
    using assms(1) sum_in_hand_update [OF i(1), of Waiting] sum_in_hand_update [OF i(1), of Draining]
    by (auto simp: pool_inv_def worker_saved_def Let_def split: worker.splits if_splits)
next
  case (SeeDone i)
  then show ?thesis
    using assms sum_in_hand_update [of i "lg_workers p" Draining]
    by (auto simp: pool_inv_def split: if_splits)
qed (use assms in \<open>auto simp: pool_inv_def split: if_splits\<close>)

lemma pool_reachable_inv: "pool_reachable n p \<Longrightarrow> pool_inv p"
proof (induction rule: pool_reachable.induct)
  case pool_start
  show ?case by (simp add: pool_inv_def Start_def NewLogPublisher_def)
qed (rule pool_inv_exec)

subsection \<open>Runs without requests\<close>

fun quiet :: "'l log_event \<Rightarrow> bool" where
  "quiet (Publish x) = False"
| "quiet Cancel = False"
| "quiet _ = True"

fun pool_run :: "'l log_event list \<Rightarrow> 'l log_pool \<Rightarrow> 'l log_pool option" where
  "pool_run [] p = Some p"
| "pool_run (ev # evs) p = (case pool_exec ev p of None \<Rightarrow> None | Some q \<Rightarrow> pool_run evs q)"

lemma pool_run_reachable: "pool_run evs p = Some q \<Longrightarrow> pool_reachable n p \<Longrightarrow> pool_reachable n q"
  by (induction evs arbitrary: p) (auto split: option.splits intro: pool_next)

definition worker_weight :: "'l worker \<Rightarrow> nat" where
  "worker_weight w =
     (case w of Waiting \<Rightarrow> 2 | Saving x \<Rightarrow> 4 | Draining \<Rightarrow> 1 | DrainSaving x \<Rightarrow> 3 | Stopped \<Rightarrow> 0)"

definition pool_measure :: "'l log_pool \<Rightarrow> nat" where
  "pool_measure p = 3 * length (lg_ch p) + sum_list (map worker_weight (lg_workers p))"

lemma worker_weight_simps [simp]:
  "worker_weight Waiting = 2" "worker_weight (Saving x) = 4" "worker_weight Draining = 1"
  "worker_weight (DrainSaving x) = 3" "worker_weight Stopped = 0"
  by (simp_all add: worker_weight_def)

lemma quiet_measure:
  assumes "quiet ev" "pool_exec ev p = Some q"
  shows "pool_measure q < pool_measure p"
proof (cases ev)
  case (Receive i)
  then have i: "i < length (lg_workers p)" "worker_receive i p = Some q"
    using assms(2) by (auto split: if_splits)
  then show ?thesis
    using sum_list_map_update [OF i(1), of worker_weight "Saving (hd (lg_ch p))"]
      sum_list_map_update [OF i(1), of worker_weight "DrainSaving (hd (lg_ch p))"]
      sum_list_map_update [OF i(1), of worker_weight Stopped]
    by (auto simp: pool_measure_def worker_receive_def split: worker.splits list.splits)
next
  case (SeeDone i)
  then show ?thesis
    using assms(2) sum_list_map_update [of i "lg_workers p" worker_weight Draining]
    by (auto simp: pool_measure_def split: if_splits)
next
  case (SaveReturns i ok)
  then have i: "i < length (lg_workers p)" "worker_saved i ok p = Some q"
    using assms(2) by (auto split: if_splits)
  then show ?thesis
    using sum_list_map_update [OF i(1), of worker_weight Waiting]
      sum_list_map_update [OF i(1), of worker_weight Draining]
    by (auto simp: pool_measure_def worker_saved_def Let_def split: worker.splits if_splits)
qed (use assms in auto)

lemma quiet_run_length:
  assumes "list_all quiet evs" "pool_run evs p = Some q"
  shows "length evs \<le> pool_measure p"
  using assms
proof (induction evs arbitrary: p)
  case (Cons ev evs)
  then obtain r where r: "pool_exec ev p = Some r" "pool_run evs r = Some q"
    by (auto split: option.splits)
  then show ?case using Cons.IH [of r] Cons.prems(1) quiet_measure [of ev p r] by simp
qed simp

text \<open>While a worker is left, or once the channel is empty, nothing can be left behind.\<close>

definition drain_inv :: "'l log_pool \<Rightarrow> bool" where
  "drain_inv p \<longleftrightarrow> lg_cancelled p \<and> lg_workers p \<noteq> [] \<and>
     (lg_ch p = [] \<or> (\<exists>w \<in> set (lg_workers p). w \<noteq> Stopped))"

lemma drain_inv_exec:
  assumes "drain_inv p" "quiet ev" "pool_exec ev p = Some q"
  shows "drain_inv q \<and> lg_sent q = lg_sent p"
proof -
  have new: "\<exists>w \<in> set ((lg_workers p)[i := w]). w \<noteq> Stopped"
    if "i < length (lg_workers p)" "w \<noteq> Stopped" for i and w :: "'a worker"
    using that in_set_update_new [of i "lg_workers p" w] by blast
  show ?thesis
  proof (cases ev)
    case (Receive i)
    then show ?thesis using assms new
      by (auto simp: drain_inv_def worker_receive_def split: if_splits worker.splits list.splits)
  next
    case (SeeDone i)
    then show ?thesis using assms new by (auto simp: drain_inv_def split: if_splits)
  next
    case (SaveReturns i ok)
    then show ?thesis using assms new
      by (auto simp: drain_inv_def worker_saved_def Let_def split: if_splits worker.splits)
  qed (use assms in auto)
qed

lemma drain_inv_run:
  "drain_inv p \<Longrightarrow> list_all quiet evs \<Longrightarrow> pool_run evs p = Some q \<Longrightarrow> drain_inv q \<and> lg_sent q = lg_sent p"
  by (induction evs arbitrary: p) (auto split: option.splits dest: drain_inv_exec)

lemma stuck_stopped:
  assumes "lg_cancelled p" "\<And>ev. quiet ev \<Longrightarrow> pool_exec ev p = None" "w \<in> set (lg_workers p)"
  shows "w = Stopped"
proof -
  obtain i where i: "i < length (lg_workers p)" "lg_workers p ! i = w"
    using assms(3) by (auto simp: in_set_conv_nth)
  show ?thesis
  proof (cases w)
    case Waiting
    then show ?thesis using assms(1) assms(2) [of "SeeDone i"] i by simp
  next
    case Draining
    then show ?thesis using assms(2) [of "Receive i"] i
      by (auto simp: worker_receive_def split: list.splits)
  next
    case (Saving x)
    then show ?thesis using assms(2) [of "SaveReturns i True"] i
      by (simp add: worker_saved_def)
  next
    case (DrainSaving x)
    then show ?thesis using assms(2) [of "SaveReturns i True"] i
      by (simp add: worker_saved_def)
  qed simp
qed

subsection \<open>Properties\<close>


definition drain_events :: "nat log_event list" where
  "drain_events = [SeeDone 0, Receive 0, SaveReturns 0 True, Receive 0]"

definition drain_start :: "nat log_pool" where
  "drain_start =
     (Start (NewLogPublisher 0))\<lparr>lg_ch := [5], lg_sent := [5], lg_cancelled := True\<rparr>"

lemma drain_start_reachable: "pool_reachable 0 drain_start"
proof -
  have "pool_run [Publish 5, Cancel] (Start (NewLogPublisher 0)) = Some drain_start"
    by (simp add: drain_start_def Start_def NewLogPublisher_def logBufferSize_def)
  then show ?thesis using pool_run_reachable pool_start by blast
qed


text \<open>C10: After the cancellation nothing is left behind, if nobody logs any more: as long as one worker is
  still running when the context is cancelled, every run of the workers is finite, and where no
  worker can move any more, all of them have ended, the channel is empty, and every document that was
  ever sent has been handed to the repository.\<close>

theorem log_drained:
  assumes "pool_reachable workers p" "lg_cancelled p" "w \<in> set (lg_workers p)" "w \<noteq> Stopped"
    and "list_all quiet evs" "pool_run evs p = Some q"
  shows "length evs \<le> pool_measure p
    \<and> ((\<forall>ev. quiet ev \<longrightarrow> pool_exec ev q = None) \<longrightarrow>
        lg_ch q = [] \<and> set (lg_workers q) = {Stopped} \<and> lg_sent q = lg_sent p
        \<and> mset (lg_sent p) = mset (lg_saved q) + mset (lg_failed q))"
proof -
  have "drain_inv p" using assms(2-4) by (auto simp: drain_inv_def)
  then have q: "drain_inv q" "lg_sent q = lg_sent p" using drain_inv_run assms(5,6) by blast+
  have inv: "pool_inv q" using pool_reachable_inv pool_run_reachable [OF assms(6,1)] by blast
  have hands: "sum_list (map in_hand ws) = {#}" if "set ws = {Stopped}" for ws :: "'a worker list"
    using that by (simp add: in_hand_stopped)
  have "lg_ch q = [] \<and> set (lg_workers q) = {Stopped} \<and> mset (lg_sent q) = mset (lg_saved q) + mset (lg_failed q)"
    if stuck: "\<forall>ev. quiet ev \<longrightarrow> pool_exec ev q = None"
  proof -
    have all: "set (lg_workers q) = {Stopped}"
      using stuck_stopped [of q] stuck q(1) by (auto simp: drain_inv_def) (metis list.set_sel(1))+
    then have "lg_ch q = []" using q(1) by (auto simp: drain_inv_def)
    then show ?thesis using inv all hands by (simp add: pool_inv_def)
  qed
  then show ?thesis using quiet_run_length [OF assms(5,6)] q(2) by auto
qed

theorem log_drained_witness:
  "\<exists>q. pool_run drain_events drain_start = Some q \<and> lg_ch q = [] \<and> mset (lg_saved q) + mset (lg_failed q) = {#5#}"
proof -
  let ?q = "drain_start\<lparr>lg_ch := [], lg_taken := [5], lg_saved := [5], lg_workers := [Stopped]\<rparr>"
  have run: "pool_run drain_events drain_start = Some ?q"
    by (simp add: drain_events_def drain_start_def Start_def NewLogPublisher_def worker_defs)
  have stuck: "\<forall>ev. quiet ev \<longrightarrow> pool_exec ev ?q = None"
  proof (intro allI impI)
    fix ev :: "nat log_event"
    assume "quiet ev"
    then show "pool_exec ev ?q = None" by (cases ev) (auto simp: worker_defs less_Suc_eq)
  qed
  have "list_all quiet drain_events" by (simp add: drain_events_def)
  then show ?thesis
    using log_drained [OF drain_start_reachable _ _ _ _ run, of Waiting] run stuck
    by (simp add: drain_start_def Start_def NewLogPublisher_def)
qed

end
