(* ===== verification/Server.thy ===== *)
theory Server
  imports CacheRuns Middleware HRNQueue LogWorkers
begin

text \<open>
  \<open>cmd/main.go\<close>: how the program puts its parts together from the configuration, and the properties that
  depend on the values of the configuration. What the program does not contain is in \<open>externals\<close>. The
  running queue and the log workers are state machines of their own, so the request path gets the
  queue as an interface, and \<open>wire\<close> also gives the states in which these two machines start.
\<close>

record 'e externals =
  xt_new_cache :: "int \<Rightarrow> int \<Rightarrow> ('e, bytes) go_cache"
  xt_new_verdicts :: "int \<Rightarrow> int \<Rightarrow> ('e, unit result) go_cache"
  xt_redis :: "'e redis_client"
  xt_gorm :: "'e gorm"
  xt_regexp :: regexp_match
  xt_LookupHost :: "gostring \<Rightarrow> ('e, gostring list result) action"
  xt_pool :: "'e \<Rightarrow> (gostring, http_client) gomap"
  xt_set_pool :: "(gostring, http_client) gomap \<Rightarrow> 'e \<Rightarrow> 'e"
  xt_Do :: "http_client \<Rightarrow> out_request \<Rightarrow> ('e, http_response result) action"
  xt_request_error :: "gostring \<Rightarrow> gostring \<Rightarrow> gostring"
  xt_log :: "'e log_publisher"
  xt_minute :: "'e \<Rightarrow> civil_time"
  xt_bcrypt :: bcrypt_compare
  xt_queue :: "'e request_queue"
  xt_debug :: bool

text \<open>\<open>validator.New\<close>, with the lifetime of a verdict and the interval of the cleanup.\<close>

definition NewDomainValidator ::
  "(int \<Rightarrow> int \<Rightarrow> ('e, unit result) go_cache) \<Rightarrow> (gostring \<Rightarrow> ('e, gostring list result) action)
    \<Rightarrow> 'e domain_validator" where
  "NewDomainValidator new_cache lookup =
     \<lparr>dv_cache = new_cache (5 * time_Minute) (10 * time_Minute), dv_LookupHost = lookup\<rparr>"

text \<open>The constructors of the services and handlers. The logger is left out.\<close>

definition NewPipeline ::
  "'e query_deps \<Rightarrow> (gostring \<Rightarrow> request_info \<Rightarrow> ('e, proxy_response result) action) \<Rightarrow> 'e log_publisher
    \<Rightarrow> 'e rate_limiter \<Rightarrow> 'e repositories \<Rightarrow> 'e pipeline" where
  "NewPipeline queries httpReq logPublisher limiter stateSvc =
     \<lparr>pl_query = queries, pl_httpReq = httpReq, pl_log = logPublisher, pl_limiter = limiter,
      pl_state = stateSvc\<rparr>"

definition NewHealthService ::
  "(gostring \<Rightarrow> request_info \<Rightarrow> ('e, proxy_response result) action) \<Rightarrow> 'e domain_validator
    \<Rightarrow> 'e health_service" where
  "NewHealthService httpReq v = \<lparr>hv_httpReq = httpReq, hv_validator = v\<rparr>"

definition NewProxyHandler :: "'e pipeline \<Rightarrow> bcrypt_compare \<Rightarrow> bool \<Rightarrow> 'e proxy_handler" where
  "NewProxyHandler p bcrypt debug = \<lparr>ph_pipeline = p, ph_bcrypt = bcrypt, ph_debug = debug\<rparr>"

definition NewQueueMiddleware ::
  "'e request_queue \<Rightarrow> priority_service \<Rightarrow> 'e redis_client \<Rightarrow> 'e queue_middleware" where
  "NewQueueMiddleware requestQueue prioritySvc rc =
     \<lparr>qm_queue = requestQueue, qm_priority = prioritySvc, qm_redis = rc\<rparr>"

record http_server =
  ht_Addr :: gostring
  ht_ReadTimeout :: int
  ht_WriteTimeout :: int
  ht_IdleTimeout :: int

record 'e app =
  ap_server :: "'e server"
  ap_router :: router
  ap_cors :: cors_settings
  ap_queue :: "waiter qstate option"
  ap_log :: "proxy_log log_pool"
  ap_http :: http_server

definition wire :: "unicode_tables \<Rightarrow> 'e externals \<Rightarrow> config \<Rightarrow> 'e app" where
  "wire U x cfg =
     (let cacheService = NewTwoLevelCache (xt_new_cache x) (Cache cfg) (xt_redis x);
          repos = gorm_repositories (xt_gorm x);
          queries = json_queries U cacheService (xt_gorm x) (xt_regexp x);
          logWorkers = Start (NewLogPublisher (Workers (Log cfg)));
          domainValidator = NewDomainValidator (xt_new_verdicts x) (xt_LookupHost x);
          httpRequester = Request U
            \<lparr>hd_validator = domainValidator, hd_pool = xt_pool x, hd_set_pool = xt_set_pool x,
             hd_Do = xt_Do x, hd_request_error = xt_request_error x\<rparr>;
          rateLimiter = NewRedisRateLimiter (xt_minute x) (xt_redis x) (RateLimit cfg);
          requestPipeline = NewPipeline queries httpRequester (xt_log x) (redis_limiter rateLimiter) repos;
          healthSvc = NewHealthService httpRequester domainValidator;
          requestQueue = NewHRNQueue (Queue cfg);
          prioritySvc = NewPriorityService (Queue cfg);
          proxyHandler = NewProxyHandler requestPipeline (xt_bcrypt x) (xt_debug x);
          queueMW = NewQueueMiddleware (xt_queue x) prioritySvc (xt_redis x)
      in \<lparr>ap_server = \<lparr>sv_queue = queueMW, sv_proxy = proxyHandler, sv_health = healthSvc\<rparr>,
          ap_router = newRouter, ap_cors = newCORSMiddleware U (CORS cfg), ap_queue = requestQueue,
          ap_log = logWorkers,
          ap_http = \<lparr>ht_Addr = '':'' @ Port (Server cfg), ht_ReadTimeout = 35 * time_Second,
            ht_WriteTimeout = 35 * time_Second, ht_IdleTimeout = 120 * time_Second\<rparr>\<rparr>)"

text \<open>The lookups of the assembled program.\<close>

lemma wire_queries:
  "pl_query (ph_pipeline (sv_proxy (ap_server (wire U x cfg)))) =
     json_queries U (NewTwoLevelCache (xt_new_cache x) (Cache cfg) (xt_redis x)) (xt_gorm x) (xt_regexp x)"
  by (simp add: wire_def Let_def NewPipeline_def NewProxyHandler_def)

subsection \<open>Properties\<close>

text \<open>C40: With the default configuration waiting never makes up for failures: as long as two requests of the
  HRN queue are within the acquire timeout, the one of the client with fewer recorded failures (and
  fewer than 15) is preferred, however long the other one has waited, because a second of waiting
  counts 0.1 and a failure 0.2.\<close>

theorem failures_outweigh_ageing:
  assumes "hrn_reachable slots q" "v \<in> set (order (mem q))"
    and "priority (store (mem q) ! v) = calculatePriority (NewPriorityService (Queue default_config)) m"
    and "priority (store (mem q) ! w) = calculatePriority (NewPriorityService (Queue default_config)) n"
    and "0 \<le> m" "m < n" "m < 15"
    and "enqueuedAt (store (mem q) ! v) \<le> clock q"
    and "clock q \<le> enqueuedAt (store (mem q) ! w) + AcquireTimeout (Queue default_config)"
  shows "hrn_pop (clock q) (mem q) \<noteq> Some (w, mem')"
proof
  assume pop: "hrn_pop (clock q) (mem q) = Some (w, mem')"
  have "rank (store (mem q) ! v) \<le> rank (store (mem q) ! w)"
    using hrn_pop_max [OF hrn_reachable_minv pop assms(2)] assms(1) by simp
  moreover have "real_of_int (enqueuedAt (store (mem q) ! v)) - real_of_int (enqueuedAt (store (mem q) ! w)) \<le> 1000000000"
    using assms(8,9) by (simp add: default_config_eq)
  moreover have "calculatePriority (NewPriorityService (Queue default_config)) m = 1 - real_of_int m * 0.2"
    using assms(7) by (simp add: calculatePriority_max NewPriorityService_def default_config_eq)
  moreover have "calculatePriority (NewPriorityService (Queue default_config)) n
      \<le> 1 - real_of_int m * 0.2 - 0.2"
  proof -
    have "real_of_int m + 1 \<le> real_of_int n" "real_of_int m \<le> 14" using assms(6,7) by linarith+
    then show ?thesis by (simp add: calculatePriority_max NewPriorityService_def default_config_eq)
  qed
  ultimately show False using assms(3,4) by (simp add: rank_def field_simps)
qed

definition failed_events :: "q_event list" where
  "failed_events =
     [Arrive ''a'' 1, Move 0, Arrive ''b'' 0.8, Move 1, Move 1, Move 1, Tick 900000000,
      Arrive ''c'' 1, Move 2, Move 2, Move 2]"

theorem failures_outweigh_ageing_witness:
  "\<exists>q. q_run hrn_ops failed_events (init_queue 1) = Some q \<and> hrn_pop (clock q) (mem q) \<noteq> Some (0, mem q)"
proof -
  define q where "q = the (q_run hrn_ops failed_events (init_queue 1))"
  have run: "q_run hrn_ops failed_events (init_queue 1) = Some q"
    and v: "1 \<in> set (order (mem q))"
    and vals: "priority (store (mem q) ! 1) = 1" "enqueuedAt (store (mem q) ! 1) = 900000000"
      "priority (store (mem q) ! 0) = 0.8" "enqueuedAt (store (mem q) ! 0) = 0" "clock q = 900000000"
    by (simp_all add: q_def failed_events_def queue_simps q_eval Let_def heap_up.simps nth_Cons)
  have reach: "hrn_reachable 1 q"
    unfolding hrn_reachable_def by (rule q_run_reachable [OF run q_reachable.q_init])
  have "hrn_pop (clock q) (mem q) \<noteq> Some (0, mem q)"
    by (rule failures_outweigh_ageing [OF reach v, where m = 0 and n = 1])
      (simp_all add: vals vals(1,2) [unfolded One_nat_def] calculatePriority_max NewPriorityService_def default_config_eq)
  then show ?thesis using run by blast
qed

text \<open>Which origins may read answers: for an origin and a list of allowed ones in ASCII, the check accepts
  exactly an origin that equals an allowed one up to letter case, or that starts with
  \<open>http://localhost:\<close> or \<open>https://localhost:\<close> in lower case.\<close>

theorem cors_origin_iff:
  assumes "list_all is_ascii origin" "list_all (list_all is_ascii) (AllowedOrigins cfg)"
  shows "cs_AllowOriginFunc (newCORSMiddleware U cfg) origin \<longleftrightarrow>
    (\<exists>allowed \<in> set (AllowedOrigins cfg). map lower_byte origin = map lower_byte allowed)
    \<or> (\<exists>rest. origin = ''http://localhost:'' @ rest \<or> origin = ''https://localhost:'' @ rest)"
proof -
  have "EqualFold U origin a \<longleftrightarrow> map lower_byte origin = map lower_byte a"
    if "a \<in> set (AllowedOrigins cfg)" for a
    using that assms by (simp add: EqualFold_ascii ToLower_ascii list_all_iff)
  then show ?thesis
    by (auto simp: newCORSMiddleware_def AllowOriginFunc_def list_ex_iff HasPrefix_iff)
qed

theorem cors_origin_iff_witness:
  "cs_AllowOriginFunc (newCORSMiddleware ascii_tables (CORS default_config)) ''https://BSSMDEV.com''
    \<and> \<not> cs_AllowOriginFunc (newCORSMiddleware ascii_tables (CORS default_config)) ''http://localhostevil''"
proof -
  have a: "list_all is_ascii ''https://BSSMDEV.com''" "list_all is_ascii ''http://localhostevil''"
    by (simp_all add: is_ascii_def byte_def)
  have b: "list_all (list_all is_ascii) (AllowedOrigins (CORS default_config))"
    by (simp add: default_config_eq is_ascii_def byte_def)
  show ?thesis
    using cors_origin_iff [OF a(1) b, of ascii_tables] cors_origin_iff [OF a(2) b, of ascii_tables]
    by (simp add: default_config_eq lower_byte_def byte_def char_of_eq_iff)
qed

end
