(* ===== verification/LogRepository.thy ===== *)
theory LogRepository
  imports LogWorkers
begin

text \<open>
  \<open>internal/log/repository/log_repository.go\<close>: saving a log document is one insertion into the collection
  \<open>proxy_logs\<close>. The MongoDB driver is a record of operations. The step relation runs the workers
  together with the repository: what \<open>Save\<close> returns to a worker is what the insertion gave.
\<close>

subsection \<open>The repository\<close>

text \<open>\<open>InsertOne\<close> gives the id of the document and perhaps an error.\<close>

record 'e mongo_collection =
  mc_InsertOne :: "proxy_log \<Rightarrow> ('e, gostring \<times> go_error option) action"

record 'e mongo_database =
  md_Collection :: "gostring \<Rightarrow> 'e mongo_collection"

record 'e log_repository =
  lr_collection :: "'e mongo_collection"

definition NewLogRepository :: "'e mongo_database \<Rightarrow> 'e log_repository" where
  "NewLogRepository db = \<lparr>lr_collection = md_Collection db ''proxy_logs''\<rparr>"

definition log_Save :: "'e log_repository \<Rightarrow> proxy_log \<Rightarrow> ('e, go_error option) action" where
  "log_Save r doc e = (case mc_InsertOne (lr_collection r) doc e of ((_, err), e') \<Rightarrow> (err, e'))"

subsection \<open>Workers and repository\<close>

text \<open>The document a worker is saving.\<close>

definition saving :: "'l worker \<Rightarrow> 'l option" where
  "saving w = (case w of Saving x \<Rightarrow> Some x | DrainSaving x \<Rightarrow> Some x | _ \<Rightarrow> None)"

definition worker_save ::
  "'e log_repository \<Rightarrow> nat \<Rightarrow> 'e \<times> proxy_log log_pool \<Rightarrow> ('e \<times> proxy_log log_pool) option" where
  "worker_save r i s =
     (case s of (e, p) \<Rightarrow>
        if i < length (lg_workers p) then
          (case saving (lg_workers p ! i) of
             None \<Rightarrow> None
           | Some x \<Rightarrow>
               (case log_Save r x e of (err, e') \<Rightarrow>
                  map_option (Pair e') (pool_exec (SaveReturns i (err = None)) p)))
        else None)"

text \<open>The other events of the pool do not touch the database; what happens outside leaves the
  collection alone, whose documents \<open>docs\<close> gives.\<close>

fun saves :: "'l log_event \<Rightarrow> bool" where
  "saves (SaveReturns i ok) = True"
| "saves _ = False"

inductive store_step ::
  "('e \<Rightarrow> proxy_log multiset) \<Rightarrow> 'e log_repository \<Rightarrow> 'e \<times> proxy_log log_pool \<Rightarrow> 'e \<times> proxy_log log_pool \<Rightarrow> bool"
  for docs r where
  store_pool: "\<not> saves ev \<Longrightarrow> pool_exec ev p = Some q \<Longrightarrow> store_step docs r (e, p) (e, q)"
| store_save: "worker_save r i s = Some s' \<Longrightarrow> store_step docs r s s'"
| store_outside: "docs e' = docs e \<Longrightarrow> store_step docs r (e, p) (e', p)"

inductive store_reachable ::
  "('e \<Rightarrow> proxy_log multiset) \<Rightarrow> 'e log_repository \<Rightarrow> int \<Rightarrow> 'e \<Rightarrow> 'e \<times> proxy_log log_pool \<Rightarrow> bool"
  for docs r workers e0 where
  store_start: "store_reachable docs r workers e0 (e0, Start (NewLogPublisher workers))"
| store_next: "store_reachable docs r workers e0 s \<Longrightarrow> store_step docs r s s' \<Longrightarrow>
    store_reachable docs r workers e0 s'"

text \<open>
  The behaviour of an insertion: without an error the document is in the collection; with an error, a
  lost connection for example, it may be there or not.
\<close>

definition insert_law :: "('e \<Rightarrow> proxy_log multiset) \<Rightarrow> 'e mongo_collection \<Rightarrow> bool" where
  "insert_law docs c \<longleftrightarrow>
     (\<forall>x e i err e'. mc_InsertOne c x e = ((i, err), e') \<longrightarrow>
        docs e' = add_mset x (docs e) \<or> (err \<noteq> None \<and> docs e' = docs e))"

lemma log_Save_docs:
  assumes "insert_law docs (lr_collection r)" "log_Save r x e = (err, e')"
  shows "docs e' = add_mset x (docs e) \<or> (err \<noteq> None \<and> docs e' = docs e)"
  using assms by (auto simp: insert_law_def log_Save_def split: prod.splits)

text \<open>The pool alone takes a step that its own model has, or none.\<close>

lemma store_step_pool:
  "store_step docs r s s' \<Longrightarrow> snd s' = snd s \<or> (\<exists>ev. pool_exec ev (snd s) = Some (snd s'))"
  by (induction rule: store_step.induct)
    (auto simp: worker_save_def simp del: pool_exec.simps split: prod.splits if_splits option.splits)

lemma store_reachable_pool: "store_reachable docs r n e0 s \<Longrightarrow> pool_reachable n (snd s)"
proof (induction rule: store_reachable.induct)
  case (store_next s s')
  then show ?case using store_step_pool pool_next by metis
qed (simp add: pool_start)

definition stored_inv :: "('e \<Rightarrow> proxy_log multiset) \<Rightarrow> 'e \<Rightarrow> 'e \<times> proxy_log log_pool \<Rightarrow> bool" where
  "stored_inv docs e0 s \<longleftrightarrow>
     (\<exists>late. late \<subseteq># mset (lg_failed (snd s)) \<and> docs (fst s) = docs e0 + mset (lg_saved (snd s)) + late)"

lemma pool_exec_history:
  assumes "pool_exec ev p = Some q" "\<not> saves ev"
  shows "lg_saved q = lg_saved p" "lg_failed q = lg_failed p"
  using assms
  by (cases ev; auto simp: worker_receive_def split: if_splits worker.splits list.splits)+

lemma worker_saved_history:
  assumes "pool_exec (SaveReturns i ok) p = Some q" "saving (lg_workers p ! i) = Some x"
  shows "lg_saved q = lg_saved p @ (if ok then [x] else [])"
    "lg_failed q = lg_failed p @ (if ok then [] else [x])"
  using assms by (auto simp: worker_saved_def saving_def Let_def split: if_splits worker.splits)

lemma stored_inv_step:
  assumes "store_step docs r s s'" "insert_law docs (lr_collection r)" "stored_inv docs e0 s"
  shows "stored_inv docs e0 s'"
  using assms(1,3)
proof (cases rule: store_step.cases)
  case (store_pool ev p q e)
  then show ?thesis using assms(3) pool_exec_history [OF store_pool(4,3)] by (simp add: stored_inv_def)
next
  case (store_outside e' e p)
  then show ?thesis using assms(3) by (simp add: stored_inv_def)
next
  case (store_save i)
  obtain e p where s: "s = (e, p)" by fastforce
  obtain x err e' q where x: "saving (lg_workers p ! i) = Some x" "log_Save r x e = (err, e')"
    "pool_exec (SaveReturns i (err = None)) p = Some q" "s' = (e', q)"
    using store_save unfolding s worker_save_def by (auto simp del: pool_exec.simps split: if_splits option.splits prod.splits)
  note hist = worker_saved_history [OF x(3,1)]
  obtain late where late: "late \<subseteq># mset (lg_failed p)" "docs e = docs e0 + mset (lg_saved p) + late"
    using assms(3) by (auto simp: s stored_inv_def)
  from log_Save_docs [OF assms(2) x(2)] show ?thesis
  proof
    assume d: "docs e' = add_mset x (docs e)"
    show ?thesis
    proof (cases "err = None")
      case True
      then show ?thesis using late hist d x(4) by (auto simp: stored_inv_def)
    next
      case False
      then show ?thesis
        using late hist d x(4) by (auto simp: stored_inv_def intro!: exI [of _ "add_mset x late"])
    qed
  next
    assume d: "err \<noteq> None \<and> docs e' = docs e"
    then show ?thesis
      using late hist x(4) by (auto simp: stored_inv_def intro!: exI [of _ late] subset_mset.order_trans [OF late(1)])
  qed
qed

lemma stored_inv_reachable:
  assumes "store_reachable docs r n e0 s" "insert_law docs (lr_collection r)"
  shows "stored_inv docs e0 s"
  using assms
proof (induction rule: store_reachable.induct)
  case store_start
  show ?case by (simp add: stored_inv_def Start_def NewLogPublisher_def)
qed (rule stored_inv_step)

subsection \<open>Properties\<close>

text \<open>C11: The collection holds what was logged: in every interleaving of requests, workers and database, with
  insertions that fail at any time, the collection contains, beside what it had, every document whose
  insertion succeeded, and nothing but documents that requests have sent, each at most as often as it
  was sent; what is missing is in the channel, in the hands of a worker, or its insertion failed.\<close>

theorem logs_stored:
  assumes "insert_law docs (md_Collection db ''proxy_logs'')"
    and "store_reachable docs (NewLogRepository db) workers e0 (e, p)"
  shows "docs e0 + mset (lg_saved p) \<subseteq># docs e \<and> docs e \<subseteq># docs e0 + mset (lg_sent p)
    \<and> docs e0 + mset (lg_sent p) \<subseteq>#
        docs e + mset (lg_ch p) + sum_list (map in_hand (lg_workers p)) + mset (lg_failed p)"
proof -
  have law: "insert_law docs (lr_collection (NewLogRepository db))"
    using assms(1) by (simp add: NewLogRepository_def)
  obtain late where late: "late \<subseteq># mset (lg_failed p)" "docs e = docs e0 + mset (lg_saved p) + late"
    using stored_inv_reachable [OF assms(2) law] by (auto simp: stored_inv_def)
  have sent: "mset (lg_sent p) = mset (lg_ch p) + sum_list (map in_hand (lg_workers p))
      + mset (lg_saved p) + mset (lg_failed p)"
    using pool_reachable_inv [OF store_reachable_pool [OF assms(2)]] by (simp add: pool_inv_def ac_simps)
  obtain rest where rest: "mset (lg_failed p) = late + rest"
    using late(1) by (metis subset_mset.add_diff_inverse)
  show ?thesis
    by (auto simp: late(2) sent rest ac_simps intro: subset_mset.add_increasing2
        mset_subset_eq_add_left mset_subset_eq_mono_add)
qed

text \<open>A collection as a list: the insertion adds to it.\<close>

definition list_database :: "proxy_log list mongo_database" where
  "list_database = \<lparr>md_Collection = (\<lambda>_. \<lparr>mc_InsertOne = (\<lambda>x e. ((''id'', None), e @ [x]))\<rparr>)\<rparr>"

theorem logs_stored_witness:
  "\<forall>x. \<exists>e p. store_reachable mset (NewLogRepository list_database) 0 [] (e, p) \<and> lg_sent p = [x]
     \<and> lg_ch p = [] \<and> e = [x] \<and> mset e \<subseteq># mset (lg_sent p)"
proof
  fix x
  let ?r = "NewLogRepository list_database"
  let ?p0 = "Start (NewLogPublisher 0) :: proxy_log log_pool"
  let ?p1 = "?p0\<lparr>lg_ch := [x], lg_sent := [x]\<rparr>"
  let ?p2 = "?p1\<lparr>lg_ch := [], lg_taken := [x], lg_workers := [Saving x]\<rparr>"
  let ?p3 = "?p2\<lparr>lg_workers := [Waiting], lg_saved := [x]\<rparr>"
  note defs = Start_def NewLogPublisher_def logBufferSize_def worker_defs
  have law: "insert_law mset (md_Collection list_database ''proxy_logs'')"
    by (simp add: insert_law_def list_database_def)
  have "store_step mset ?r ([], ?p0) ([], ?p1)"
    by (rule store_pool [where ev = "Publish x"]) (simp_all add: defs)
  moreover have "store_step mset ?r ([], ?p1) ([], ?p2)"
    by (rule store_pool [where ev = "Receive 0"]) (simp_all add: defs)
  moreover have "store_step mset ?r ([], ?p2) ([x], ?p3)"
    by (rule store_save [where i = 0])
      (simp add: worker_save_def saving_def log_Save_def NewLogRepository_def list_database_def defs)
  ultimately have reach: "store_reachable mset ?r 0 [] ([x], ?p3)"
    by (meson store_start store_next)
  have "mset [x] \<subseteq># mset [] + mset (lg_sent ?p3)"
    using logs_stored [OF law reach] by blast
  then show "\<exists>e p. store_reachable mset ?r 0 [] (e, p) \<and> lg_sent p = [x] \<and> lg_ch p = []
      \<and> e = [x] \<and> mset e \<subseteq># mset (lg_sent p)"
    using reach by (intro exI [of _ "[x]"] exI [of _ ?p3]) simp
qed

end
