(* ===== verification/Lifecycle.thy ===== *)
theory Lifecycle
  imports Server LogRepository
begin

text \<open>
  \<open>main\<close> of \<open>cmd/main.go\<close> from the first line to the last: reading the configuration, the connections,
  the wiring, then the wait for a signal and the shutdown. What comes before the server listens is a
  function, which ends with the started program or with the reason why it does not start; what follows
  is a state machine in which requests, log workers and the clock interleave with the steps of \<open>main\<close>.
\<close>

subsection \<open>Connections\<close>

record sql_pool =
  sp_MaxIdleConns :: int
  sp_MaxOpenConns :: int
  sp_ConnMaxLifetime :: int

record redis_options =
  ro_Addr :: gostring
  ro_Password :: gostring
  ro_DB :: int
  ro_PoolSize :: int

text \<open>
  The drivers. A context with a timeout is the point in time when it expires. \<open>dr_DB\<close> is \<open>db.DB()\<close>,
  \<open>None\<close> for the nil pointer that comes with an error, otherwise what the three setters do together.
\<close>

record 'e mongo_client =
  mg_Ping :: "int \<Rightarrow> ('e, unit result) action"
  mg_Database :: "gostring \<Rightarrow> 'e mongo_database"

record 'e drivers =
  dr_Now :: "'e \<Rightarrow> int"
  dr_gorm_Open :: "gostring \<Rightarrow> ('e, 'e gorm result) action"
  dr_DB :: "'e gorm \<Rightarrow> (sql_pool \<Rightarrow> 'e \<Rightarrow> 'e) option"
  dr_redis_NewClient :: "redis_options \<Rightarrow> 'e redis_client"
  dr_mongo_Connect :: "int \<Rightarrow> gostring \<Rightarrow> ('e, 'e mongo_client result) action"

text \<open>Why the program does not start: a panic, or \<open>logger.Fatal\<close>, which ends the process with code 1.\<close>

datatype start_failure = Panicked gostring | Fatal gostring go_error

definition failed_text :: gostring where
  "failed_text = utf8 [0xC2E4, 0xD328]"

definition connect_failed_text :: gostring where
  "connect_failed_text = utf8 [0xC5F0, 0xACB0] @ '' '' @ failed_text"

definition newMySQL :: "'e drivers \<Rightarrow> mysql_config \<Rightarrow> ('e, start_failure + 'e gorm) action" where
  "newMySQL dr cfg e =
     (case dr_gorm_Open dr (DSN cfg) e of
        (Err err, e1) \<Rightarrow> (Inl (Fatal (''MySQL '' @ connect_failed_text) err), e1)
      | (Ok db, e1) \<Rightarrow>
          (case dr_DB dr db of
             None \<Rightarrow> (Inl (Panicked ''nil pointer dereference''), e1)
           | Some setup \<Rightarrow>
               (Inr db, setup \<lparr>sp_MaxIdleConns = 10, sp_MaxOpenConns = 100, sp_ConnMaxLifetime = time_Hour\<rparr> e1)))"

definition newRedis :: "'e drivers \<Rightarrow> redis_config \<Rightarrow> 'e redis_client" where
  "newRedis dr cfg =
     dr_redis_NewClient dr
       \<lparr>ro_Addr = Addr cfg, ro_Password = Password cfg, ro_DB = DB cfg, ro_PoolSize = PoolSize cfg\<rparr>"

definition newMongoDB :: "'e drivers \<Rightarrow> mongo_config \<Rightarrow> ('e, start_failure + 'e mongo_database) action" where
  "newMongoDB dr cfg e =
     (let ctx = dr_Now dr e + 10 * time_Second in
      (case dr_mongo_Connect dr ctx (URI cfg) e of
         (Err err, e1) \<Rightarrow> (Inl (Fatal (''MongoDB '' @ connect_failed_text) err), e1)
       | (Ok client, e1) \<Rightarrow>
           (case mg_Ping client ctx e1 of
              (Err err, e2) \<Rightarrow> (Inl (Fatal (''MongoDB ping '' @ failed_text) err), e2)
            | (Ok _, e2) \<Rightarrow> (Inr (mg_Database client (Database cfg)), e2))))"

text \<open>The connections are made in this order; the rest of the wiring does nothing outside.\<close>

definition main_setup ::
  "unicode_tables \<Rightarrow> ('e, 'v) viper \<Rightarrow> 'e drivers \<Rightarrow> 'e externals
    \<Rightarrow> ('e, start_failure + 'e app \<times> 'e log_repository) action" where
  "main_setup U vp dr x e =
     (case Load vp e of
        Inl msg \<Rightarrow> (Inl (Panicked msg), e)
      | Inr cfg \<Rightarrow>
          (case newMySQL dr (MySQL cfg) e of
             (Inl stop, e1) \<Rightarrow> (Inl stop, e1)
           | (Inr db, e1) \<Rightarrow>
               let redisClient = newRedis dr (Redis cfg) in
               (case newMongoDB dr (MongoDB cfg) e1 of
                  (Inl stop, e2) \<Rightarrow> (Inl stop, e2)
                | (Inr mongoDB, e2) \<Rightarrow>
                    (Inr (wire U (x\<lparr>xt_redis := redisClient, xt_gorm := db\<rparr>) cfg, NewLogRepository mongoDB),
                     e2))))"

subsection \<open>The running process\<close>

text \<open>
  Where \<open>main\<close> is: before and after it has received the signal, in \<open>srv.Shutdown\<close>, in its deferred
  calls before and after the cancellation of the workers' context; or the process has ended. The
  exit code is 1 when \<open>ListenAndServe\<close> failed. \<open>mn_signal\<close> is the channel of signals with its one place.
\<close>

datatype main_pc = WaitSignal | GotSignal | InShutdown | ShutDown | Cancelled | Exited nat

record 'l main_state =
  mn_pc :: main_pc
  mn_signal :: bool
  mn_clock :: int
  mn_deadline :: int
  mn_inflight :: nat
  mn_pool :: "'l log_pool"

definition main_start :: "'l log_pool \<Rightarrow> 'l main_state" where
  "main_start p =
     \<lparr>mn_pc = WaitSignal, mn_signal = False, mn_clock = 0, mn_deadline = 0, mn_inflight = 0, mn_pool = p\<rparr>"

text \<open>
  The next step of \<open>main\<close>. \<open>Shutdown\<close> returns when no request is left, or with an error when its context
  has expired. The deferred calls run from the last to the first: the cancellation of the shutdown
  context, which nobody looks at any more, \<open>cancel\<close>, and \<open>logger.Sync\<close>, after which the process ends.
\<close>

definition main_step :: "'l main_state \<Rightarrow> 'l main_state option" where
  "main_step s =
     (case mn_pc s of
        WaitSignal \<Rightarrow> if mn_signal s then Some (s\<lparr>mn_pc := GotSignal, mn_signal := False\<rparr>) else None
      | GotSignal \<Rightarrow> Some (s\<lparr>mn_pc := InShutdown, mn_deadline := mn_clock s + 30 * time_Second\<rparr>)
      | InShutdown \<Rightarrow>
          if mn_inflight s = 0 \<or> mn_deadline s \<le> mn_clock s then Some (s\<lparr>mn_pc := ShutDown\<rparr>) else None
      | ShutDown \<Rightarrow> map_option (\<lambda>p. s\<lparr>mn_pc := Cancelled, mn_pool := p\<rparr>) (pool_exec Cancel (mn_pool s))
      | Cancelled \<Rightarrow> Some (s\<lparr>mn_pc := Exited 0\<rparr>)
      | Exited code \<Rightarrow> None)"

datatype 'l main_event =
  MainStep | Signal | ListenFails | RequestStart | RequestEnd | Elapse int | LogEvent "'l log_event"

text \<open>The server listens until \<open>Shutdown\<close> is called; requests that run then may go on for as long as the
  process lives, and so do the goroutines that log.\<close>

definition running :: "'l main_state \<Rightarrow> bool" where
  "running s \<longleftrightarrow> (\<forall>code. mn_pc s \<noteq> Exited code)"

definition listening :: "'l main_state \<Rightarrow> bool" where
  "listening s \<longleftrightarrow> mn_pc s \<in> {WaitSignal, GotSignal}"

fun main_exec :: "'l main_event \<Rightarrow> 'l main_state \<Rightarrow> 'l main_state option" where
  "main_exec MainStep s = main_step s"
| "main_exec Signal s = (if running s then Some (s\<lparr>mn_signal := True\<rparr>) else None)"
| "main_exec ListenFails s = (if listening s then Some (s\<lparr>mn_pc := Exited 1\<rparr>) else None)"
| "main_exec RequestStart s = (if listening s then Some (s\<lparr>mn_inflight := mn_inflight s + 1\<rparr>) else None)"
| "main_exec RequestEnd s =
     (if running s \<and> 0 < mn_inflight s then Some (s\<lparr>mn_inflight := mn_inflight s - 1\<rparr>) else None)"
| "main_exec (Elapse d) s = (if running s \<and> 0 \<le> d then Some (s\<lparr>mn_clock := mn_clock s + d\<rparr>) else None)"
| "main_exec (LogEvent ev) s =
     (if running s \<and> ev \<noteq> Cancel then map_option (\<lambda>p. s\<lparr>mn_pool := p\<rparr>) (pool_exec ev (mn_pool s)) else None)"

fun main_run :: "'l main_event list \<Rightarrow> 'l main_state \<Rightarrow> 'l main_state option" where
  "main_run [] s = Some s"
| "main_run (ev # evs) s = (case main_exec ev s of None \<Rightarrow> None | Some t \<Rightarrow> main_run evs t)"

inductive main_reachable :: "int \<Rightarrow> 'l main_state \<Rightarrow> bool" for workers where
  main_init: "main_reachable workers (main_start (Start (NewLogPublisher workers)))"
| main_next: "main_reachable workers s \<Longrightarrow> main_exec ev s = Some t \<Longrightarrow> main_reachable workers t"

lemma main_run_reachable: "main_run evs s = Some t \<Longrightarrow> main_reachable n s \<Longrightarrow> main_reachable n t"
  by (induction evs arbitrary: s) (auto split: option.splits intro: main_next)

subsection \<open>Invariant\<close>

text \<open>Past the wait for the requests.\<close>

definition returning :: "main_pc \<Rightarrow> bool" where
  "returning pc \<longleftrightarrow> pc \<in> {ShutDown, Cancelled, Exited 0}"

definition working :: "'l worker \<Rightarrow> bool" where
  "working w \<longleftrightarrow> w = Waiting \<or> (\<exists>x. w = Saving x)"

definition main_inv :: "'l main_state \<Rightarrow> bool" where
  "main_inv s \<longleftrightarrow>
     (lg_cancelled (mn_pool s) \<longrightarrow> mn_pc s \<in> {Cancelled, Exited 0})
     \<and> (mn_pc s \<in> {Cancelled, Exited 0} \<longrightarrow> lg_cancelled (mn_pool s))
     \<and> (lg_cancelled (mn_pool s) \<or> list_all working (lg_workers (mn_pool s)))
     \<and> (returning (mn_pc s) \<longrightarrow> mn_inflight s = 0 \<or> mn_deadline s \<le> mn_clock s)
     \<and> (mn_pc s = InShutdown \<longrightarrow> mn_deadline s \<le> mn_clock s + 30 * time_Second)"

lemma working_simps [simp]:
  "working Waiting" "working (Saving x)" "\<not> working Draining" "\<not> working (DrainSaving x)" "\<not> working Stopped"
  by (simp_all add: working_def)

lemma pool_cancelled: "pool_exec ev p = Some q \<Longrightarrow> ev \<noteq> Cancel \<Longrightarrow> lg_cancelled q = lg_cancelled p"
  by (cases ev)
    (auto simp: worker_defs Let_def split: if_splits worker.splits list.splits)

lemma list_all_update: "list_all P xs \<Longrightarrow> P x \<Longrightarrow> list_all P (xs[i := x])"
  by (induction xs arbitrary: i) (auto split: nat.splits)

lemma pool_working:
  assumes "pool_exec ev p = Some q" "\<not> lg_cancelled p" "list_all working (lg_workers p)"
  shows "list_all working (lg_workers q)"
proof -
  have at: "working (lg_workers p ! i)" if "i < length (lg_workers p)" for i
    using assms(3) that by (simp add: list_all_length)
  show ?thesis
    using assms at
    by (cases ev)
      (auto simp: worker_defs Let_def split: if_splits worker.splits list.splits
        intro!: list_all_update dest: at)
qed

lemma main_inv_step: "main_inv s \<Longrightarrow> main_step s = Some t \<Longrightarrow> main_inv t"
  by (auto simp: main_step_def main_inv_def returning_def split: main_pc.splits if_splits)

lemma main_inv_exec:
  assumes "main_inv s" "main_exec ev s = Some t"
  shows "main_inv t"
proof (cases ev)
  case MainStep
  then show ?thesis using assms main_inv_step by simp
next
  case (LogEvent lev)
  then obtain p where p: "running s" "lev \<noteq> Cancel" "pool_exec lev (mn_pool s) = Some p" "t = s\<lparr>mn_pool := p\<rparr>"
    using assms(2) by (auto simp del: pool_exec.simps split: if_splits)
  then show ?thesis
    using assms(1) pool_cancelled [OF p(3,2)] pool_working [OF p(3)] by (auto simp: main_inv_def)
qed (use assms in \<open>cases "mn_pc s"; simp add: main_inv_def returning_def running_def listening_def split: if_splits; force\<close>)+

lemma main_reachable_inv: "main_reachable n s \<Longrightarrow> main_inv s"
proof (induction rule: main_reachable.induct)
  case main_init
  show ?case by (simp add: main_inv_def main_start_def Start_def NewLogPublisher_def returning_def list_all_iff)
qed (rule main_inv_exec)

text \<open>The log pool of the process is a reachable one.\<close>

lemma main_reachable_pool: "main_reachable n s \<Longrightarrow> pool_reachable n (mn_pool s)"
proof (induction rule: main_reachable.induct)
  case main_init
  show ?case by (simp add: main_start_def pool_start)
next
  case (main_next s ev t)
  then have "mn_pool t = mn_pool s \<or> (\<exists>lev. pool_exec lev (mn_pool s) = Some (mn_pool t))"
    by (cases ev)
      (auto simp: main_step_def simp del: pool_exec.simps split: if_splits main_pc.splits)
  then show ?case using main_next.IH pool_next by metis
qed

text \<open>Once \<open>Shutdown\<close> has been called its deadline stays, and the clock does not go back.\<close>

definition stopping :: "int \<Rightarrow> 'l main_state \<Rightarrow> bool" where
  "stopping dl s \<longleftrightarrow> \<not> listening s \<and> mn_deadline s = dl"

lemma stopping_exec: "stopping dl s \<Longrightarrow> main_exec ev s = Some t \<Longrightarrow> stopping dl t"
  by (cases ev)
    (auto simp: stopping_def listening_def main_step_def split: if_splits main_pc.splits)

lemma stopping_run: "main_run evs s = Some t \<Longrightarrow> stopping dl s \<Longrightarrow> stopping dl t"
  by (induction evs arbitrary: s) (auto split: option.splits dest: stopping_exec)

text \<open>What \<open>main\<close> does by itself from each place, and how long it may wait.\<close>

definition way_out :: "main_pc \<Rightarrow> 'l main_event list" where
  "way_out pc =
     (let last_steps = [Elapse (30 * time_Second), MainStep, MainStep, MainStep] in
      (case pc of WaitSignal \<Rightarrow> MainStep # MainStep # last_steps | GotSignal \<Rightarrow> MainStep # last_steps
       | InShutdown \<Rightarrow> last_steps | ShutDown \<Rightarrow> [MainStep, MainStep] | Cancelled \<Rightarrow> [MainStep] | Exited code \<Rightarrow> []))"

lemma way_out_exits:
  assumes "main_inv s" "running s" "mn_pc s = WaitSignal \<longrightarrow> mn_signal s"
  shows "\<exists>t. main_run (way_out (mn_pc s)) s = Some t \<and> mn_pc t = Exited 0"
  using assms
  by (cases "mn_pc s")
    (simp_all add: way_out_def main_step_def running_def main_inv_def time_Second_def)

text \<open>MySQL is open and its pool of connections is set up.\<close>

definition mysql_open :: "'e drivers \<Rightarrow> config \<Rightarrow> 'e \<Rightarrow> 'e \<Rightarrow> bool" where
  "mysql_open dr cfg e e2 \<longleftrightarrow>
     (\<exists>db e1 setup. dr_gorm_Open dr (DSN (MySQL cfg)) e = (Ok db, e1) \<and> dr_DB dr db = Some setup
        \<and> e2 = setup \<lparr>sp_MaxIdleConns = 10, sp_MaxOpenConns = 100, sp_ConnMaxLifetime = time_Hour\<rparr> e1)"

subsection \<open>Properties\<close>


text \<open>Everything answers; the configuration is the default one.\<close>

definition demo_viper :: "(query_world, default_store) viper" where
  "demo_viper =
     \<lparr>vp_New = [], vp_SetConfigName = (\<lambda>_ v. v), vp_SetConfigType = (\<lambda>_ v. v),
      vp_AddConfigPath = (\<lambda>_ v. v), vp_SetEnvPrefix = (\<lambda>_ v. v),
      vp_SetEnvKeyReplacer = (\<lambda>_ _ v. v), vp_AutomaticEnv = (\<lambda>v. v),
      vp_SetDefault = AList.update, vp_ReadInConfig = (\<lambda>_ v. (Some ConfigFileNotFound, v)),
      vp_Unmarshal = (\<lambda>_ v. Ok (store_config v))\<rparr>"

definition demo_drivers :: "query_world drivers" where
  "demo_drivers =
     \<lparr>dr_Now = (\<lambda>e. 0), dr_gorm_Open = (\<lambda>dsn e. (Ok one_token_gorm, e)), dr_DB = (\<lambda>db. Some (\<lambda>p e. e)),
      dr_redis_NewClient = (\<lambda>opts. tc_redis demo_cache),
      dr_mongo_Connect = (\<lambda>ctx uri e.
        (Ok \<lparr>mg_Ping = (\<lambda>ctx e. (Ok (), e)),
             mg_Database = (\<lambda>_. \<lparr>md_Collection = (\<lambda>_. \<lparr>mc_InsertOne = (\<lambda>x e. ((''id'', None), e))\<rparr>)\<rparr>)\<rparr>, e))\<rparr>"


text \<open>C17: The shutdown waits for the requests, but no longer than thirty seconds, and it always ends: if the
  process has ended normally while a request was running, thirty seconds have passed since \<open>Shutdown\<close>
  was called; and from every state in which a signal has arrived \<open>main\<close> comes to its end by its own
  steps and thirty seconds of waiting, whatever the requests and the log workers do.\<close>

theorem shutdown_graceful:
  assumes "main_reachable workers s"
  shows "(\<forall>evs t. mn_pc s = GotSignal \<and> main_run (MainStep # evs) s = Some t \<and> mn_pc t = Exited 0
        \<and> 0 < mn_inflight t \<longrightarrow> mn_clock s + 30 * time_Second \<le> mn_clock t)
    \<and> (running s \<and> (mn_pc s = WaitSignal \<longrightarrow> mn_signal s) \<longrightarrow>
        (\<exists>evs t. set evs \<subseteq> {MainStep, Elapse (30 * time_Second)} \<and> length evs \<le> 6
          \<and> main_run evs s = Some t \<and> mn_pc t = Exited 0))"
proof (intro conjI allI impI)
  fix evs t
  assume a: "mn_pc s = GotSignal \<and> main_run (MainStep # evs) s = Some t \<and> mn_pc t = Exited 0 \<and> 0 < mn_inflight t"
  then have "main_inv t" using main_run_reachable assms main_reachable_inv by blast
  moreover have "stopping (mn_clock s + 30 * time_Second) t"
    using a stopping_run [of evs _ t] by (auto simp: main_step_def stopping_def listening_def)
  ultimately show "mn_clock s + 30 * time_Second \<le> mn_clock t"
    using a by (auto simp: main_inv_def returning_def stopping_def)
next
  assume a: "running s \<and> (mn_pc s = WaitSignal \<longrightarrow> mn_signal s)"
  have "set (way_out pc) \<subseteq> {MainStep, Elapse (30 * time_Second)} \<and> length (way_out pc) \<le> 6" for pc
    by (cases pc) (simp_all add: way_out_def)
  then show "\<exists>evs t. set evs \<subseteq> {MainStep, Elapse (30 * time_Second)} \<and> length evs \<le> 6
      \<and> main_run evs s = Some t \<and> mn_pc t = Exited 0"
    using way_out_exits [OF main_reachable_inv [OF assms]] a by meson
qed

text \<open>A request that never ends.\<close>

theorem shutdown_graceful_witness:
  "\<exists>s t. main_reachable 4 (s :: nat main_state) \<and> mn_inflight s = 1
     \<and> main_run [MainStep, Elapse (30 * time_Second), MainStep, MainStep, MainStep] s = Some t
     \<and> mn_pc t = Exited 0 \<and> mn_inflight t = 1 \<and> mn_clock s + 30 * time_Second \<le> mn_clock t"
proof -
  let ?init = "main_start (Start (NewLogPublisher 4)) :: nat main_state"
  let ?s = "?init\<lparr>mn_pc := GotSignal, mn_inflight := 1\<rparr>"
  let ?t = "?s\<lparr>mn_pc := Exited 0, mn_clock := 30 * time_Second, mn_deadline := 30 * time_Second,
    mn_pool := (mn_pool ?s)\<lparr>lg_cancelled := True\<rparr>\<rparr>"
  have "main_run [RequestStart, Signal, MainStep] ?init = Some ?s"
    by (simp add: main_start_def main_step_def running_def listening_def)
  then have reach: "main_reachable 4 ?s" using main_run_reachable main_init by blast
  have run: "main_run [MainStep, Elapse (30 * time_Second), MainStep, MainStep, MainStep] ?s = Some ?t"
    by (simp add: main_start_def main_step_def running_def listening_def time_Second_def)
  have "mn_clock ?s + 30 * time_Second \<le> mn_clock ?t"
    using conjunct1 [OF shutdown_graceful [OF reach]] run by fastforce
  then show ?thesis using reach run by (intro exI [of _ ?s] exI [of _ ?t]) simp
qed

text \<open>C31: Logs that were accepted are lost at the end: for any number of workers there is a run in which one
  request comes and ends, its document is accepted by the channel, the signal arrives and the process
  ends normally, with the document still in the channel and nothing saved.\<close>

theorem exit_loses_logs:
  "\<exists>evs s. main_run evs (main_start (Start (NewLogPublisher workers))) = Some s \<and> mn_pc s = Exited 0
     \<and> mn_inflight s = 0 \<and> lg_ch (mn_pool s) = [doc] \<and> lg_saved (mn_pool s) = [] \<and> lg_dropped (mn_pool s) = []"
proof -
  let ?evs = "[RequestStart, LogEvent (Publish doc), RequestEnd, Signal, MainStep, MainStep, MainStep, MainStep, MainStep]"
  show ?thesis
    by (rule exI [of _ ?evs])
      (simp add: main_start_def main_step_def running_def listening_def Start_def NewLogPublisher_def
        logBufferSize_def)
qed

end
