(* ===== verification/Isolation.thy ===== *)
theory Isolation
  imports Server
begin

text \<open>
  The whole data path of a request: the pipeline of the services on top of the caches, in any state that
  the lookups of earlier requests, their late writes to Redis and the outside have left behind. A
  client that gets an answer gets it through its own token.
\<close>

text \<open>Lookups one after the other, beginning with good entries.\<close>

lemma checks_isolated:
  fixes c :: "'e two_level_cache"
  assumes laws: "store_laws c g" "gorm_law g usages apis"
    and q: "pl_query p = json_queries U c g R"
    and entries: "\<And>k b. holds_entry c e1 k b \<Longrightarrow> good_entry U g usages apis k b"
    and token: "FindByClientID (pl_query p) client_id e1 = ((Ok token, ts0), e2)"
  shows "gm_eq g (ApiTokenUUID token) client_id"
    and "holds_entry c e2 k b \<Longrightarrow> good_entry U g usages apis k b"
  using FindByClientID_keeps [OF laws entries token [unfolded q]] by (simp_all add: token_for_def)

lemma usage_isolated:
  fixes c :: "'e two_level_cache"
  assumes laws: "store_laws c g" "gorm_law g usages apis"
    and q: "pl_query p = json_queries U c g R"
    and entries: "\<And>k b. holds_entry c e k b \<Longrightarrow> good_entry U g usages apis k b"
    and usage: "FindByTokenAndEndpoint (pl_query p) tokenID endpoint e = ((Ok usage, ts), e')"
  shows "granted g usages apis tokenID usage"
    and "matchesTemplate R (Endpoint usage) (SplitFirst endpoint CHR ''?'')"
  using FindByTokenAndEndpoint_keeps [OF laws entries usage [unfolded q]] usage
  by (auto simp: q FindByTokenAndEndpoint_def first_match_Ok split: prod.splits sum.splits)

subsection \<open>An example\<close>

text \<open>The token is in the memory cache already, the domains and usages come from the database.\<close>

definition json_pipeline :: "pipe_world pipeline" where
  "json_pipeline = demo_pipeline\<lparr>pl_query := demo_queries\<rparr>"

lemma json_pipeline_sel:
  "pl_query json_pipeline = demo_queries" "pl_log json_pipeline = pl_log demo_pipeline"
  by (simp_all add: json_pipeline_def)

definition empty_world :: pipe_world where
  "empty_world = pipe_world0\<lparr>tb_local := []\<rparr>"

lemma codec_lawE:
  assumes "codec_law cd clean" "clean v"
  obtains b where "cd_Marshal cd v = Ok b" "\<And>d. cd_Unmarshal cd b d = (Ok (), v)"
  using assms unfolding codec_law_def by blast

lemmas demo_lookup_defs = demo_queries_def GetOrFetchSlice_def GetOrFetch_def cache_lookup_def demo_cache_def
  table_cache_def table_redis_def gorm_repositories_def one_token_gorm_def demo_gorm_def

lemma demo_token_fetched:
  assumes "cd_Marshal (token_json ascii_tables) demo_token = Ok b"
    and "\<And>d. cd_Unmarshal (token_json ascii_tables) b d = (Ok (), demo_token)"
  shows "FindByClientID demo_queries ''client'' empty_world =
      ((Ok demo_token, [RedisSet (ApiTokenKey ''client'') b (10 * time_Minute)]),
       empty_world\<lparr>tb_local := [(ApiTokenKey ''client'', b)]\<rparr>)"
    and "FindByClientID demo_queries ''client'' (empty_world\<lparr>tb_local := (ApiTokenKey ''client'', b) # t\<rparr>) =
      ((Ok demo_token, []), empty_world\<lparr>tb_local := (ApiTokenKey ''client'', b) # t\<rparr>)"
proof -
  have "ApiTokenUUID demo_token = ''client''" by (simp add: demo_token_def)
  then show "FindByClientID demo_queries ''client'' empty_world =
      ((Ok demo_token, [RedisSet (ApiTokenKey ''client'') b (10 * time_Minute)]),
       empty_world\<lparr>tb_local := [(ApiTokenKey ''client'', b)]\<rparr>)"
    using assms by (simp add: demo_lookup_defs FindByClientID_def token_FindByClientID_def empty_world_def
        pipe_world0_def)
  show "FindByClientID demo_queries ''client'' (empty_world\<lparr>tb_local := (ApiTokenKey ''client'', b) # t\<rparr>) =
      ((Ok demo_token, []), empty_world\<lparr>tb_local := (ApiTokenKey ''client'', b) # t\<rparr>)"
    using assms by (simp add: demo_lookup_defs FindByClientID_def)
qed

lemma demo_domains_fetched:
  assumes "map_of t (TokenDomainKey 7) = None"
  shows "\<exists>ts b. FindAllByTokenID demo_queries 7 (empty_world\<lparr>tb_local := t\<rparr>) =
    ((Ok [demo_domain], ts), empty_world\<lparr>tb_local := AList.update (TokenDomainKey 7) b t\<rparr>)"
proof -
  have "domain_clean demo_domain"
    using gorm_lawD(4) [OF demo_gorm_law [where 'a = unit], of "\<lambda>d. True" query_world0 "[demo_domain]" query_world0]
    by (simp add: one_token_gorm_def demo_gorm_def)
  then obtain b where "cd_Marshal (domains_json ascii_tables) [demo_domain] = Ok b"
    "\<And>d. cd_Unmarshal (domains_json ascii_tables) b d = (Ok (), [demo_domain])"
    using codec_lawE [OF domains_json_law, of "[demo_domain]" ascii_tables] by auto
  then show ?thesis
    using assms
    by (simp add: demo_lookup_defs FindAllByTokenID_def domain_FindAllByTokenID_def with_error_def empty_world_def
        pipe_world0_def demo_domain_def) blast
qed

lemma demo_usages_fetched:
  assumes "map_of t (ApiUsageListKey 7) = None"
  shows "\<exists>ts e'. FindByTokenAndEndpoint demo_queries 7 ''/users/42'' (empty_world\<lparr>tb_local := t\<rparr>) =
    ((Ok demo_usage, ts), e')"
proof -
  have join: "usage_join (=) 7 [demo_usage_row\<lparr>ur_api_token_id := 8\<rparr>, demo_usage_row]
      [demo_api_row\<lparr>ar_api_id := ''b'', ar_domain := ''https://other.com''\<rparr>, demo_api_row] = [demo_usage]"
    by (simp add: usage_join_def demo_usage_row_def demo_api_row_def demo_usage_def)
  have "granted (one_token_gorm :: query_world gorm) {demo_usage_row\<lparr>ur_api_token_id := 8\<rparr>, demo_usage_row}
     {demo_api_row\<lparr>ar_api_id := ''b'', ar_domain := ''https://other.com''\<rparr>, demo_api_row} 7 demo_usage"
    by (rule usage_join_granted [where us = "[demo_usage_row\<lparr>ur_api_token_id := 8\<rparr>, demo_usage_row]"
          and as = "[demo_api_row\<lparr>ar_api_id := ''b'', ar_domain := ''https://other.com''\<rparr>, demo_api_row]"])
      (simp_all only: one_token_eq join, simp_all)
  then have "usage_clean demo_usage" by (rule gorm_lawD(2) [OF demo_gorm_law])
  then obtain b where "cd_Marshal (usages_json ascii_tables) [demo_usage] = Ok b"
    "\<And>d. cd_Unmarshal (usages_json ascii_tables) b d = (Ok (), [demo_usage])"
    using codec_lawE [OF usages_json_law, of "[demo_usage]" ascii_tables] by auto
  moreover have "matchesTemplate (\<lambda>_ _. False) (Endpoint demo_usage) ''/users/42''"
    using users_match by (simp add: demo_usage_def users_render)
  moreover have "SplitFirst ''/users/42'' CHR ''?'' = ''/users/42''" by (simp add: SplitFirst_def)
  ultimately show ?thesis
    using assms join
    by (simp add: demo_lookup_defs FindByTokenAndEndpoint_def usage_FindAllByTokenID_def with_error_def
        empty_world_def pipe_world0_def)
qed

subsection \<open>Properties\<close>



end
