(* ===== verification/SemaphoreQueue.thy ===== *)
theory SemaphoreQueue
  imports QueueSpec Config
begin

text \<open>
  \<open>internal/queue/semaphore_queue.go\<close>: the FIFO queue. Its waiters are plain \<open>simple_waiter\<close>s in a
  slice; \<open>Release\<close> takes the first one, the timer searches its waiter and cuts it out.
\<close>

definition new_simple_waiter :: "gostring \<Rightarrow> real \<Rightarrow> int \<Rightarrow> simple_waiter" where
  "new_simple_waiter c p t = \<lparr>wch = None, wdone = False\<rparr>"

definition sem_push :: "int \<Rightarrow> nat \<Rightarrow> simple_waiter qmem \<Rightarrow> simple_waiter qmem" where
  "sem_push t w m = m\<lparr>order := order m @ [w]\<rparr>"

definition sem_pop :: "int \<Rightarrow> simple_waiter qmem \<Rightarrow> (nat \<times> simple_waiter qmem) option" where
  "sem_pop t m = (case order m of [] \<Rightarrow> None | w # ws \<Rightarrow> Some (w, m\<lparr>order := ws\<rparr>))"

text \<open>The loop of \<open>removeWaiter\<close>: the first position that holds \<open>target\<close> is cut out.\<close>

fun remove_first :: "nat list \<Rightarrow> nat \<Rightarrow> nat list" where
  "remove_first [] target = []"
| "remove_first (w # ws) target = (if w = target then ws else w # remove_first ws target)"

definition removeWaiter :: "int \<Rightarrow> nat \<Rightarrow> simple_waiter qmem \<Rightarrow> simple_waiter qmem" where
  "removeWaiter t target m = m\<lparr>order := remove_first (order m) target\<rparr>"

definition sem_ops :: "simple_waiter queue_ops" where
  "sem_ops = \<lparr>new_waiter = new_simple_waiter, op_push = sem_push, op_pop = sem_pop,
     op_remove = removeWaiter\<rparr>"

text \<open>\<open>make(chan, n)\<close> panics for a negative size (\<open>None\<close>).\<close>

definition NewSemaphoreQueue :: "queue_config \<Rightarrow> simple_waiter qstate option" where
  "NewSemaphoreQueue cfg =
     (if MaxInflight cfg < 0 then None else Some (init_queue (nat (MaxInflight cfg))))"

text \<open>The steps and the reachable states of \<open>SemaphoreQueue\<close>.\<close>

definition sem_step :: "simple_waiter qstate \<Rightarrow> simple_waiter qstate \<Rightarrow> bool" where
  "sem_step = q_step sem_ops"

definition sem_reachable :: "nat \<Rightarrow> simple_waiter qstate \<Rightarrow> bool" where
  "sem_reachable = q_reachable sem_ops"

lemma NewSemaphoreQueue_reachable:
  "NewSemaphoreQueue cfg = Some s \<Longrightarrow> sem_reachable (nat (MaxInflight cfg)) s"
  by (auto simp: NewSemaphoreQueue_def sem_reachable_def q_reachable.q_init split: if_splits)

definition sem_minv :: "simple_waiter qmem \<Rightarrow> bool" where
  "sem_minv m \<longleftrightarrow> set (order m) \<subseteq> {..<length (store m)} \<and> distinct (order m)"

lemmas sem_ops_defs [queue_simps] =
  sem_ops_def new_simple_waiter_def sem_push_def sem_pop_def removeWaiter_def

lemma remove_first_eq: "remove_first ws w = remove1 w ws"
  by (induction ws) auto

interpretation semq: wait_queue sem_ops sem_minv
  by unfold_locales
    (auto simp: queue_simps sem_minv_def core_def remove_first_eq set_waiter_def
      split: list.splits dest: set_remove1_subset [THEN subsetD])

subsection \<open>A concrete interleaving\<close>

definition fifo_events :: "q_event list" where
  "fifo_events =
     [Arrive ''a'' 1, Move 0, Arrive ''b'' 1, Move 1, Move 1, Move 1, Arrive ''c'' 2, Move 2, Move 2,
      Move 2, Move 0, Timer 0]"

text \<open>The first waiter has timed out but is still queued when the slot is released.\<close>

definition fifo_state :: "simple_waiter qstate" where
  "fifo_state =
     \<lparr>mem = \<lparr>store = [\<lparr>wch = Some False, wdone = True\<rparr>, \<lparr>wch = None, wdone = False\<rparr>], order = [0, 1]\<rparr>,
      sem = 0, cap = 1, procs = [RelLock, AcqWait 0, AcqWait 1], timers = [TRemove, TArmed], clock = 0\<rparr>"

lemma fifo_run: "q_run sem_ops fifo_events (init_queue 1) = Some fifo_state"
  by (simp add: fifo_events_def fifo_state_def queue_simps q_move_def q_fire_def
      complete_waiter_def init_queue_def set_waiter_def nth_Cons)

lemma fifo_reachable: "sem_reachable 1 fifo_state"
  unfolding sem_reachable_def by (rule q_run_reachable [OF fifo_run q_reachable.q_init])

subsection \<open>Properties\<close>

text \<open>In every interleaving of the semaphore queue the slots are conserved: free ones, held ones and
  those handed to a waiter that has not picked them up yet add up to \<open>maxInflight\<close>, and at most
  \<open>maxInflight\<close> requests are served at once.\<close>

theorem sem_slots_conserved:
  assumes "sem_reachable n s"
  shows "sem s + sum_list (map proc_slots (procs s))
      + sum_list (map waiter_slots (store (mem s))) = n
    \<and> length (filter (\<lambda>p. p = Holding) (procs s)) + sem s \<le> n"
  using semq.reachable_inv [of n s] semq.holders_bound [of n s] assms
  by (auto simp: sem_reachable_def semq.slots_inv_def total_slots_def)

theorem sem_slots_conserved_witness:
  "sem fifo_state + sum_list (map proc_slots (procs fifo_state))
     + sum_list (map waiter_slots (store (mem fifo_state))) = 1"
  using sem_slots_conserved [OF fifo_reachable] by simp



text \<open>C22: Scheduling is first come, first served: \<open>Release\<close> run without interference returns, and it hands
  the slot to the first queued waiter that has not timed out, dropping the ones before it; the
  waiters behind it keep their places. When every queued waiter has timed out, the queue ends
  empty and the slot goes back to the semaphore. On the way nothing but that waiter changes.\<close>

theorem sem_release_fifo:
  "release_loop sem_ops t m =
     Some (case dropWhile (\<lambda>w. wdone (store m ! w)) (order m) of
             [] \<Rightarrow> (m\<lparr>order := []\<rparr>, None)
           | w # ws \<Rightarrow>
               (set_waiter w (\<lambda>x. x\<lparr>wch := Some True, wdone := True\<rparr>) (m\<lparr>order := ws\<rparr>), Some w))"
proof (induction "order m" arbitrary: m)
  case Nil
  then show ?case by (subst release_loop.simps) (simp add: sem_ops_def sem_pop_def)
next
  case (Cons w ws)
  have pop: "op_pop sem_ops t m = Some (w, m\<lparr>order := ws\<rparr>)"
    using Cons.hyps(2) [symmetric] by (simp add: sem_ops_def sem_pop_def)
  show ?case
  proof (cases "wdone (store m ! w)")
    case True
    then have "release_loop sem_ops t m = release_loop sem_ops t (m\<lparr>order := ws\<rparr>)"
      using pop by (subst release_loop.simps) simp
    then show ?thesis
      using Cons.hyps(1) [of "m\<lparr>order := ws\<rparr>"] Cons.hyps(2) [symmetric] True
      by (cases "dropWhile (\<lambda>w. wdone (store m ! w)) ws") (simp_all del: dropWhile_eq_Nil_conv)
  next
    case False
    then show ?thesis
      using pop Cons.hyps(2) [symmetric]
      by (subst release_loop.simps) (simp add: complete_waiter_def)
  qed
qed

text \<open>Every request that waits in the semaphore queue is answered: if its result is not yet there its
  timer is armed, and letting the timer fire is a step that puts the refusal into its channel; the
  step after that makes \<open>Acquire\<close> return false. Nothing another goroutine holds is needed for it.\<close>

theorem sem_waiter_answered:
  assumes "sem_reachable n s" "i < length (procs s)" "procs s ! i = AcqWait w"
    and "wch (store (mem s) ! w) = None"
  shows "\<exists>t u. q_exec sem_ops (Timer w) s = Some t \<and> q_exec sem_ops (Move i) t = Some u
    \<and> procs u = (procs s)[i := Refused] \<and> sem u = sem s"
proof -
  have reach: "q_reachable sem_ops n s" and mem: "AcqWait w \<in> set (procs s)"
    using assms(1-3) by (auto simp: sem_reachable_def dest: nth_mem)
  note inv = semq.reachable_inv [OF reach]
  have w: "w < length (store (mem s))" "w < length (timers s)"
    using semq.owner_bounds(2) [of s w] inv mem by (auto simp: semq.slots_inv_def)
  have "timers s ! w = TArmed" "\<not> wdone (store (mem s) ! w)"
    using semq.waiter_not_lost [OF reach mem] inv w mem assms(4) by (auto simp: semq.result_inv_def)
  then show ?thesis
    using assms(2,3) w by (simp add: q_fire_def q_move_def complete_waiter_def)
qed

theorem sem_waiter_answered_witness:
  "\<exists>t u. q_exec sem_ops (Timer 1) fifo_state = Some t \<and> q_exec sem_ops (Move 2) t = Some u
    \<and> procs u = [RelLock, AcqWait 0, Refused] \<and> sem u = 0"
  using sem_waiter_answered [OF fifo_reachable, of 2 1] by (simp add: fifo_state_def)

end
