(* ===== verification/LimiterRuns.thy ===== *)
theory LimiterRuns
  imports Pipeline
begin

text \<open>
  The goroutines \<open>trackRequest\<close> and \<open>releaseRequest\<close> of \<open>pipeline.go\<close>, one Redis command or database
  query at a time. \<open>Pipeline\<close> has each of them as one function; here they are programs whose steps
  interleave with those of all others, because nothing in the code keeps them apart: the counters are
  read after they are written, a release reads the reply before it resets, and a transition of a
  token's state reads the row before it saves it.
\<close>

subsection \<open>Steps\<close>

text \<open>Where such a goroutine is: at its next command, with what it holds in its variables.\<close>

datatype limiter_pc =
    IncrConcurrent
  | ExpireConcurrent
  | IncrMinute
  | ExpireMinute gostring
  | ReadConcurrent
  | ReadMinute int64
  | ReadToken
  | SaveToken api_token
  | Tracked
  | DecrConcurrent
  | ResetConcurrent
  | Released

text \<open>\<open>CheckAndUpdateState\<close> after its two reads, and \<open>TransitionState\<close> with its read and its write.\<close>

definition after_reads :: "int64 \<Rightarrow> int64 \<Rightarrow> int \<Rightarrow> limiter_pc" where
  "after_reads multiplier concurrent requestCount =
     (let threshold = concurrent * multiplier in
      if sint threshold < sint (word_of_int requestCount :: int64) then ReadToken else Tracked)"

definition read_token_step :: "'e repositories \<Rightarrow> int \<Rightarrow> 'e \<Rightarrow> limiter_pc \<times> 'e" where
  "read_token_step repo i e =
     (case rp_FindByID repo i e of
        (Err err, e1) \<Rightarrow> (Tracked, e1)
      | (Ok token, e1) \<Rightarrow>
          (case TransitionToNextState token of (token', next_state) \<Rightarrow>
             (if next_state = [] then Tracked else SaveToken token', e1)))"

definition save_token_step :: "'e repositories \<Rightarrow> api_token \<Rightarrow> 'e \<Rightarrow> limiter_pc \<times> 'e" where
  "save_token_step repo token e = (case rp_Save repo token e of (_, e1) \<Rightarrow> (Tracked, e1))"

text \<open>
  One step of a goroutine for token \<open>i\<close>. A failed increment of the concurrent counter is only logged,
  every other failure ends the goroutine; the errors of \<open>Expire\<close> and of the reset are ignored.
\<close>

fun limiter_step ::
  "'e redis_rate_limiter \<Rightarrow> 'e repositories \<Rightarrow> int \<Rightarrow> limiter_pc \<Rightarrow> 'e \<Rightarrow> limiter_pc \<times> 'e" where
  "limiter_step r repo i IncrConcurrent e =
     (case rd_Incr (rr_redis r) (concurrentKey i) e of
        (Err err, e1) \<Rightarrow> (IncrMinute, e1)
      | (Ok n, e1) \<Rightarrow> (ExpireConcurrent, e1))"
| "limiter_step r repo i ExpireConcurrent e =
     (IncrMinute, snd (rd_Expire (rr_redis r) (concurrentKey i) concurrentTTL e))"
| "limiter_step r repo i IncrMinute e =
     (let key = bucketKey r i e in
      (case rd_Incr (rr_redis r) key e of
         (Err err, e1) \<Rightarrow> (Tracked, e1)
       | (Ok n, e1) \<Rightarrow> (if n = 1 then ExpireMinute key else ReadConcurrent, e1)))"
| "limiter_step r repo i (ExpireMinute key) e =
     (ReadConcurrent, snd (rd_Expire (rr_redis r) key bucketTTL e))"
| "limiter_step r repo i ReadConcurrent e =
     (case redis_GetInt (rr_redis r) (concurrentKey i) e of
        (Err err, e1) \<Rightarrow> (if err = RedisNil then ReadMinute 0 else Tracked, e1)
      | (Ok val, e1) \<Rightarrow> (ReadMinute (word_of_int val), e1))"
| "limiter_step r repo i (ReadMinute concurrent) e =
     (case redis_GetInt (rr_redis r) (bucketKey r i e) e of
        (Err err, e1) \<Rightarrow> (Tracked, e1)
      | (Ok requestCount, e1) \<Rightarrow> (after_reads (rr_thresholdMultiplier r) concurrent requestCount, e1))"
| "limiter_step r repo i ReadToken e = read_token_step repo i e"
| "limiter_step r repo i (SaveToken token) e = save_token_step repo token e"
| "limiter_step r repo i DecrConcurrent e =
     (case rd_Decr (rr_redis r) (concurrentKey i) e of
        (Err err, e1) \<Rightarrow> (Released, e1)
      | (Ok n, e1) \<Rightarrow> (if sint n < 0 then ResetConcurrent else Released, e1))"
| "limiter_step r repo i ResetConcurrent e =
     (Released, snd (rd_Set (rr_redis r) (concurrentKey i) (show_int 0) concurrentTTL e))"
| "limiter_step r repo i Tracked e = (Tracked, e)"
| "limiter_step r repo i Released e = (Released, e)"

text \<open>A goroutine that is left alone, for some number of steps.\<close>

fun limiter_alone ::
  "nat \<Rightarrow> 'e redis_rate_limiter \<Rightarrow> 'e repositories \<Rightarrow> int \<Rightarrow> limiter_pc \<times> 'e \<Rightarrow> limiter_pc \<times> 'e" where
  "limiter_alone 0 r repo i s = s"
| "limiter_alone (Suc n) r repo i s =
     limiter_alone n r repo i (limiter_step r repo i (fst s) (snd s))"

subsection \<open>Interleaving\<close>

text \<open>
  The outside state and the goroutines, each with the id of its token. Requests start goroutines at
  any time; \<open>outside\<close> changes the state as \<open>rel\<close> allows.
\<close>

inductive limiter_run ::
  "'e redis_rate_limiter \<Rightarrow> 'e repositories \<Rightarrow> ('e \<Rightarrow> 'e \<Rightarrow> bool) \<Rightarrow>
   'e \<times> (int \<times> limiter_pc) list \<Rightarrow> 'e \<times> (int \<times> limiter_pc) list \<Rightarrow> bool" for r repo rel where
  start_track: "limiter_run r repo rel (e, ts) (e, ts @ [(i, IncrConcurrent)])"
| start_release: "limiter_run r repo rel (e, ts) (e, ts @ [(i, DecrConcurrent)])"
| goroutine:
    "j < length ts \<Longrightarrow> ts ! j = (i, pc) \<Longrightarrow> limiter_step r repo i pc e = (pc', e') \<Longrightarrow>
     limiter_run r repo rel (e, ts) (e', ts[j := (i, pc')])"
| outside: "rel e e' \<Longrightarrow> limiter_run r repo rel (e, ts) (e', ts)"

subsection \<open>One goroutine alone\<close>

lemma alone_finished [simp]:
  "limiter_alone n r repo i (Tracked, e) = (Tracked, e)" "limiter_alone n r repo i (Released, e) = (Released, e)"
  by (induction n) simp_all

lemma alone_transition:
  "limiter_alone (Suc (Suc n)) r repo i (ReadToken, e) = (Tracked, snd (TransitionState repo i e))"
  by (simp add: read_token_step_def save_token_step_def TransitionState_def
      split: sum.splits prod.splits)

lemma alone_check:
  "limiter_alone (Suc (Suc (Suc (Suc n)))) r repo i (ReadConcurrent, e) = (Tracked, snd (CheckAndUpdateState r repo i e))"
proof -
  note alone_transition [of n, simplified, simp]
  show ?thesis
    by (simp add: CheckAndUpdateState_def GetConcurrent_def after_reads_def Let_def
        split: sum.splits prod.splits if_splits)
qed

lemma alone_step: "0 < n \<Longrightarrow> limiter_alone n r repo i (pc, e) =
    limiter_alone (n - 1) r repo i (limiter_step r repo i pc e)"
  by (cases n) simp_all

lemma alone_check_within:
  "4 \<le> n \<Longrightarrow> limiter_alone n r repo i (ReadConcurrent, e) = (Tracked, snd (CheckAndUpdateState r repo i e))"
proof -
  assume "4 \<le> n"
  then have n: "n = Suc (Suc (Suc (Suc (n - 4))))" by simp
  show ?thesis by (subst n, rule alone_check)
qed

lemma alone_minute:
  assumes "6 \<le> n"
  shows "limiter_alone n r repo i (IncrMinute, e) =
    (Tracked, case IncrementAndGet r i e of (Err err, e2) \<Rightarrow> e2 | (Ok _, e2) \<Rightarrow> snd (CheckAndUpdateState r repo i e2))"
  using assms
  by (simp add: alone_step [where pc = IncrMinute] alone_step [where pc = "ExpireMinute k" for k] alone_check_within IncrementAndGet_def Let_def
      split: sum.splits prod.splits)


subsection \<open>The state of a token\<close>

text \<open>
  What is relied on: \<open>row\<close> gives the row of a token in the database. Reading finds that row and changes
  none, saving replaces the row with the id of the token or fails, and Redis has nothing to do with it.
\<close>

definition row_laws ::
  "('e \<Rightarrow> int \<Rightarrow> api_token option) \<Rightarrow> 'e redis_rate_limiter \<Rightarrow> 'e repositories \<Rightarrow> bool" where
  "row_laws row r repo \<longleftrightarrow>
     (\<forall>e i t. row e i = Some t \<longrightarrow> ApiTokenID t = i)
     \<and> (\<forall>e i t e'. rp_FindByID repo i e = (Ok t, e') \<longrightarrow> row e i = Some t)
     \<and> (\<forall>e i. row (snd (rp_FindByID repo i e)) = row e)
     \<and> (\<forall>e t. row (snd (rp_Save repo t e)) = row e \<or> row (snd (rp_Save repo t e)) = (row e)(ApiTokenID t \<mapsto> t))
     \<and> (\<forall>e k. row (snd (rd_Get (rr_redis r) k e)) = row e) \<and> (\<forall>e k. row (snd (rd_Incr (rr_redis r) k e)) = row e)
     \<and> (\<forall>e k. row (snd (rd_Decr (rr_redis r) k e)) = row e)
     \<and> (\<forall>e k ttl. row (snd (rd_Expire (rr_redis r) k ttl e)) = row e)
     \<and> (\<forall>e k b ttl. row (snd (rd_Set (rr_redis r) k b ttl e)) = row e)"

lemma row_lawsD:
  assumes "row_laws row r repo"
  shows "row e i = Some t \<Longrightarrow> ApiTokenID t = i"
    "rp_FindByID repo i e = (Ok t, e1) \<Longrightarrow> row e i = Some t" "rp_FindByID repo i e = (res, e2) \<Longrightarrow> row e2 = row e"
    "rp_Save repo t e = (x, e3) \<Longrightarrow> row e3 = row e \<or> row e3 = (row e)(ApiTokenID t \<mapsto> t)"
    "rd_Get (rr_redis r) k e = (g, e4) \<Longrightarrow> row e4 = row e"
    "rd_Incr (rr_redis r) k e = (n, e5) \<Longrightarrow> row e5 = row e" "rd_Decr (rr_redis r) k e = (n, e5) \<Longrightarrow> row e5 = row e"
    "row (snd (rd_Expire (rr_redis r) k ttl e)) = row e" "row (snd (rd_Set (rr_redis r) k b ttl e)) = row e"
  using assms unfolding row_laws_def by (metis snd_conv)+

definition blocked :: "('e \<Rightarrow> int \<Rightarrow> api_token option) \<Rightarrow> int \<Rightarrow> 'e \<Rightarrow> bool" where
  "blocked row i e \<longleftrightarrow> (\<exists>t. row e i = Some t \<and> State t = StateBlocked)"

text \<open>No goroutine is about to save the token \<open>i\<close>.\<close>

definition no_save :: "int \<Rightarrow> (int \<times> limiter_pc) list \<Rightarrow> bool" where
  "no_save i ts \<longleftrightarrow> (\<forall>(j, pc) \<in> set ts. \<forall>t. pc = SaveToken t \<longrightarrow> ApiTokenID t \<noteq> i)"

lemma no_save_update:
  "no_save i ts \<Longrightarrow> (\<And>t. pc = SaveToken t \<Longrightarrow> ApiTokenID t \<noteq> i) \<Longrightarrow> no_save i (ts[n := (j, pc)])"
  using set_update_subset_insert [of ts n "(j, pc)"] by (fastforce simp: no_save_def)

lemma transition_id: "ApiTokenID (fst (TransitionToNextState t)) = ApiTokenID t"
  by (simp add: TransitionToNextState_def)

text \<open>A step keeps a blocked row, and saves the row of another token only.\<close>

lemma limiter_step_blocked:
  assumes laws: "row_laws row r repo"
    and start: "blocked row i e" "\<And>t. pc = SaveToken t \<Longrightarrow> ApiTokenID t \<noteq> i"
    and run: "limiter_step r repo j pc e = (pc', e')"
  shows "blocked row i e' \<and> (\<forall>t. pc' = SaveToken t \<longrightarrow> ApiTokenID t \<noteq> i)"
proof (cases pc)
  case ReadToken
  obtain res e1 where find: "rp_FindByID repo j e = (res, e1)" by fastforce
  have row: "row e1 = row e" "e' = e1"
    using find row_lawsD(3) [OF laws find] run ReadToken
    by (auto simp: read_token_step_def split: sum.splits prod.splits)
  show ?thesis
  proof (cases res)
    case (Inl err)
    then show ?thesis using row start(1) run ReadToken find by (auto simp: read_token_step_def blocked_def)
  next
    case (Inr t)
    then have t: "row e j = Some t" using find row_lawsD(2) [OF laws] by blast
    have "pc' \<noteq> SaveToken x" if "j = i" for x
      using that t start(1) run ReadToken find Inr
      by (auto simp: read_token_step_def blocked_def TransitionToNextState_def)
    moreover have "pc' = SaveToken x \<Longrightarrow> ApiTokenID x = j" for x
      using run ReadToken find Inr row_lawsD(1) [OF laws t] transition_id [of t]
      by (auto simp: read_token_step_def split: prod.splits if_splits)
    ultimately show ?thesis using row start(1) by (auto simp: blocked_def)
  qed
next
  case (SaveToken t)
  then show ?thesis
    using start run row_lawsD(4) [OF laws, of t e]
    by (fastforce simp: save_token_step_def blocked_def split: prod.splits)
qed (use start(1) run in \<open>auto simp: blocked_def redis_GetInt_def after_reads_def Let_def row_lawsD(8,9) [OF laws]
    split: sum.splits prod.splits if_splits dest: row_lawsD(5-7) [OF laws]\<close>)

definition blocked_inv :: "('e \<Rightarrow> int \<Rightarrow> api_token option) \<Rightarrow> int \<Rightarrow> 'e \<times> (int \<times> limiter_pc) list \<Rightarrow> bool" where
  "blocked_inv row i s \<longleftrightarrow> blocked row i (fst s) \<and> no_save i (snd s)"

lemma limiter_run_blocked:
  assumes "limiter_run r repo rel s s'" "row_laws row r repo"
    and "\<And>e e'. rel e e' \<Longrightarrow> blocked row i e \<Longrightarrow> blocked row i e'" "blocked_inv row i s"
  shows "blocked_inv row i s'"
  using assms(1)
proof (cases rule: limiter_run.cases)
  case (goroutine n ts j pc e pc' e')
  have pc: "pc = SaveToken t \<Longrightarrow> ApiTokenID t \<noteq> i" for t
    using goroutine(3,4) assms(4) nth_mem [OF goroutine(3)] by (fastforce simp: blocked_inv_def no_save_def goroutine(1))
  have "blocked row i e' \<and> (\<forall>t. pc' = SaveToken t \<longrightarrow> ApiTokenID t \<noteq> i)"
    by (rule limiter_step_blocked [OF assms(2) _ pc goroutine(5)])
      (use assms(4) goroutine(1) in \<open>simp_all add: blocked_inv_def\<close>)
  then show ?thesis
    using assms(4) goroutine no_save_update by (auto simp: blocked_inv_def)
qed (use assms(3,4) in \<open>auto simp: blocked_inv_def no_save_def\<close>)

text \<open>C12: Blocking is final as long as no transition is under way: once the row of a token is BLOCKED and no
  goroutine stands between its read and its save of this token, every interleaving of any number of
  requests, with failing commands and with whatever else happens outside except an unblocking by
  others, leaves the token BLOCKED.\<close>

theorem blocked_final:
  assumes "row_laws row r repo" "\<And>e e'. rel e e' \<Longrightarrow> blocked row i e \<Longrightarrow> blocked row i e'"
    and "blocked row i e" "no_save i ts"
    and "(limiter_run r repo rel)\<^sup>*\<^sup>* (e, ts) (e', ts')"
  shows "blocked row i e' \<and> no_save i ts'"
proof -
  have "blocked_inv row i (e', ts')" if "blocked_inv row i (e, ts)"
    using assms(5) that
    by (induction rule: rtranclp_induct) (auto intro: limiter_run_blocked [OF _ assms(1,2)])
  then show ?thesis using assms(3,4) by (simp add: blocked_inv_def)
qed

subsection \<open>Tables\<close>

text \<open>A database with the tokens by their ids; nothing fails and nothing expires by itself.\<close>

record rows_world = rate_world +
  rw_rows :: "(int, api_token) gomap"

definition token_row :: "'a rows_world_scheme \<Rightarrow> int \<Rightarrow> api_token option" where
  "token_row e i =
     (case map_of (rw_rows e) i of
        None \<Rightarrow> None
      | Some t \<Rightarrow> if ApiTokenID t = i then Some t else None)"

definition rows_repo :: "'a rows_world_scheme repositories" where
  "rows_repo =
     demo_repo\<lparr>rp_FindByID := (\<lambda>i e. (case token_row e i of None \<Rightarrow> Err RecordNotFound | Some t \<Rightarrow> Ok t, e)),
       rp_Save := (\<lambda>t e. (Ok (), e\<lparr>rw_rows := AList.update (ApiTokenID t) t (rw_rows e)\<rparr>))\<rparr>"

definition rows_world0 :: rows_world where
  "rows_world0 = \<lparr>tb_local = [], tb_redis = [], qw_token = demo_token, rw_now = noon, rw_rows = [(7, demo_token)]\<rparr>"

lemma rows_laws: "row_laws token_row (table_limiter k) rows_repo"
  by (auto simp: row_laws_def token_row_def rows_repo_def table_redis_def table_add_def Let_def fun_eq_iff
      update_conv' split: option.splits if_splits)

text \<open>One goroutine after the other, in the order of a list of their numbers.\<close>

fun limiter_schedule ::
  "'e redis_rate_limiter \<Rightarrow> 'e repositories \<Rightarrow> nat list \<Rightarrow> 'e \<times> (int \<times> limiter_pc) list
    \<Rightarrow> 'e \<times> (int \<times> limiter_pc) list" where
  "limiter_schedule r repo [] s = s"
| "limiter_schedule r repo (j # js) (e, ts) =
     (if j < length ts
      then (case limiter_step r repo (fst (ts ! j)) (snd (ts ! j)) e of
              (pc', e') \<Rightarrow> limiter_schedule r repo js (e', ts[j := (fst (ts ! j), pc')]))
      else limiter_schedule r repo js (e, ts))"

lemma schedule_runs: "(limiter_run r repo rel)\<^sup>*\<^sup>* s (limiter_schedule r repo js s)"
proof (induction js arbitrary: s)
  case (Cons j js)
  obtain e ts where s: "s = (e, ts)" by fastforce
  show ?case
  proof (cases "j < length ts")
    case True
    obtain pc' e' where step: "limiter_step r repo (fst (ts ! j)) (snd (ts ! j)) e = (pc', e')" by fastforce
    then have "limiter_run r repo rel (e, ts) (e', ts[j := (fst (ts ! j), pc')])"
      using True by (intro goroutine [where pc = "snd (ts ! j)"]) auto
    then show ?thesis using Cons True step by (simp add: s converse_rtranclp_into_rtranclp)
  qed (use Cons in \<open>simp add: s\<close>)
qed simp

lemma schedule_length: "length (snd (limiter_schedule r repo js s)) = length (snd s)"
  by (induction r repo js s rule: limiter_schedule.induct) (simp_all split: prod.splits)

lemma starts_run: "(limiter_run r repo rel)\<^sup>*\<^sup>* (e, ts)
    (e, ts @ concat (replicate n [(i, IncrConcurrent), (i, DecrConcurrent)]))"
proof (induction n arbitrary: ts)
  case (Suc n)
  have "limiter_run r repo rel (e, ts) (e, ts @ [(i, IncrConcurrent)])"
    "limiter_run r repo rel (e, ts @ [(i, IncrConcurrent)]) (e, (ts @ [(i, IncrConcurrent)]) @ [(i, DecrConcurrent)])"
    by (rule start_track start_release)+
  then show ?case
    using Suc [of "ts @ [(i, IncrConcurrent), (i, DecrConcurrent)]"] by (simp add: converse_rtranclp_into_rtranclp)
qed simp

text \<open>The commands on tables.\<close>

lemma bucket_other [simp]: "bucketKey r i e \<noteq> concurrentKey j" "concurrentKey j \<noteq> bucketKey r i e"
  by (auto simp: bucketKey_def concurrentKey_def rateLimitKeyPrefix_def concurrentKeyPrefix_def)

lemma bucket_same [simp]:
  "bucketKey (table_limiter k) i (set_counter key n e) = bucketKey (table_limiter k) i e"
  "bucketKey (table_limiter k) i (e\<lparr>rw_rows := rows\<rparr>) = bucketKey (table_limiter k) i e"
  by (simp_all add: bucketKey_def)

lemma table_steps:
  fixes e :: "'a rate_world_scheme"
  shows "limiter_step (table_limiter k) repo i IncrConcurrent e = (ExpireConcurrent, set_counter (concurrentKey i) (counter (concurrentKey i) e + 1) e)"
    and "limiter_step (table_limiter k) repo i ExpireConcurrent e = (IncrMinute, e)"
    and "limiter_step (table_limiter k) repo i IncrMinute e =
      (if (word_of_int (counter (bucketKey (table_limiter k) i e) e + 1) :: int64) = 1 then ExpireMinute (bucketKey (table_limiter k) i e) else ReadConcurrent,
       set_counter (bucketKey (table_limiter k) i e) (counter (bucketKey (table_limiter k) i e) e + 1) e)"
    and "limiter_step (table_limiter k) repo i (ExpireMinute key) e = (ReadConcurrent, e)"
    and "limiter_step (table_limiter k) repo i DecrConcurrent e =
      (if sint (word_of_int (counter (concurrentKey i) e - 1) :: int64) < 0 then ResetConcurrent else Released,
       set_counter (concurrentKey i) (counter (concurrentKey i) e - 1) e)"
    and "limiter_step (table_limiter k) repo i ResetConcurrent e = (Released, set_counter (concurrentKey i) 0 e)"
  by (simp_all add: table_redis_def table_add_def Let_def counter_def set_counter_def)

lemma table_reads:
  fixes e :: "'a rate_world_scheme"
  assumes "map_of (tb_redis e) (concurrentKey i) = Some (show_int c)" "- (2 ^ 63) \<le> c" "c < 2 ^ 63"
    and "map_of (tb_redis e) (bucketKey (table_limiter k) i e) = Some (show_int m)" "- (2 ^ 63) \<le> m" "m < 2 ^ 63"
  shows "limiter_step (table_limiter k) repo i ReadConcurrent e = (ReadMinute (word_of_int c), e)"
    and "limiter_step (table_limiter k) repo i (ReadMinute n) e = (after_reads k n m, e)"
  using assms by (simp_all add: table_GetInt ParseInt64_show)

text \<open>Three requests, each with its two goroutines, until every state check has read the counters: all three
  increments and all three releases come first, so every check finds three requests in the minute and none in
  flight.\<close>

definition three_requests :: "(int \<times> limiter_pc) list" where
  "three_requests = concat (replicate 3 [(7, IncrConcurrent), (7, DecrConcurrent)])"

lemma three_run: "(limiter_run r repo rel)\<^sup>*\<^sup>* (e, []) (limiter_schedule r repo js (e, three_requests))"
proof -
  have "(limiter_run r repo rel)\<^sup>*\<^sup>* (e, []) (e, [] @ three_requests)"
    unfolding three_requests_def by (rule starts_run)
  then show ?thesis using schedule_runs [of r repo rel "(e, three_requests)" js] by (simp add: rtranclp_trans)
qed

definition to_the_checks :: "nat list" where
  "to_the_checks = [0, 0, 0, 0, 2, 2, 2, 4, 4, 4, 1, 3, 5, 0, 0, 2, 2, 4, 4]"

lemma checks_reached:
  "\<exists>e. limiter_schedule (table_limiter 200) rows_repo to_the_checks (rows_world0, three_requests) =
     (e, [(7, ReadToken), (7, Released), (7, ReadToken), (7, Released), (7, ReadToken), (7, Released)])
   \<and> rw_rows e = [(7, demo_token)]"
proof -
  let ?L = "table_limiter 200 :: rows_world redis_rate_limiter" and ?R = "rows_repo :: rows_world repositories"
  let ?C = "concurrentKey 7" and ?B = "bucketKey ?L 7 rows_world0"
  have z: "counter ?C rows_world0 = 0" "counter ?B rows_world0 = 0" "bucketKey ?L 7 rows_world0 = ?B"
    by (simp_all add: counter_def redis_number_def rows_world0_def)
  define e1 where "e1 = set_counter ?C 1 rows_world0"
  have f1: "counter ?C e1 = 1" "counter ?B e1 = 0" "bucketKey ?L 7 e1 = ?B"
    using z by (simp_all add: e1_def counter_set_counter)
  define e2 where "e2 = set_counter ?B 1 e1"
  have f2: "counter ?C e2 = 1" "counter ?B e2 = 1" "bucketKey ?L 7 e2 = ?B"
    using f1 by (simp_all add: e2_def counter_set_counter)
  define e3 where "e3 = set_counter ?C 2 e2"
  have f3: "counter ?C e3 = 2" "counter ?B e3 = 1" "bucketKey ?L 7 e3 = ?B"
    using f2 by (simp_all add: e3_def counter_set_counter)
  define e4 where "e4 = set_counter ?B 2 e3"
  have f4: "counter ?C e4 = 2" "counter ?B e4 = 2" "bucketKey ?L 7 e4 = ?B"
    using f3 by (simp_all add: e4_def counter_set_counter)
  define e5 where "e5 = set_counter ?C 3 e4"
  have f5: "counter ?C e5 = 3" "counter ?B e5 = 2" "bucketKey ?L 7 e5 = ?B"
    using f4 by (simp_all add: e5_def counter_set_counter)
  define e6 where "e6 = set_counter ?B 3 e5"
  have f6: "counter ?C e6 = 3" "counter ?B e6 = 3" "bucketKey ?L 7 e6 = ?B"
    using f5 by (simp_all add: e6_def counter_set_counter)
  define e7 where "e7 = set_counter ?C 2 e6"
  have f7: "counter ?C e7 = 2" "counter ?B e7 = 3" "bucketKey ?L 7 e7 = ?B"
    using f6 by (simp_all add: e7_def counter_set_counter)
  define e8 where "e8 = set_counter ?C 1 e7"
  have f8: "counter ?C e8 = 1" "counter ?B e8 = 3" "bucketKey ?L 7 e8 = ?B"
    using f7 by (simp_all add: e8_def counter_set_counter)
  define e9 where "e9 = set_counter ?C 0 e8"
  have f9: "counter ?C e9 = 0" "counter ?B e9 = 3" "bucketKey ?L 7 e9 = ?B"
    using f8 by (simp_all add: e9_def counter_set_counter)
  have t1: "limiter_step ?L ?R 7 IncrConcurrent rows_world0 = (ExpireConcurrent, e1)"
    using z by (simp add: table_steps e1_def del: limiter_step.simps)
  have t2: "limiter_step ?L ?R 7 IncrMinute e1 = (ExpireMinute ?B, e2)"
    using f1 by (simp add: table_steps e2_def del: limiter_step.simps)
  have t3: "limiter_step ?L ?R 7 IncrConcurrent e2 = (ExpireConcurrent, e3)"
    using f2 by (simp add: table_steps e3_def del: limiter_step.simps)
  have t4: "limiter_step ?L ?R 7 IncrMinute e3 = (ReadConcurrent, e4)"
    using f3 by (simp add: table_steps e4_def del: limiter_step.simps)
  have t5: "limiter_step ?L ?R 7 IncrConcurrent e4 = (ExpireConcurrent, e5)"
    using f4 by (simp add: table_steps e5_def del: limiter_step.simps)
  have t6: "limiter_step ?L ?R 7 IncrMinute e5 = (ReadConcurrent, e6)"
    using f5 by (simp add: table_steps e6_def del: limiter_step.simps)
  have t7: "limiter_step ?L ?R 7 DecrConcurrent e6 = (Released, e7)"
    using f6 by (simp add: table_steps e7_def del: limiter_step.simps)
  have t8: "limiter_step ?L ?R 7 DecrConcurrent e7 = (Released, e8)"
    using f7 by (simp add: table_steps e8_def del: limiter_step.simps)
  have t9: "limiter_step ?L ?R 7 DecrConcurrent e8 = (Released, e9)"
    using f8 by (simp add: table_steps e9_def del: limiter_step.simps)
  have idle: "limiter_step ?L ?R 7 ExpireConcurrent e = (IncrMinute, e)"
    "limiter_step ?L ?R 7 (ExpireMinute key) e = (ReadConcurrent, e)" for e key
    by (rule table_steps)+
  have m: "map_of (tb_redis e9) ?C = Some (show_int 0)" "map_of (tb_redis e9) ?B = Some (show_int 3)"
    by (simp_all add: e9_def e8_def e7_def e6_def)
  have reads: "limiter_step ?L ?R 7 ReadConcurrent e9 = (ReadMinute 0, e9)"
    "limiter_step ?L ?R 7 (ReadMinute 0) e9 = (ReadToken, e9)"
    using table_reads [of e9 7 0 200 3 ?R] m f9 by (simp_all add: after_reads_def)
  have "rw_rows e9 = [(7, demo_token)]"
    by (simp add: e9_def e8_def e7_def e6_def e5_def e4_def e3_def e2_def e1_def set_counter_def rows_world0_def)
  then show ?thesis
    by (simp add: to_the_checks_def three_requests_def eval_nat_numeral t1 t2 t3 t4 t5 t6 t7 t8 t9 idle reads
        del: limiter_step.simps)
qed

text \<open>The blocked token of the example under three requests in any order.\<close>

theorem blocked_final_witness:
  "\<forall>js. blocked token_row 7 (fst (limiter_schedule (table_limiter 200) rows_repo js
     (rows_world0\<lparr>rw_rows := [(7, demo_token\<lparr>State := StateBlocked\<rparr>)]\<rparr>, three_requests)))"
proof
  fix js
  let ?L = "table_limiter 200 :: rows_world redis_rate_limiter" and ?R = "rows_repo :: rows_world repositories"
  let ?e = "rows_world0\<lparr>rw_rows := [(7, demo_token\<lparr>State := StateBlocked\<rparr>)]\<rparr>"
  have start: "blocked token_row 7 ?e" by (simp add: blocked_def token_row_def demo_token_def)
  have run: "(limiter_run ?L ?R (\<lambda>_ _. False))\<^sup>*\<^sup>* (?e, [])
      (fst (limiter_schedule ?L ?R js (?e, three_requests)), snd (limiter_schedule ?L ?R js (?e, three_requests)))"
    using three_run by (metis prod.collapse)
  show "blocked token_row 7 (fst (limiter_schedule ?L ?R js (?e, three_requests)))"
    by (rule conjunct1 [OF blocked_final [OF rows_laws _ start _ run]]) (simp_all add: no_save_def)
qed

text \<open>C33: A transition under way undoes the blocking: with the default multiplier, from an empty Redis and a
  NORMAL token, three short requests at the same time can block the token and, by goroutines that were
  started before, take it back to WARNING; then nobody is running any more and the token stays
  unblocked.\<close>

theorem block_undone:
  "\<exists>e1 ts1 e2 ts2.
     (limiter_run (table_limiter 200) rows_repo (\<lambda>_ _. False))\<^sup>*\<^sup>* (rows_world0, []) (e1, ts1)
     \<and> blocked token_row 7 e1
     \<and> (limiter_run (table_limiter 200) rows_repo (\<lambda>_ _. False))\<^sup>*\<^sup>* (e1, ts1) (e2, ts2)
     \<and> set ts2 = {(7, Tracked), (7, Released)} \<and> length ts2 = 6
     \<and> token_row e2 7 = Some (demo_token\<lparr>State := StateWarning\<rparr>)"
proof -
  let ?L = "table_limiter 200 :: rows_world redis_rate_limiter" and ?R = "rows_repo :: rows_world repositories"
  let ?run = "(limiter_run ?L ?R (\<lambda>_ _. False))\<^sup>*\<^sup>*"
  let ?ts = "[(7, ReadToken), (7, Released), (7, ReadToken), (7, Released), (7, ReadToken), (7, Released)]"
  obtain e where e: "limiter_schedule ?L ?R to_the_checks (rows_world0, three_requests) = (e, ?ts)"
    "rw_rows e = [(7, demo_token)]" using checks_reached by blast
  let ?s1 = "limiter_schedule ?L ?R [0, 2, 2, 4, 4] (e, ?ts)"
  have "?run (rows_world0, []) (e, ?ts)"
    using three_run [of ?L ?R _ rows_world0 to_the_checks] unfolding e(1) .
  then have run1: "?run (rows_world0, []) ?s1" by (rule rtranclp_trans) (rule schedule_runs)
  have id: "ApiTokenID demo_token = 7" "State demo_token = StateNormal" by (simp_all add: demo_token_def)
  note eval = eval_nat_numeral rows_repo_def read_token_step_def save_token_step_def token_row_def e(2) id
  have s1: "?s1 = (e\<lparr>rw_rows := [(7, demo_token\<lparr>State := StateBlocked\<rparr>)]\<rparr>,
      [(7, SaveToken (demo_token\<lparr>State := StateWarning\<rparr>)), (7, Released), (7, Tracked), (7, Released), (7, Tracked), (7, Released)])"
    by (simp add: eval)
  have run2: "?run ?s1 (limiter_schedule ?L ?R [0] ?s1)" by (rule schedule_runs)
  have s2: "limiter_schedule ?L ?R [0] ?s1 = (e\<lparr>rw_rows := [(7, demo_token\<lparr>State := StateWarning\<rparr>)]\<rparr>,
      [(7, Tracked), (7, Released), (7, Tracked), (7, Released), (7, Tracked), (7, Released)])"
    unfolding s1 by (simp add: eval)
  show ?thesis
    using run1 run2 unfolding s2 unfolding s1
    by (intro exI conjI) (assumption | simp add: blocked_def token_row_def id insert_commute)+
qed

subsection \<open>The counter of concurrent requests\<close>

text \<open>How many goroutines of token \<open>i\<close> are at a place; a goroutine is counted after its increment.\<close>

definition number_at :: "(limiter_pc \<Rightarrow> bool) \<Rightarrow> int \<Rightarrow> (int \<times> limiter_pc) list \<Rightarrow> int" where
  "number_at P i ts = int (sum_list (map (\<lambda>(j, pc). if j = i \<and> P pc then 1 else 0) ts))"

abbreviation counted :: "limiter_pc \<Rightarrow> bool" where
  "counted pc \<equiv> pc \<notin> {IncrConcurrent, DecrConcurrent, ResetConcurrent, Released}"

abbreviation given_back :: "limiter_pc \<Rightarrow> bool" where
  "given_back pc \<equiv> pc \<in> {ResetConcurrent, Released}"

abbreviation resetting :: "limiter_pc \<Rightarrow> bool" where
  "resetting pc \<equiv> pc = ResetConcurrent"

lemma number_at_bounds: "0 \<le> number_at P i ts" "number_at P i ts \<le> int (length ts)"
proof -
  have "sum_list (map (\<lambda>(j, pc). if j = i \<and> P pc then 1 else 0) ts) \<le> length ts" by (induction ts) auto
  then show "number_at P i ts \<le> int (length ts)" by (simp add: number_at_def)
qed (simp add: number_at_def)

lemma number_at_append [simp]:
  "number_at P i (ts @ [(j, pc)]) = number_at P i ts + (if j = i \<and> P pc then 1 else 0)"
  by (simp add: number_at_def)

lemma number_at_update:
  assumes "n < length ts" "ts ! n = (j, pc)"
  shows "number_at P i (ts[n := (j, pc')]) =
    number_at P i ts + (if j = i then (if P pc' then 1 else 0) - (if P pc then 1 else 0) else 0)"
  using sum_list_map_update [OF assms(1), of "\<lambda>(j, pc). if j = i \<and> P pc then 1 else (0 :: nat)" "(j, pc')"] assms(2)
  by (auto simp: number_at_def split: if_splits)

text \<open>What a step does to the counter of token \<open>i\<close>, and where it leads.\<close>

lemma concurrentKey_eq [simp]: "concurrentKey i = concurrentKey j \<longleftrightarrow> i = j"
  by (simp add: concurrentKey_def)

lemma counter_rows [simp]:
  fixes e :: "'a rows_world_scheme"
  shows "counter k (e\<lparr>rw_rows := rows\<rparr>) = counter k e"
  by (simp add: counter_def)

lemma limiter_step_goes:
  assumes "limiter_step r repo j pc e = (pc', e')"
  shows "pc = ResetConcurrent \<Longrightarrow> pc' = Released" "pc = DecrConcurrent \<Longrightarrow> given_back pc'"
    and "pc \<noteq> IncrConcurrent \<Longrightarrow> counted pc' \<longleftrightarrow> counted pc" "counted pc' \<or> given_back pc'"
    and "given_back pc' \<longleftrightarrow> pc = DecrConcurrent \<or> given_back pc" "resetting pc' \<longrightarrow> pc = DecrConcurrent"
  using assms
  by (cases pc; auto simp: after_reads_def read_token_step_def save_token_step_def Let_def
      split: sum.splits prod.splits if_splits)+

lemma limiter_step_counter:
  fixes e :: "'a rows_world_scheme"
  assumes "limiter_step (table_limiter k) rows_repo j pc e = (pc', e')"
    and "counter (concurrentKey i) e = n" "- (2 ^ 62) < n" "n < 2 ^ 62"
  shows "counter (concurrentKey i) e' =
      (if j \<noteq> i then n
       else if pc = IncrConcurrent then n + 1
       else if pc = DecrConcurrent then n - 1
       else if pc = ResetConcurrent then 0 else n)"
proof (cases pc)
  case ReadToken
  then show ?thesis using assms
    by (auto simp: read_token_step_def rows_repo_def split: sum.splits prod.splits option.splits)
next
  case (SaveToken t)
  then show ?thesis using assms by (auto simp: save_token_step_def rows_repo_def)
next
  case ReadConcurrent
  then show ?thesis using assms by (auto simp: table_GetInt split: sum.splits option.splits if_splits)
next
  case (ReadMinute m)
  then show ?thesis using assms by (auto simp: table_GetInt split: sum.splits option.splits if_splits)
next
  case Tracked
  then show ?thesis using assms by simp
next
  case Released
  then show ?thesis using assms by simp
qed (use assms in \<open>auto simp: table_steps counter_set_counter counter_other simp del: limiter_step.simps
      split: if_splits\<close>)

lemma limiter_step_resets:
  fixes e :: "'a rows_world_scheme"
  assumes "limiter_step (table_limiter k) repo i DecrConcurrent e = (pc', e')"
    and "counter (concurrentKey i) e = n" "- (2 ^ 62) < n" "n < 2 ^ 62"
  shows "pc' = (if n \<le> 0 then ResetConcurrent else Released)"
proof -
  have "sint (word_of_int (n - 1) :: int64) = n - 1" using assms(3,4) by (intro sint_word_of_int) auto
  then show ?thesis using assms(1,2) by (simp add: table_steps del: limiter_step.simps split: if_splits)
qed

text \<open>A counter never exceeds the requests counted, and is below zero only until a reset under way is done.\<close>

definition counter_inv :: "int \<Rightarrow> 'a rows_world_scheme \<times> (int \<times> limiter_pc) list \<Rightarrow> bool" where
  "counter_inv i s \<longleftrightarrow>
     - number_at resetting i (snd s) \<le> counter (concurrentKey i) (fst s)
     \<and> counter (concurrentKey i) (fst s) \<le> number_at counted i (snd s)"

lemma run_length: "limiter_run r repo rel s s' \<Longrightarrow> length (snd s) \<le> length (snd s')"
  by (erule limiter_run.cases) auto

lemma counter_inv_start: "counter (concurrentKey i) e = 0 \<Longrightarrow> counter_inv i (e, [])"
  by (simp add: counter_inv_def number_at_def)

lemma counter_inv_small:
  "counter_inv i s \<Longrightarrow> int (length (snd s)) < 2 ^ 62 \<Longrightarrow>
    - (2 ^ 62) < counter (concurrentKey i) (fst s) \<and> counter (concurrentKey i) (fst s) < 2 ^ 62"
  using number_at_bounds [of resetting i "snd s"] number_at_bounds [of counted i "snd s"]
  by (simp add: counter_inv_def)

lemma counter_inv_step:
  assumes "limiter_run (table_limiter k) rows_repo rel s s'"
    and "\<And>e e'. rel e e' \<Longrightarrow> counter (concurrentKey i) e' \<in> {0, counter (concurrentKey i) e}"
    and inv: "counter_inv i s" and small: "int (length (snd s)) < 2 ^ 62"
  shows "counter_inv i s'"
  using assms(1)
proof (cases rule: limiter_run.cases)
  case (goroutine n ts j pc e pc' e')
  let ?c = "counter (concurrentKey i) e"
  have c: "- (2 ^ 62) < ?c" "?c < 2 ^ 62" using counter_inv_small [OF inv small] goroutine by simp_all
  note bounds = number_at_bounds [of resetting i "ts[n := (j, pc')]"] number_at_bounds [of counted i "ts[n := (j, pc')]"]
  note new = limiter_step_counter [OF goroutine(5) refl c]
  note num = number_at_update [OF goroutine(3,4), of _ i pc']
  note goes = limiter_step_goes [OF goroutine(5)]
  have decr: "j = i \<Longrightarrow> pc = DecrConcurrent \<Longrightarrow> pc' = (if ?c \<le> 0 then ResetConcurrent else Released)"
    using limiter_step_resets [OF _ refl c] goroutine(5) by blast
  have old: "- number_at resetting i ts \<le> ?c" "?c \<le> number_at counted i ts"
    using inv goroutine(1) by (simp_all add: counter_inv_def)
  have "- number_at resetting i (ts[n := (j, pc')]) \<le> counter (concurrentKey i) e' \<and>
      counter (concurrentKey i) e' \<le> number_at counted i (ts[n := (j, pc')])"
  proof (cases "j = i")
    case True
    note facts = True new old
    show ?thesis
    proof (cases pc)
      case DecrConcurrent
      then show ?thesis
        using facts decr number_at_bounds(1) [of resetting i ts] unfolding num by (cases "?c \<le> 0") simp_all
    next
      case ResetConcurrent
      then show ?thesis using facts goes(1) bounds by simp
    next
      case IncrConcurrent
      then show ?thesis using facts goes(4,5,6) unfolding num by (simp split: if_splits)
    qed (unfold num, use facts goes(3,6) in simp_all)
  qed (use new num old in simp)
  then show ?thesis using goroutine(2) by (simp add: counter_inv_def)
next
  case (outside e e' ts)
  then show ?thesis
    using assms(2) [of e e'] inv number_at_bounds(1) [of resetting i ts] number_at_bounds(1) [of counted i ts]
    by (auto simp: counter_inv_def)
qed (use inv in \<open>auto simp: counter_inv_def\<close>)


text \<open>Three requests on empty tables, in any order, where Redis may drop all its keys at any time.\<close>

definition redis_expires :: "rows_world \<Rightarrow> rows_world \<Rightarrow> bool" where
  "redis_expires e e' \<longleftrightarrow> e' = e\<lparr>tb_redis := []\<rparr>"

lemma counter_empty: "tb_redis e = [] \<Longrightarrow> counter key e = 0"
  by (simp add: counter_def redis_number_def)


text \<open>The runs in which no release overtakes the counting: at no time have more requests of the token been
  given back than counted.\<close>

definition in_order :: "int \<Rightarrow> 'e \<times> (int \<times> limiter_pc) list \<Rightarrow> bool" where
  "in_order i s \<longleftrightarrow> number_at given_back i (snd s) \<le> number_at counted i (snd s)"

definition exact_inv :: "int \<Rightarrow> 'a rows_world_scheme \<times> (int \<times> limiter_pc) list \<Rightarrow> bool" where
  "exact_inv i s \<longleftrightarrow> in_order i s \<and> number_at resetting i (snd s) = 0
     \<and> counter (concurrentKey i) (fst s) = number_at counted i (snd s) - number_at given_back i (snd s)"

lemma number_at_positive: "n < length ts \<Longrightarrow> ts ! n = (i, pc) \<Longrightarrow> P pc \<Longrightarrow> number_at P i ts \<noteq> 0"
  using nth_mem [of n ts] by (force simp: number_at_def)

lemma exact_inv_step:
  assumes "limiter_run (table_limiter k) rows_repo rel s s'" "in_order i s'"
    and "\<And>e e'. rel e e' \<Longrightarrow> counter (concurrentKey i) e' = counter (concurrentKey i) e"
    and inv: "exact_inv i s" and small: "int (length (snd s)) < 2 ^ 62"
  shows "exact_inv i s'"
  using assms(1)
proof (cases rule: limiter_run.cases)
  case (goroutine n ts j pc e pc' e')
  let ?c = "counter (concurrentKey i) e"
  have old: "in_order i (e, ts)" "number_at resetting i ts = 0" "?c = number_at counted i ts - number_at given_back i ts"
    using inv goroutine(1) by (simp_all add: exact_inv_def)
  have c: "- (2 ^ 62) < ?c" "?c < 2 ^ 62"
    using old small number_at_bounds [of counted i ts] number_at_bounds [of given_back i ts] goroutine(1)
    by (simp_all add: in_order_def)
  note new = limiter_step_counter [OF goroutine(5) refl c]
  note num = number_at_update [OF goroutine(3,4), of _ i pc']
  note goes = limiter_step_goes [OF goroutine(5)]
  have decr: "j = i \<Longrightarrow> pc = DecrConcurrent \<Longrightarrow> pc' = (if ?c \<le> 0 then ResetConcurrent else Released)"
    using limiter_step_resets [OF _ refl c] goroutine(5) by blast
  have order: "number_at given_back i (ts[n := (j, pc')]) \<le> number_at counted i (ts[n := (j, pc')])"
    using assms(2) goroutine(2) by (simp add: in_order_def)
  have "number_at resetting i (ts[n := (j, pc')]) = 0 \<and> counter (concurrentKey i) e' =
      number_at counted i (ts[n := (j, pc')]) - number_at given_back i (ts[n := (j, pc')])"
  proof (cases "j = i")
    case True
    note facts = True new old order
    show ?thesis
    proof (cases pc)
      case DecrConcurrent
      then show ?thesis using facts decr unfolding num by (cases "?c \<le> 0") simp_all
    next
      case ResetConcurrent
      then show ?thesis using old(2) number_at_positive [of n ts i pc resetting] goroutine True by simp
    next
      case IncrConcurrent
      then show ?thesis using facts goes(4,5,6) unfolding num by (simp split: if_splits)
    qed (unfold num, use facts goes(3,5,6) in simp_all)
  qed (use new num old in simp)
  then show ?thesis using goroutine(2) assms(2) by (simp add: exact_inv_def)
qed (use inv assms(2,3) in \<open>auto simp: exact_inv_def in_order_def\<close>)


text \<open>C34: Out of order the counter is wrong in both directions. When the release of a request overtakes its
  counting, the counter ends at one although nothing is in flight; and when other requests are counted between
  the release and its reset of the negative counter, the reset loses them: the counter ends at zero although
  two requests are counted and only one is given back.\<close>

theorem counter_out_of_order:
  "(\<exists>e ts. (limiter_run (table_limiter 200) rows_repo (\<lambda>_ _. False))\<^sup>*\<^sup>* (rows_world0, []) (e, ts)
     \<and> number_at counted 7 ts = 1 \<and> number_at given_back 7 ts = 1 \<and> number_at resetting 7 ts = 0
     \<and> counter (concurrentKey 7) e = 1)
   \<and> (\<exists>e ts. (limiter_run (table_limiter 200) rows_repo (\<lambda>_ _. False))\<^sup>*\<^sup>* (rows_world0, []) (e, ts)
     \<and> number_at counted 7 ts = 2 \<and> number_at given_back 7 ts = 1 \<and> number_at resetting 7 ts = 0
     \<and> counter (concurrentKey 7) e = 0)"
proof -
  let ?L = "table_limiter 200 :: rows_world redis_rate_limiter" and ?R = "rows_repo :: rows_world repositories"
  let ?C = "concurrentKey 7"
  note run = three_run [of ?L ?R "\<lambda>_ _. False" rows_world0]
  define e1 where "e1 = set_counter ?C (- 1) rows_world0"
  define e2 where "e2 = set_counter ?C 0 e1"
  define e3 where "e3 = set_counter ?C 1 e2"
  define e4 where "e4 = set_counter ?C 0 e3"
  have c: "counter ?C rows_world0 = 0" "counter ?C e1 = - 1" "counter ?C e2 = 0" "counter ?C e3 = 1" "counter ?C e4 = 0"
    by (simp_all add: counter_empty rows_world0_def e1_def e2_def e3_def e4_def counter_set_counter)
  have decr: "limiter_step ?L ?R 7 DecrConcurrent rows_world0 = (ResetConcurrent, e1)"
    using c by (simp add: table_steps e1_def del: limiter_step.simps)
  have incr: "limiter_step ?L ?R 7 IncrConcurrent e1 = (ExpireConcurrent, e2)"
    "limiter_step ?L ?R 7 IncrConcurrent e2 = (ExpireConcurrent, e3)"
    using c by (simp_all add: table_steps e2_def e3_def del: limiter_step.simps)
  have reset: "limiter_step ?L ?R 7 ResetConcurrent e1 = (Released, e2)"
    "limiter_step ?L ?R 7 ResetConcurrent e3 = (Released, e4)"
    by (simp_all add: table_steps e2_def e4_def del: limiter_step.simps)
  let ?high = "[(7, ExpireConcurrent), (7, Released), (7, IncrConcurrent), (7, DecrConcurrent), (7, IncrConcurrent), (7, DecrConcurrent)]"
  let ?low = "[(7, ExpireConcurrent), (7, Released), (7, ExpireConcurrent), (7, DecrConcurrent), (7, IncrConcurrent), (7, DecrConcurrent)]"
  have high: "limiter_schedule ?L ?R [1, 1, 0] (rows_world0, three_requests) = (e3, ?high)"
    and low: "limiter_schedule ?L ?R [1, 0, 2, 1] (rows_world0, three_requests) = (e4, ?low)"
    by (simp_all add: three_requests_def eval_nat_numeral decr incr reset del: limiter_step.simps)
  have "number_at counted 7 ?high = 1" "number_at given_back 7 ?high = 1" "number_at resetting 7 ?high = 0"
    "number_at counted 7 ?low = 2" "number_at given_back 7 ?low = 1" "number_at resetting 7 ?low = 0"
    by (simp_all add: number_at_def)
  then show ?thesis using run [of "[1, 1, 0]"] run [of "[1, 0, 2, 1]"] c unfolding high low by blast
qed

lemma four_steps: "r a b \<Longrightarrow> r b c \<Longrightarrow> r c d \<Longrightarrow> r d e \<Longrightarrow> r\<^sup>*\<^sup>* a e"
  by (meson converse_rtranclp_into_rtranclp rtranclp.rtrancl_refl)


end
