(* ===== verification/ClientPool.thy ===== *)
theory ClientPool
  imports Requester
begin

text \<open>
  The pool of HTTP clients of \<open>http_requester.go\<close> with the identity of its clients. \<open>Requester\<close> has
  \<open>getOrCreateClient\<close> as one function on values; here a client is an address on a heap, and the calls
  of all requests interleave: each loads from the \<open>sync.Map\<close>, makes a client of its own when it finds none
  and offers it with \<open>LoadOrStore\<close>, which keeps the first one.
\<close>

subsection \<open>Steps\<close>

record client_pool =
  pool_heap :: "http_client list"
  pool_map :: "(gostring, nat) gomap"

datatype get_client_pc = PoolLoad | PoolCreate | PoolStore nat | PoolGot nat

fun get_client_step :: "gostring \<Rightarrow> get_client_pc \<Rightarrow> client_pool \<Rightarrow> get_client_pc \<times> client_pool" where
  "get_client_step domain PoolLoad p =
     (case map_of (pool_map p) domain of
        Some client \<Rightarrow> (PoolGot client, p)
      | None \<Rightarrow> (PoolCreate, p))"
| "get_client_step domain PoolCreate p =
     (PoolStore (length (pool_heap p)), p\<lparr>pool_heap := pool_heap p @ [newClient]\<rparr>)"
| "get_client_step domain (PoolStore client) p =
     (case map_of (pool_map p) domain of
        Some actual \<Rightarrow> (PoolGot actual, p)
      | None \<Rightarrow> (PoolGot client, p\<lparr>pool_map := AList.update domain client (pool_map p)\<rparr>))"
| "get_client_step domain (PoolGot client) p = (PoolGot client, p)"

inductive get_client_run ::
  "client_pool \<times> (gostring \<times> get_client_pc) list \<Rightarrow> client_pool \<times> (gostring \<times> get_client_pc) list \<Rightarrow> bool" where
  call: "get_client_run (p, cs) (p, cs @ [(domain, PoolLoad)])"
| move: "j < length cs \<Longrightarrow> cs ! j = (domain, pc) \<Longrightarrow> get_client_step domain pc p = (pc', p') \<Longrightarrow>
    get_client_run (p, cs) (p', cs[j := (domain, pc')])"

definition empty_pool :: client_pool where
  "empty_pool = \<lparr>pool_heap = [], pool_map = []\<rparr>"

subsection \<open>One call alone\<close>

fun get_client_alone :: "nat \<Rightarrow> gostring \<Rightarrow> get_client_pc \<times> client_pool \<Rightarrow> get_client_pc \<times> client_pool" where
  "get_client_alone 0 domain s = s"
| "get_client_alone (Suc n) domain s = get_client_alone n domain (get_client_step domain (fst s) (snd s))"

text \<open>The clients of a pool as values, and what holds in every interleaving.\<close>

definition pool_view :: "client_pool \<Rightarrow> (gostring, http_client) gomap" where
  "pool_view p = map (\<lambda>(domain, a). (domain, pool_heap p ! a)) (pool_map p)"

definition pool_ok :: "client_pool \<Rightarrow> bool" where
  "pool_ok p \<longleftrightarrow> (\<forall>(domain, a) \<in> set (pool_map p). a < length (pool_heap p))
     \<and> (\<forall>c \<in> set (pool_heap p). c = newClient)"

lemma map_of_view: "map_of (pool_view p) domain = map_option ((!) (pool_heap p)) (map_of (pool_map p) domain)"
  by (simp add: pool_view_def map_of_map)

lemma update_map: "AList.update k (f v) (map (\<lambda>(k, v). (k, f v)) m) = map (\<lambda>(k, v). (k, f v)) (AList.update k v m)"
  by (induction m) auto

text \<open>The calls that interleave are those of the function: a call that runs alone returns after at most three
  steps a client that is, as a value, the one \<open>getOrCreateClient\<close> returns, and leaves the pool as
  \<open>getOrCreateClient\<close> leaves it.\<close>

theorem pool_calls_from_steps:
  assumes "\<And>p e. hd_pool d (hd_set_pool d p e) = p" "pool_ok p" "hd_pool d e = pool_view p"
  shows "\<exists>a p'. get_client_alone 3 domain (PoolLoad, p) = (PoolGot a, p') \<and> pool_ok p' \<and> a < length (pool_heap p')
    \<and> fst (getOrCreateClient d domain e) = pool_heap p' ! a
    \<and> hd_pool d (snd (getOrCreateClient d domain e)) = pool_view p'"
proof (cases "map_of (pool_map p) domain")
  case (Some a)
  then have "a < length (pool_heap p)" using assms(2) by (auto simp: pool_ok_def dest!: map_of_SomeD)
  then show ?thesis
    using Some assms(2,3) by (simp add: eval_nat_numeral getOrCreateClient_def map_of_view)
next
  case None
  let ?p = "p\<lparr>pool_heap := pool_heap p @ [newClient],
      pool_map := AList.update domain (length (pool_heap p)) (pool_map p)\<rparr>"
  have old: "map (\<lambda>(k, a). (k, (pool_heap p @ [newClient]) ! a)) (pool_map p) = pool_view p"
    using assms(2) by (auto simp: pool_view_def pool_ok_def nth_append)
  have "pool_view ?p = AList.update domain newClient (pool_view p)"
    using update_map [of domain "(!) (pool_heap p @ [newClient])" "length (pool_heap p)" "pool_map p"] old
    by (simp add: pool_view_def)
  moreover have "pool_ok ?p"
    using assms(2) by (fastforce simp: pool_ok_def dest!: set_update_cases)
  ultimately show ?thesis
    using None assms(1,3) by (simp add: eval_nat_numeral getOrCreateClient_def map_of_view)
qed

theorem pool_calls_from_steps_witness:
  "fst (getOrCreateClient demo_pool ''d'' []) = newClient"
  using pool_calls_from_steps [of demo_pool empty_pool "[]" "''d''"]
  by (auto simp: demo_pool_def pool_ok_def empty_pool_def pool_view_def getOrCreateClient_def)

subsection \<open>Interleaved calls\<close>

text \<open>A client that is still to be stored is known to its call alone, a client that was returned is in the pool.\<close>

definition call_ok :: "client_pool \<Rightarrow> gostring \<times> get_client_pc \<Rightarrow> bool" where
  "call_ok p c \<longleftrightarrow>
     (case snd c of
        PoolStore a \<Rightarrow> a < length (pool_heap p) \<and> (\<forall>d. map_of (pool_map p) d \<noteq> Some a)
      | PoolGot a \<Rightarrow> map_of (pool_map p) (fst c) = Some a
      | _ \<Rightarrow> True)"

definition offers_apart :: "(gostring \<times> get_client_pc) list \<Rightarrow> bool" where
  "offers_apart cs \<longleftrightarrow> (\<forall>j < length cs. \<forall>k < length cs. \<forall>a.
     snd (cs ! j) = PoolStore a \<longrightarrow> snd (cs ! k) = PoolStore a \<longrightarrow> j = k)"

definition pool_inv :: "client_pool \<times> (gostring \<times> get_client_pc) list \<Rightarrow> bool" where
  "pool_inv s \<longleftrightarrow> pool_ok (fst s) \<and> inj_on (map_of (pool_map (fst s))) (dom (map_of (pool_map (fst s))))
     \<and> (\<forall>j < length (snd s). call_ok (fst s) (snd s ! j)) \<and> offers_apart (snd s)"

lemma pool_ok_address: "pool_ok p \<Longrightarrow> map_of (pool_map p) d = Some a \<Longrightarrow> a < length (pool_heap p)"
  by (auto simp: pool_ok_def dest!: map_of_SomeD)

lemma offers_apart_update:
  "offers_apart cs \<Longrightarrow> j < length cs \<Longrightarrow> (\<And>a. pc = PoolStore a \<Longrightarrow> \<forall>k < length cs. snd (cs ! k) \<noteq> PoolStore a) \<Longrightarrow>
    offers_apart (cs[j := (d, pc)])"
  by (auto simp: offers_apart_def nth_list_update)

lemma pool_inv_step:
  assumes "get_client_run s s'" and inv: "pool_inv s"
  shows "pool_inv s'"
  using assms(1)
proof (cases rule: get_client_run.cases)
  case (call p cs domain)
  then show ?thesis
    using inv by (auto simp: pool_inv_def call_ok_def offers_apart_def nth_append less_Suc_eq)
next
  case (move j cs domain pc p pc' p')
  have ok: "pool_ok p" "inj_on (map_of (pool_map p)) (dom (map_of (pool_map p)))"
    and calls: "\<And>k. k < length cs \<Longrightarrow> call_ok p (cs ! k)" and apart: "offers_apart cs"
    using inv move(1) by (simp_all add: pool_inv_def)
  have old: "pc' = PoolCreate \<or> (\<exists>a. pc' = PoolGot a \<and> map_of (pool_map p) domain = Some a) \<Longrightarrow> p' = p \<Longrightarrow> ?thesis"
    using move(2,3) ok calls offers_apart_update [OF apart move(3), of pc' domain]
    by (auto simp: pool_inv_def call_ok_def nth_list_update)
  show ?thesis
  proof (cases pc)
    case PoolLoad
    then show ?thesis using move(5) by (intro old) (auto split: option.splits)
  next
    case PoolCreate
    then have p': "p' = p\<lparr>pool_heap := pool_heap p @ [newClient]\<rparr>" "pc' = PoolStore (length (pool_heap p))"
      using move(5) by auto
    have fresh: "\<forall>k < length cs. snd (cs ! k) \<noteq> PoolStore (length (pool_heap p))"
      using calls by (fastforce simp: call_ok_def)
    have "map_of (pool_map p) d \<noteq> Some (length (pool_heap p))" for d
      using pool_ok_address [OF ok(1), of d] by auto
    moreover have "call_ok p' (cs ! k)" if "k < length cs" for k
      using calls [OF that] by (auto simp: call_ok_def p' split: get_client_pc.splits)
    moreover have "pool_ok p'" using ok(1) by (fastforce simp: pool_ok_def p')
    ultimately show ?thesis
      using move(2,3) ok(2) offers_apart_update [OF apart move(3), of pc' domain] fresh
      by (auto simp: pool_inv_def nth_list_update call_ok_def p')
  next
    case (PoolStore a)
    show ?thesis
    proof (cases "map_of (pool_map p) domain")
      case (Some b)
      then show ?thesis using move(5) PoolStore by (intro old) auto
    next
      case None
      then have p': "p' = p\<lparr>pool_map := AList.update domain a (pool_map p)\<rparr>" "pc' = PoolGot a"
        using move(5) PoolStore by auto
      have a: "a < length (pool_heap p)" "\<And>d. map_of (pool_map p) d \<noteq> Some a"
        using calls [OF move(3)] move(4) PoolStore by (auto simp: call_ok_def)
      have "pool_ok p'" using ok(1) a(1) by (fastforce simp: pool_ok_def p' dest!: set_update_cases)
      moreover have "inj_on (map_of (pool_map p')) (dom (map_of (pool_map p')))"
        using ok(2) a(2) None by (auto simp: p' update_conv' inj_on_def dom_def split: if_splits)
      moreover have "call_ok p' (cs ! k)" if "k < length cs" "k \<noteq> j" for k
        using calls [OF that(1)] that apart move(3,4) PoolStore None
        by (auto simp: call_ok_def p' update_conv' offers_apart_def split: get_client_pc.splits)
      ultimately show ?thesis
        using move(2,3) offers_apart_update [OF apart move(3), of pc' domain]
        by (auto simp: pool_inv_def nth_list_update call_ok_def p' update_conv')
    qed
  next
    case (PoolGot a)
    then show ?thesis using move(5) calls [OF move(3)] move(4) by (intro old) (auto simp: call_ok_def)
  qed
qed

lemma pool_kept:
  "get_client_run s s' \<Longrightarrow> map_of (pool_map (fst s)) d = Some a \<Longrightarrow> map_of (pool_map (fst s')) d = Some a"
proof (erule get_client_run.cases)
  fix j cs domain pc p pc' p'
  assume "s = (p, cs)" "s' = (p', cs[j := (domain, pc')])" "get_client_step domain pc p = (pc', p')"
    "map_of (pool_map (fst s)) d = Some a"
  then show "map_of (pool_map (fst s')) d = Some a"
    by (cases pc) (auto simp: update_conv' split: option.splits)
qed simp

text \<open>C27: All requests to one domain share one client, however their calls interleave: from the empty pool, two
  calls that have returned got the same client exactly if they asked for the same domain; that client
  was made by \<open>newClient\<close>, so it follows no redirect, and it stays the client of the domain for good.\<close>

theorem clients_shared:
  assumes "get_client_run\<^sup>*\<^sup>* (empty_pool, []) (p, cs)" "(d1, PoolGot a1) \<in> set cs" "(d2, PoolGot a2) \<in> set cs"
  shows "(a1 = a2 \<longleftrightarrow> d1 = d2) \<and> a1 < length (pool_heap p) \<and> pool_heap p ! a1 = newClient \<and> \<not> hc_follow (pool_heap p ! a1)
    \<and> (\<forall>p' cs'. get_client_run\<^sup>*\<^sup>* (p, cs) (p', cs') \<longrightarrow> map_of (pool_map p') d1 = Some a1)"
proof -
  have "pool_inv (empty_pool, [])" by (simp add: pool_inv_def empty_pool_def pool_ok_def offers_apart_def)
  with assms(1) have inv: "pool_inv (p, cs)" by (induction rule: rtranclp_induct) (auto intro: pool_inv_step)
  have got: "map_of (pool_map p) d = Some a" if "(d, PoolGot a) \<in> set cs" for d a
    using inv that by (fastforce simp: pool_inv_def call_ok_def in_set_conv_nth)
  have maps: "map_of (pool_map p) d1 = Some a1" "map_of (pool_map p) d2 = Some a2"
    using got assms(2,3) by blast+
  have "a1 = a2 \<longleftrightarrow> d1 = d2"
    using maps inv by (auto simp: pool_inv_def dest: inj_onD [of _ _ d1 d2])
  moreover have "a1 < length (pool_heap p)" "pool_heap p ! a1 = newClient"
    using maps(1) inv pool_ok_address [of p d1 a1] by (auto simp: pool_inv_def pool_ok_def)
  moreover have "map_of (pool_map (fst s')) d1 = Some a1" if "get_client_run\<^sup>*\<^sup>* (p, cs) s'" for s'
    using that maps(1) by (induction rule: rtranclp_induct) (auto intro: pool_kept)
  then have "\<forall>p' cs'. get_client_run\<^sup>*\<^sup>* (p, cs) (p', cs') \<longrightarrow> map_of (pool_map p') d1 = Some a1"
    by (metis fst_conv)
  ultimately show ?thesis by (simp add: newClient_def)
qed

text \<open>Two calls for one domain that both find nothing: the second one to store gets the client of the first.\<close>

theorem clients_shared_witness:
  "let cs = [(''d'', PoolGot 1), (''d'', PoolGot 1)]; p = \<lparr>pool_heap = [newClient, newClient], pool_map = [(''d'', 1)]\<rparr> in
     get_client_run\<^sup>*\<^sup>* (empty_pool, []) (p, cs) \<and> \<not> hc_follow (pool_heap p ! 1)"
proof -
  let ?m = "\<lambda>h m a b. (\<lparr>pool_heap = h, pool_map = m\<rparr>, [(''d'', a), (''d'', b)])" and ?c = newClient
  have moves: "get_client_run (p, [(d, x), (d', y)]) (p', [(d, x'), (d', y)])" if "get_client_step d x p = (x', p')" for p p' x x' y d d'
    using move [of 0 "[(d, x), (d', y)]" d x p x' p'] that by simp
  have moves2: "get_client_run (p, [(d, x), (d', y)]) (p', [(d, x), (d', y')])" if "get_client_step d' y p = (y', p')" for p p' x y y' d d'
    using move [of 1 "[(d, x), (d', y)]" d' y p y' p'] that by simp
  note step = converse_rtranclp_into_rtranclp [of get_client_run]
  have starts: "get_client_run (empty_pool, []) (empty_pool, [(''d'', PoolLoad)])"
    "get_client_run (empty_pool, [(''d'', PoolLoad)]) (?m [] [] PoolLoad PoolLoad)"
    using call [of empty_pool "[]" "''d''"] call [of empty_pool "[(''d'', PoolLoad)]" "''d''"] by (simp_all add: empty_pool_def)
  have loads: "get_client_run (?m [] [] PoolLoad PoolLoad) (?m [] [] PoolCreate PoolLoad)"
    "get_client_run (?m [] [] PoolCreate PoolLoad) (?m [] [] PoolCreate PoolCreate)"
    by (rule moves, simp) (rule moves2, simp)
  have creates: "get_client_run (?m [] [] PoolCreate PoolCreate) (?m [?c] [] (PoolStore 0) PoolCreate)"
    "get_client_run (?m [?c] [] (PoolStore 0) PoolCreate) (?m [?c, ?c] [] (PoolStore 0) (PoolStore 1))"
    by (rule moves, simp) (rule moves2, simp)
  have stores: "get_client_run (?m [?c, ?c] [] (PoolStore 0) (PoolStore 1)) (?m [?c, ?c] [(''d'', 1)] (PoolStore 0) (PoolGot 1))"
    "get_client_run (?m [?c, ?c] [(''d'', 1)] (PoolStore 0) (PoolGot 1)) (?m [?c, ?c] [(''d'', 1)] (PoolGot 1) (PoolGot 1))"
    by (rule moves2, simp) (rule moves, simp)
  have run: "get_client_run\<^sup>*\<^sup>* (empty_pool, []) (?m [?c, ?c] [(''d'', 1)] (PoolGot 1) (PoolGot 1))"
    by (rule starts [THEN step] loads [THEN step] creates [THEN step] stores [THEN step] rtranclp.rtrancl_refl)+
  show ?thesis using run clients_shared [OF run, of "''d''" 1 "''d''" 1] by simp
qed

end
