(* ===== verification/Spec2Isabelle.thy ===== *)
theory Spec2Isabelle
  imports Lifecycle Isolation SemaphoreQueue LimiterRuns ClientPool
begin

text \<open>
  A model of the BSSM API proxy (Go, module \<open>BSSM_DEVELOPERS_BE_PROXY\<close>) and the theorems that make it
  correct. File and function names below are relative to the root of the repository.

  \<^bold>\<open>The program.\<close> Clients send HTTP requests under \<open>/proxy-browser\<close> or \<open>/proxy-server\<close> with an API
  token in a header. A request passes an error middleware and a queue that bounds how many requests
  are served at a time; the pipeline then looks up the token, checks the access (the origin of a
  browser, the secret of a server), refuses blocked tokens, finds the registered API whose endpoint
  template matches the path, forwards the request to the domain of that API, publishes a log entry
  and counts the request. A token that sends too many requests escalates from NORMAL to WARNING
  to BLOCKED. \<open>POST /healthy\<close> probes a domain. Tokens, domains and usages come from MySQL through a
  two-level cache (memory and Redis).

  \<^bold>\<open>Conventions\<close> (\<open>Prelude\<close>, \<open>External\<close>). A Go \<open>string\<close> or \<open>[]byte\<close> is a list of bytes; a Go map is an
  association list in the order of one iteration; \<open>(T, error)\<close> is a sum of \<open>Err\<close> and \<open>Ok\<close>. An operation
  with effects is a function \<open>'e \<Rightarrow> 'a \<times> 'e\<close> on the state \<open>'e\<close> of everything outside the program, which
  stays a type variable. What is not part of the repository (go-cache, Redis, GORM, DNS, the
  transport of \<open>net/http\<close>, bcrypt, viper, the MongoDB driver, clocks and id generators) is a record of
  operations or a function that the definitions take as an argument; where a theorem relies on its
  documented behaviour, that is a named predicate (\<open>cache_laws\<close>, \<open>store_laws\<close>, \<open>raw_law\<close>, \<open>gorm_law\<close>,
  \<open>publisher_law\<close>, \<open>insert_law\<close>). The cache is stated for any codec with \<open>codec_law\<close>; the codecs of the
  program are the JSON codecs of \<open>ModelJSON\<close>, for which the law is proved. A goroutine that the request path starts and forgets is returned in a list of
  \<open>task\<close>s; each may run at any later time.

  \<^bold>\<open>Standard library\<close> as far as the code uses it: \<open>GoStrings\<close> (UTF-8, \<open>strings\<close>, \<open>unicode\<close> with its
  tables as a parameter, \<open>strconv\<close>, canonical header names), \<open>GoNet\<close> (parsing of IP addresses and CIDR
  blocks), \<open>GoURL\<close> (\<open>net/url\<close>), \<open>ContainerHeap\<close> (\<open>container/heap\<close> over its interface, with the locale
  \<open>heap_contract\<close>), \<open>GoJSON\<close> (printing, tokens and parsing of \<open>encoding/json\<close>, with all escapes of
  strings, and filling a struct), and the part of \<open>regexp\<close> that templates need in \<open>EndpointTemplate\<close>; templates
  with other metacharacters are left to a parameter.

  \<^bold>\<open>Theories and sources.\<close>
  \<^item> \<open>AppErrors\<close>: \<open>internal/apperrors\<close>. The error structs, the sentinels, \<open>errors.As\<close>.
  \<^item> \<open>ApiToken\<close>, \<open>RequestInfo\<close>: \<open>internal/domain/api/model\<close>. Access checks, the token's state machine, base
    path and endpoint of a request, the forwarded headers. \<open>ModelJSON\<close> has the JSON form of the structs
    that are cached, from their tags, and its round trip.
  \<^item> \<open>WaitQueue\<close>, \<open>HRNQueue\<close>, \<open>SemaphoreQueue\<close>: \<open>internal/queue\<close>. Every interleaving of \<open>Acquire\<close>, \<open>Release\<close>
    and the timer goroutines is a run of the step relation \<open>q_step\<close>; \<open>q_exec\<close> runs one schedule. The
    locale \<open>wait_queue\<close> states what a queue's list of waiters promises; it is interpreted on the
    heap of \<open>hrn_queue.go\<close> (itself an interpretation of \<open>heap_contract\<close>) and on the slice of
    \<open>semaphore_queue.go\<close>. Proved in it: slots are conserved, every queued waiter is answered once,
    nobody waits for ever. \<open>QueueSpec\<close> states the interface of \<open>queue.go\<close> as a small machine of clients
    and free slots, with a simulation from \<open>wait_queue\<close>, so both queues refine it.
  \<^item> \<open>PriorityService\<close>: \<open>priority_service.go\<close>. Priorities from recorded failures.
  \<^item> \<open>Config\<close>: \<open>internal/config\<close>. The structs, the defaults, \<open>Load\<close>.
  \<^item> \<open>DomainValidator\<close>: \<open>internal/validator\<close>. The check against internal addresses.
  \<^item> \<open>Requester\<close>: \<open>internal/requester\<close>. The forwarded request, the client pool, the sanitised response;
    the locale \<open>requester\<close> is the interface that pipeline and health check use. \<open>ClientPool\<close>: the calls
    of \<open>getOrCreateClient\<close> by all requests on the shared pool, with clients as addresses (\<open>get_client_run\<close>).
  \<^item> \<open>TwoLevelCache\<close>: \<open>internal/cache\<close>. \<open>GetOrFetch\<close> over memory, Redis and a fetch function.
  \<^item> \<open>EndpointTemplate\<close>, \<open>QueryServices\<close>: \<open>internal/domain/api/query\<close>. The lookups and the template match.
  \<^item> \<open>Repositories\<close>: \<open>internal/domain/api/repository\<close>. The GORM queries, with the SQL join.
  \<^item> \<open>CacheRuns\<close>: the caches over time. Lookups of many requests, their goroutines that write to Redis
    later, expiry and changes of the database as steps in any order (\<open>cache_step\<close>).
  \<^item> \<open>RateLimiter\<close>: \<open>redis_rate_limiter.go\<close> and \<open>token_state_service.go\<close>. The counters in Redis, the
    threshold, the transition of the token.
  \<^item> \<open>Pipeline\<close>: \<open>pipeline.go\<close>, \<open>browser_service.go\<close>, \<open>server_service.go\<close>, \<open>health_service.go\<close>.
  \<^item> \<open>LimiterRuns\<close>: \<open>trackRequest\<close> and \<open>releaseRequest\<close> as goroutines, one Redis command or query at a
    time (\<open>limiter_step\<close>), and all their interleavings with each other and with the world (\<open>limiter_run\<close>).
  \<^item> \<open>LogSanitizer\<close>, \<open>LogPublisher\<close>, \<open>LogWorkers\<close>: \<open>internal/log\<close>. Masking and truncation, the documents
    and the publishing with drop, and the workers on their channel as a state machine. \<open>LogRepository\<close> runs
    them together with the collection in MongoDB.
  \<^item> \<open>Handlers\<close>, \<open>Middleware\<close>: \<open>internal/domain/api/handler\<close> and \<open>internal/middleware\<close>. A handler is the list
    of calls it makes on the gin context (\<open>reply\<close>) with the way it ends; \<open>Error_log\<close> is what the error
    middleware logs.
  \<^item> \<open>Isolation\<close>: the pipeline on top of the caches with the JSON codecs, as \<open>wire\<close> builds it, in any state
    that earlier requests have left behind.
  \<^item> \<open>Server\<close>, \<open>Lifecycle\<close>: \<open>cmd/main.go\<close>. \<open>wire\<close> builds the program from its configuration and the
    externals, \<open>main_setup\<close> connects the databases before it, and \<open>main_exec\<close> is the process from then
    on: signal, shutdown and deferred calls between requests, log workers and the clock.

  \<^bold>\<open>What the theorems show.\<close> Safety of the request path: a request reaches the upstream only after
  all guards, on the registered host, with an API granted to its token, and never on an internal
  address as resolved by the check; a client gets answers through its own token only, whatever is cached; every request gets one
  answer, panics included; the slot of
  the queue is given back. The queues: slots are conserved in every interleaving, a release hands
  the slot to the waiter of the greatest effective priority, or to the first one, a wake-up can be
  lost between the two steps of \<open>Acquire\<close>; both refine the abstract queue. The data path: in every run
  the caches answer a client with its own token, domains and usages only, what was fetched is read
  back, also through JSON, templates match what they denote, bodies and headers are cut and filtered
  as stated. The limiter: when a token escalates; that a block is final in every interleaving unless a
  transition is under way, which can undo it; that the counter of concurrent requests keeps within its
  bounds, is exact while releases follow their requests, and goes wrong otherwise. The log: no entry is lost or saved twice once accepted, the collection holds what was sent and nothing else, and the
  workers drain the buffer when they are cancelled. The process: when it starts, that its shutdown waits
  for requests, but not for ever, and that it can end with accepted entries unsaved.

  \<^bold>\<open>Bounds and termination.\<close> No definition uses fuel. The loop of \<open>Release\<close> is a
  \<open>partial_function (option)\<close>, and the release theorems of both queues prove that it returns;
  \<open>pool_measure\<close> bounds the steps of the workers after a cancellation; the other loops (sifting in the
  heap, scanners of strings) are structural or \<open>function\<close>s with a termination proof.

  \<^bold>\<open>Idealisations.\<close> A \<open>float64\<close> is a real number; \<open>int64\<close> values that the code computes with are
  \<open>64 word\<close>s, ids are integers. The clock of the queue is read once per heap operation (the code
  reads it in each comparison; the difference of two effective priorities does not depend on it).
  The timer of a waiter may fire at any time, which covers the timeout and the end of the request.
  A lookup in \<open>CacheRuns\<close> is one step; in \<open>LimiterRuns\<close> every command is one, and the theorems on
  counters there are about Redis and the database as tables, with expiry as an outside step. A context with a timeout is the time when it expires; the client of
  MongoDB compares it with its own clock.

  \<^bold>\<open>Not modelled.\<close> What is behind the calls of the drivers, of gin, of the CORS package and of zap;
  the program's own log lines other than those of the error middleware and the debug line of the proxy
  handler; cancellation through \<open>context.Context\<close> other than in the queue, the log workers and the
  shutdown; the GORM tags and table names, which only the database layer reads; JSON decoding into
  types other than the three cached ones. These are I/O or third-party code.
\<close>

end
